(* ===== verification/Prelude.thy ===== *)
theory Prelude
  imports Main "HOL-Library.Word"
begin

text \<open>
  Shared vocabulary of the development: bytes and the two string conversions of
  \<open>core/bytes.go\<close>, the error values of the Go packages, the outcome of a call that
  may panic, and the reading of a byte stream with \<open>io.ReadFull\<close>.  A connection is
  read as the list of bytes that are still to arrive followed by its end; a call that
  the code makes on it returns the bytes left over.  The collections named below are
  filled by the components and used by their proofs.
\<close>

section \<open>Collections of facts\<close>

named_theorems frame_simps \<open>shapes and lengths of the wire frames\<close>
named_theorems inv_simps \<open>unfoldings of the component invariants\<close>
named_theorems codec_simps \<open>decoding of an encoded field\<close>

section \<open>Bytes and strings\<close>

type_synonym byte = "8 word"
type_synonym bytes = "byte list"

text \<open>
  A Go string is a sequence of bytes.  The two functions of \<open>core/bytes.go\<close> reinterpret
  the same memory, so they are the two directions of one bijection.
\<close>

definition StringToBytes :: "string \<Rightarrow> bytes" where
  "StringToBytes s = map of_char s"

definition BytesToString :: "bytes \<Rightarrow> string" where
  "BytesToString b = map (\<lambda>w. char_of (unat w)) b"

lemma unat_of_char: "unat (of_char c :: byte) = of_char c"
proof -
  have "(of_char c :: byte) = of_nat (of_char c)"
    by (simp only: of_nat_of_char)
  then have "unat (of_char c :: byte) = (of_char c :: nat) mod 2 ^ LENGTH(8)"
    by (simp only: unat_of_nat)
  then show ?thesis by simp
qed

lemma unat_byte_less [simp]: "unat (w :: byte) < 256"
  using unsigned_less [of w, where ?'a = nat] by simp

lemma of_char_char_of_unat: "of_char (char_of (unat (w :: byte))) = w"
proof -
  have "(of_char (char_of (unat w)) :: byte) = of_nat (of_char (char_of (unat w)))"
    by (simp only: of_nat_of_char)
  also have "\<dots> = of_nat (unat w mod 256)"
    by (simp only: of_char_of)
  also have "\<dots> = w" by simp
  finally show ?thesis .
qed

lemma BytesToString_StringToBytes [simp]: "BytesToString (StringToBytes s) = s"
  by (simp add: BytesToString_def StringToBytes_def unat_of_char comp_def)

lemma StringToBytes_BytesToString [simp]: "StringToBytes (BytesToString b) = b"
  by (simp add: BytesToString_def StringToBytes_def of_char_char_of_unat comp_def)

lemma length_StringToBytes [simp]: "length (StringToBytes s) = length s"
  by (simp add: StringToBytes_def)

lemma length_BytesToString [simp]: "length (BytesToString b) = length b"
  by (simp add: BytesToString_def)

lemma StringToBytes_Nil [simp]: "StringToBytes [] = []"
  by (simp add: StringToBytes_def)

lemma StringToBytes_append [simp]: "StringToBytes (s @ t) = StringToBytes s @ StringToBytes t"
  by (simp add: StringToBytes_def)

lemma BytesToString_eq_iff: "BytesToString b = s \<longleftrightarrow> b = StringToBytes s"
  by auto

lemma BytesToString_empty_iff [simp]: "BytesToString b = [] \<longleftrightarrow> b = []"
  by (simp add: BytesToString_def)

section \<open>Splitting and joining strings\<close>

text \<open>\<open>strings.Split\<close> with a separator of one character, and \<open>strings.Join\<close>.\<close>

fun Split :: "char \<Rightarrow> string \<Rightarrow> string list" where
  "Split c [] = [[]]"
| "Split c (x # xs) =
     (if x = c then [] # Split c xs
      else (x # hd (Split c xs)) # tl (Split c xs))"

fun Join :: "char \<Rightarrow> string list \<Rightarrow> string" where
  "Join c [] = []"
| "Join c [v] = v"
| "Join c (v # w # vs) = v @ c # Join c (w # vs)"

lemma Split_nonempty [simp]: "Split c s \<noteq> []"
  by (cases s) auto

lemma Split_no_sep: "c \<notin> set v \<Longrightarrow> Split c v = [v]"
  by (induction v) auto

lemma Split_append_sep: "c \<notin> set v \<Longrightarrow> Split c (v @ c # s) = v # Split c s"
  by (induction v) auto

lemma Split_Join: "vs \<noteq> [] \<Longrightarrow> \<forall>v \<in> set vs. c \<notin> set v \<Longrightarrow> Split c (Join c vs) = vs"
  by (induction c vs rule: Join.induct) (auto simp: Split_no_sep Split_append_sep)

lemma Join_Cons: "vs \<noteq> [] \<Longrightarrow> Join c (v # vs) = v @ c # Join c vs"
  by (cases vs) auto

lemma Join_Cons_head: "Join c ((x # v) # vs) = x # Join c (v # vs)"
  by (cases vs) auto

lemma Join_Split [simp]: "Join c (Split c s) = s"
proof (induction s)
  case Nil
  then show ?case by simp
next
  case (Cons x s)
  have "Join c (hd (Split c s) # tl (Split c s)) = s" using Cons.IH by simp
  then show ?case using Cons.IH by (simp add: Join_Cons Join_Cons_head)
qed

lemma length_Join:
  "length (Join c vs) = sum_list (map length vs) + (length vs - 1)"
  by (induction c vs rule: Join.induct) auto

section \<open>Errors, panics and streams\<close>

text \<open>
  The error values the packages return: the library's sentinels that the code compares
  with or passes on, the sentinels of this repository, \<open>core.HelloError\<close> with its code,
  and the errors that are only a text.
\<close>

datatype gerr =
    EOF | ErrUnexpectedEOF | ErrShortBuffer | DeadlineExceeded | Canceled
  | ErrUnknowProtocol | HelloError byte
  | ErrWriteOverflow | ErrReaderClosed
  | ErrServerClosed | ErrChannelClosed | ErrTCPClosed | ErrClientClosed
  | ErrWriterClosed
  | ErrText string
  | ErrForeign nat

text \<open>
  A call returns its results or panics: an index or a slice bound out of range, or a
  method on a nil pointer.  A panic in a goroutine that does not recover ends the process.
\<close>

datatype 'a outcome = Done 'a | Panic

fun bind_outcome :: "'a outcome \<Rightarrow> ('a \<Rightarrow> 'b outcome) \<Rightarrow> 'b outcome" where
  "bind_outcome (Done x) f = f x"
| "bind_outcome Panic f = Panic"

lemma bind_outcome_Done_iff:
  "bind_outcome m f = Done y \<longleftrightarrow> (\<exists>x. m = Done x \<and> f x = Done y)"
  by (cases m) auto

text \<open>
  \<open>io.ReadFull(r, b)\<close> with \<open>k = len(b)\<close> on a stream \<open>s\<close>: the bytes read, the error and
  the rest.  At the end of the stream nothing read is \<open>EOF\<close>, a part is
  \<open>ErrUnexpectedEOF\<close>.
\<close>

definition ReadFull :: "nat \<Rightarrow> bytes \<Rightarrow> bytes \<times> gerr option \<times> bytes" where
  "ReadFull k s =
     (if k \<le> length s then (take k s, None, drop k s)
      else if s = [] then ([], Some EOF, [])
      else (s, Some ErrUnexpectedEOF, []))"

lemma ReadFull_enough: "k \<le> length s \<Longrightarrow> ReadFull k s = (take k s, None, drop k s)"
  by (simp add: ReadFull_def)

lemma ReadFull_append [simp]: "length b = k \<Longrightarrow> ReadFull k (b @ s) = (b, None, s)"
  by (simp add: ReadFull_def)

lemma ReadFull_SomeD:
  "ReadFull k s = (b, None, s') \<Longrightarrow> s = b @ s' \<and> length b = k"
  by (auto simp: ReadFull_def split: if_splits)

lemma ReadFull_length: "ReadFull k s = (b, e, s') \<Longrightarrow> s = b @ s'"
  by (auto simp: ReadFull_def split: if_splits)

lemma ReadFull_append2: "length a + length b = k \<Longrightarrow> ReadFull k (a @ b @ s) = (a @ b, None, s)"
  using ReadFull_append [of "a @ b" k s] by simp

lemma ReadFull_NoneE:
  assumes "ReadFull k r = (b, None, r')"
  obtains "r = b @ r'" "length b = k" "k \<le> length r" "b = take k r" "r' = drop k r"
  using assms by (auto simp: ReadFull_def split: if_splits)

text \<open>
  Go's \<open>copy(dst[pos:], src)\<close>: the elements that fit, and how many they are.
\<close>

definition go_copy :: "'a list \<Rightarrow> nat \<Rightarrow> 'a list \<Rightarrow> 'a list \<times> nat" where
  "go_copy dst pos src =
     (let n = min (length dst - pos) (length src)
      in (take pos dst @ take n src @ drop (pos + n) dst, n))"

lemma length_go_copy [simp]:
  "pos \<le> length dst \<Longrightarrow> length (fst (go_copy dst pos src)) = length dst"
  by (auto simp: go_copy_def Let_def)

lemma nth_go_copy:
  assumes "i < length dst" "pos \<le> length dst"
  shows "fst (go_copy dst pos src) ! i =
    (if pos \<le> i \<and> i < pos + min (length dst - pos) (length src) then src ! (i - pos) else dst ! i)"
  using assms by (auto simp: go_copy_def Let_def nth_append min_def)

lemma go_copy_at:
  "length a = p \<Longrightarrow> length x \<le> length rest \<Longrightarrow>
    fst (go_copy (a @ rest) p x) = (a @ x) @ drop (length x) rest"
  by (auto simp: go_copy_def Let_def)

section \<open>Arithmetic on words\<close>

lemma unat_minus_le: "b \<le> a \<Longrightarrow> unat (a - b) = unat a - unat (b :: 'a::len word)"
  by (rule unat_sub)

lemma unat_plus_no_wrap:
  "unat a + unat b < 2 ^ LENGTH('a) \<Longrightarrow> unat (a + b) = unat a + unat (b :: 'a::len word)"
  by (simp add: unat_word_ariths)

lemma unat_of_nat_le: "n < 2 ^ LENGTH('a) \<Longrightarrow> unat (of_nat n :: 'a::len word) = n"
  by (simp add: unat_of_nat)

end
