(* ===== verification/ByteFifo.thy ===== *)
theory ByteFifo
  imports Prelude
begin

text \<open>
  The contract of a bounded byte queue, as the pipe and the channels rely on it: a write is
  all or nothing, a read takes a prefix and always returns.  What its clients need is proved
  here once, over any queue that keeps the contract: the bytes that come out are the bytes
  that were accepted, in order, and nothing is lost or invented.
\<close>

section \<open>Sequences of operations\<close>

datatype fifo_op = FWrite bytes | FRead nat

text \<open>
  Running a sequence of operations: the queue at the end, the bytes accepted and the bytes
  deq.  A deq that does not return is \<open>None\<close>.
\<close>

fun fifo_run ::
    "('q \<Rightarrow> bytes \<Rightarrow> 'q \<times> nat \<times> gerr option) \<Rightarrow>
     ('q \<Rightarrow> nat \<Rightarrow> ('q \<times> bytes \<times> gerr option) option) \<Rightarrow>
     'q \<Rightarrow> fifo_op list \<Rightarrow> ('q \<times> bytes \<times> bytes) option" where
  "fifo_run enq deq q [] = Some (q, [], [])"
| "fifo_run enq deq q (FWrite b # ops) =
     (case enq q b of (q', n, _) \<Rightarrow>
       map_option (\<lambda>(q'', w, r). (q'', take n b @ w, r)) (fifo_run enq deq q' ops))"
| "fifo_run enq deq q (FRead k # ops) =
     (case deq q k of
        None \<Rightarrow> None
      | Some (q', out, _) \<Rightarrow>
          map_option (\<lambda>(q'', w, r). (q'', w, out @ r)) (fifo_run enq deq q' ops))"

section \<open>The contract\<close>

locale byte_fifo =
  fixes inv :: "'q \<Rightarrow> bool"
    and contents :: "'q \<Rightarrow> bytes"
    and capacity :: "'q \<Rightarrow> nat"
    and enq :: "'q \<Rightarrow> bytes \<Rightarrow> 'q \<times> nat \<times> gerr option"
    and deq :: "'q \<Rightarrow> nat \<Rightarrow> ('q \<times> bytes \<times> gerr option) option"
  assumes bounded: "inv q \<Longrightarrow> length (contents q) \<le> capacity q"
    and write_fits: "inv q \<Longrightarrow> length (contents q) + length b \<le> capacity q \<Longrightarrow>
      \<exists>q'. enq q b = (q', length b, None) \<and> inv q' \<and> contents q' = contents q @ b
        \<and> capacity q' = capacity q"
    and write_full: "inv q \<Longrightarrow> capacity q < length (contents q) + length b \<Longrightarrow>
      enq q b = (q, 0, Some ErrWriteOverflow)"
    and read_some: "inv q \<Longrightarrow> contents q \<noteq> [] \<Longrightarrow>
      \<exists>q'. deq q k = Some (q', take k (contents q), None) \<and> inv q'
        \<and> contents q' = drop k (contents q) \<and> capacity q' = capacity q"
    and read_empty: "inv q \<Longrightarrow> contents q = [] \<Longrightarrow> deq q k = Some (q, [], Some EOF)"
begin

lemma write_cases:
  assumes "inv q"
  obtains (accepted) q' where "enq q b = (q', length b, None)" "inv q'"
      "contents q' = contents q @ b" "capacity q' = capacity q"
      "length (contents q) + length b \<le> capacity q"
  | (refused) "enq q b = (q, 0, Some ErrWriteOverflow)"
      "capacity q < length (contents q) + length b"
  using write_fits [OF assms, of b] write_full [OF assms, of b] by force

lemma read_cases:
  assumes "inv q"
  obtains q' e where "deq q k = Some (q', take k (contents q), e)" "inv q'"
    "contents q' = drop k (contents q)" "capacity q' = capacity q"
    "e = None \<longleftrightarrow> contents q \<noteq> []"
  using read_some [OF assms, of k] read_empty [OF assms, of k] assms
  by (cases "contents q = []") auto

lemma read_returns: "inv q \<Longrightarrow> deq q k \<noteq> None"
  by (metis read_cases option.distinct(1))

lemma run_fifo:
  "inv q \<Longrightarrow> \<exists>q' w r. fifo_run enq deq q ops = Some (q', w, r) \<and> inv q'
     \<and> capacity q' = capacity q \<and> contents q @ w = r @ contents q'"
proof (induction ops arbitrary: q)
  case Nil
  then show ?case by simp
next
  case (Cons op ops)
  show ?case
  proof (cases op)
    case (FWrite b)
    from \<open>inv q\<close> show ?thesis
    proof (cases rule: write_cases [where b = b])
      case (accepted q')
      then obtain q'' w r where "fifo_run enq deq q' ops = Some (q'', w, r)" "inv q''"
        "capacity q'' = capacity q'" "contents q' @ w = r @ contents q''"
        using Cons.IH by blast
      with accepted FWrite show ?thesis by simp
    next
      case refused
      with Cons.IH [OF \<open>inv q\<close>] FWrite show ?thesis by auto
    qed
  next
    case (FRead k)
    from \<open>inv q\<close> obtain q' e where rd: "deq q k = Some (q', take k (contents q), e)" "inv q'"
      "contents q' = drop k (contents q)" "capacity q' = capacity q"
      by (rule read_cases)
    then obtain q'' w r where "fifo_run enq deq q' ops = Some (q'', w, r)" "inv q''"
      "capacity q'' = capacity q'" "contents q' @ w = r @ contents q''"
      using Cons.IH by blast
    moreover have "contents q @ w = take k (contents q) @ contents q' @ w"
      using rd(3) by simp
    ultimately show ?thesis using rd FRead by simp
  qed
qed

end

end
