(* ===== verification/ReadWriter.thy ===== *)
theory ReadWriter
  imports ByteFifo
begin

text \<open>
  \<open>pipe/read_writer.go\<close>: the ring buffer under every channel, with the operations of the
  Go type and the proof that it keeps the contract of a bounded byte queue.
\<close>

section \<open>The type and its operations\<close>

record rw =
  rw_buffer :: bytes
  rw_offset :: nat
  rw_size :: nat

definition NewReadWriter :: "bytes \<Rightarrow> rw" where
  "NewReadWriter b = \<lparr>rw_buffer = b, rw_offset = 0, rw_size = 0\<rparr>"

definition rw_Clear :: "rw \<Rightarrow> rw" where
  "rw_Clear rw = rw\<lparr>rw_offset := 0, rw_size := 0\<rparr>"

definition rw_Len :: "rw \<Rightarrow> nat" where
  "rw_Len rw = rw_size rw"

definition rw_Available :: "rw \<Rightarrow> int" where
  "rw_Available rw = int (length (rw_buffer rw)) - int (rw_size rw)"

definition rw_Write :: "rw \<Rightarrow> bytes \<Rightarrow> rw \<times> nat \<times> gerr option" where
  "rw_Write rw b =
     (let sz = length b in
      if sz = 0 then (rw, 0, None)
      else
        let capacity = length (rw_buffer rw) in
        if rw_Available rw < int sz then (rw, 0, Some ErrWriteOverflow)
        else
          let (buf, n) = go_copy (rw_buffer rw) ((rw_offset rw + rw_size rw) mod capacity) b;
              (buf, n') = go_copy buf 0 (drop n b)
          in (rw\<lparr>rw_buffer := buf, rw_size := rw_size rw + (n + n')\<rparr>, n + n', None))"

definition rw_WriteString :: "rw \<Rightarrow> string \<Rightarrow> rw \<times> nat \<times> gerr option" where
  "rw_WriteString rw s = rw_Write rw (StringToBytes s)"

text \<open>
  The unexported \<open>read\<close> copies one contiguous run into a destination of \<open>k\<close> bytes; \<open>Read\<close>
  calls it until the destination is full or the buffer is empty.
\<close>

definition rw_read_once :: "rw \<Rightarrow> nat \<Rightarrow> rw \<times> bytes" where
  "rw_read_once rw k =
     (let capacity = length (rw_buffer rw);
          hi = (if rw_offset rw + rw_size rw > capacity then capacity
                 else rw_offset rw + rw_size rw);
          out = take k (take (hi - rw_offset rw) (drop (rw_offset rw) (rw_buffer rw)));
          n = length out
      in (rw\<lparr>rw_size := rw_size rw - n, rw_offset := (rw_offset rw + n) mod capacity\<rparr>, out))"

partial_function (option) rw_read_loop :: "rw \<Rightarrow> nat \<Rightarrow> (rw \<times> bytes) option" where
  "rw_read_loop rw k =
     (if rw_size rw \<noteq> 0 \<and> k \<noteq> 0 then
        (case rw_read_once rw k of (rw', out) \<Rightarrow>
          Option.bind (rw_read_loop rw' (k - length out)) (\<lambda>(rw'', out2). Some (rw'', out @ out2)))
      else Some (rw, []))"

declare rw_read_loop.simps [code]

definition rw_Read :: "rw \<Rightarrow> nat \<Rightarrow> (rw \<times> bytes \<times> gerr option) option" where
  "rw_Read rw k =
     (if rw_size rw = 0 then Some (rw, [], Some EOF)
      else map_option (\<lambda>(rw, out). (rw, out, None)) (rw_read_loop rw k))"

section \<open>What the ring holds\<close>

definition rw_inv :: "rw \<Rightarrow> bool" where
  "rw_inv rw \<longleftrightarrow> rw_size rw \<le> length (rw_buffer rw)
     \<and> (rw_offset rw < length (rw_buffer rw) \<or> rw_offset rw = 0)"

definition rw_contents :: "rw \<Rightarrow> bytes" where
  "rw_contents rw =
     map (\<lambda>i. rw_buffer rw ! ((rw_offset rw + i) mod length (rw_buffer rw))) [0..<rw_size rw]"

abbreviation rw_capacity :: "rw \<Rightarrow> nat" where
  "rw_capacity rw \<equiv> length (rw_buffer rw)"

lemma length_rw_contents [simp]: "length (rw_contents rw) = rw_size rw"
  by (simp add: rw_contents_def)

lemma rw_contents_empty_iff: "rw_contents rw = [] \<longleftrightarrow> rw_size rw = 0"
  by (simp add: rw_contents_def)

lemma rw_new: "rw_inv (NewReadWriter b)" "rw_contents (NewReadWriter b) = []"
  by (simp_all add: rw_inv_def NewReadWriter_def rw_contents_def)

lemma rw_capacity_new: "rw_capacity (NewReadWriter b) = length b"
  by (simp add: NewReadWriter_def)

lemma mod_one_lap: "x < 2 * c \<Longrightarrow> x mod c = (if x < c then x else x - c)" for x c :: nat
  by (simp add: le_mod_geq)

text \<open>
  Which write reaches cell \<open>j\<close> of the ring, for the \<open>i\<close>-th byte of the new contents: none
  when the byte was there before, the second copy after the wrap, or the first one.
\<close>

lemma ring_cell:
  fixes cap p s l i :: nat
  assumes "p < cap" "s + l \<le> cap" "i < s + l"
  defines "pos \<equiv> (p + s) mod cap" and "j \<equiv> (p + i) mod cap"
  defines "n \<equiv> min (cap - pos) l"
  shows "i < s \<Longrightarrow> \<not> j < l - n \<and> \<not> (pos \<le> j \<and> j < pos + n)"
    and "\<not> i < s \<Longrightarrow> j < l - n \<and> n + j = i - s
      \<or> \<not> j < l - n \<and> pos \<le> j \<and> j < pos + n \<and> j - pos = i - s"
proof -
  have j: "j = (if p + i < cap then p + i else p + i - cap)"
    unfolding j_def using assms(1-3) by (intro mod_one_lap) linarith
  have pos: "pos = (if p + s < cap then p + s else p + s - cap)"
    unfolding pos_def using assms(1-3) by (intro mod_one_lap) linarith
  show "\<not> j < l - n \<and> \<not> (pos \<le> j \<and> j < pos + n)" if "i < s"
    using that assms(1-3) unfolding n_def j pos by (auto split: if_splits)
  show "j < l - n \<and> n + j = i - s
      \<or> \<not> j < l - n \<and> pos \<le> j \<and> j < pos + n \<and> j - pos = i - s" if "\<not> i < s"
    using that assms(1-3) unfolding n_def j pos by (auto split: if_splits)
qed

lemma rw_write_accepts:
  assumes inv: "rw_inv rw" and fits: "rw_size rw + length b \<le> length (rw_buffer rw)"
  shows "\<exists>rw'. rw_Write rw b = (rw', length b, None) \<and> rw_inv rw'
    \<and> rw_contents rw' = rw_contents rw @ b \<and> rw_capacity rw' = rw_capacity rw"
proof (cases "b = []")
  case True
  then show ?thesis using inv by (simp add: rw_Write_def)
next
  case False
  let ?buf = "rw_buffer rw" and ?o = "rw_offset rw" and ?s = "rw_size rw"
  let ?cap = "length ?buf" and ?l = "length b"
  let ?pos = "(?o + ?s) mod ?cap"
  define n where "n = min (?cap - ?pos) ?l"
  define buf1 where "buf1 = fst (go_copy ?buf ?pos b)"
  define buf2 where "buf2 = fst (go_copy buf1 0 (drop n b))"
  have cap: "0 < ?cap" using False fits by (cases ?buf) auto
  have o: "?o < ?cap" using inv cap by (auto simp: rw_inv_def)
  have pos: "?pos < ?cap" using cap by simp
  have len1: "length buf1 = ?cap" using pos by (simp add: buf1_def)
  have len2: "length buf2 = ?cap" using len1 by (simp add: buf2_def)
  have n2: "snd (go_copy buf1 0 (drop n b)) = ?l - n"
    using fits len1 by (simp add: go_copy_def Let_def)
  have wr: "rw_Write rw b = (rw\<lparr>rw_buffer := buf2, rw_size := ?s + ?l\<rparr>, ?l, None)"
  proof -
    have "go_copy ?buf ?pos b = (buf1, n)"
      by (simp add: buf1_def n_def go_copy_def Let_def)
    moreover have "go_copy buf1 0 (drop n b) = (buf2, ?l - n)"
      using n2 by (simp add: buf2_def prod_eq_iff)
    moreover have "n + (?l - n) = ?l" by (simp add: n_def)
    ultimately show ?thesis
      using False fits by (simp add: rw_Write_def rw_Available_def Let_def)
  qed
  have at: "buf2 ! j = (if j < ?l - n then b ! (n + j)
      else if ?pos \<le> j \<and> j < ?pos + n then b ! (j - ?pos) else ?buf ! j)" if "j < ?cap" for j
  proof -
    have "min (length buf1 - 0) (length (drop n b)) = ?l - n"
      using len1 fits by simp
    then have "buf2 ! j = (if j < ?l - n then drop n b ! j else buf1 ! j)"
      using that len1 by (simp add: buf2_def nth_go_copy)
    moreover have "buf1 ! j = (if ?pos \<le> j \<and> j < ?pos + n then b ! (j - ?pos) else ?buf ! j)"
      using that pos by (simp add: buf1_def nth_go_copy n_def)
    moreover have "n \<le> ?l" by (simp add: n_def)
    ultimately show ?thesis by simp
  qed
  have cell: "buf2 ! ((?o + i) mod ?cap)
      = (if i < ?s then ?buf ! ((?o + i) mod ?cap) else b ! (i - ?s))"
    if i: "i < ?s + ?l" for i
  proof -
    let ?j = "(?o + i) mod ?cap"
    have jc: "?j < ?cap" using cap by simp
    note c = ring_cell [OF o fits i, folded n_def]
    show ?thesis
    proof (cases "i < ?s")
      case True
      from c(1) [OF this] have "\<not> ?j < ?l - n" "\<not> (?pos \<le> ?j \<and> ?j < ?pos + n)" by blast+
      with at [OF jc] True show ?thesis by presburger
    next
      case False
      from c(2) [OF this] at [OF jc] False show ?thesis by presburger
    qed
  qed
  have "rw_contents (rw\<lparr>rw_buffer := buf2, rw_size := ?s + ?l\<rparr>) = rw_contents rw @ b"
    by (rule nth_equalityI) (use cell in \<open>auto simp: rw_contents_def len2 nth_append\<close>)
  with wr show ?thesis
    using fits o by (simp add: rw_inv_def len2)
qed

lemma rw_read_once_spec:
  assumes inv: "rw_inv rw" and s: "rw_size rw \<noteq> 0" and k: "k \<noteq> 0"
  shows "\<exists>rw' n. rw_read_once rw k = (rw', take n (rw_contents rw)) \<and> 0 < n \<and> n \<le> k
    \<and> n \<le> rw_size rw \<and> rw_inv rw' \<and> rw_contents rw' = drop n (rw_contents rw)
    \<and> rw_size rw' = rw_size rw - n \<and> rw_capacity rw' = rw_capacity rw"
proof -
  let ?buf = "rw_buffer rw" and ?o = "rw_offset rw" and ?s = "rw_size rw"
  let ?cap = "length ?buf"
  define hi where "hi = (if ?o + ?s > ?cap then ?cap else ?o + ?s)"
  define n where "n = min k (hi - ?o)"
  define rw' where "rw' = rw\<lparr>rw_size := ?s - n, rw_offset := (?o + n) mod ?cap\<rparr>"
  have cap: "0 < ?cap" using inv s by (auto simp: rw_inv_def)
  have o: "?o < ?cap" using inv cap by (auto simp: rw_inv_def)
  have hi: "?o < hi" "hi \<le> ?cap" "hi - ?o \<le> ?s" using o s by (auto simp: hi_def)
  have n: "0 < n" "n \<le> k" "n \<le> ?s" "?o + n \<le> ?cap" using hi k by (auto simp: n_def)
  have out: "take k (take (hi - ?o) (drop ?o ?buf)) = take n (rw_contents rw)"
  proof -
    have "take k (take (hi - ?o) (drop ?o ?buf)) = take n (drop ?o ?buf)"
      by (simp add: n_def)
    also have "\<dots> = take n (rw_contents rw)"
      by (rule nth_equalityI) (use n in \<open>auto simp: rw_contents_def\<close>)
    finally show ?thesis .
  qed
  have "rw_read_once rw k = (rw', take n (rw_contents rw))"
  proof -
    have "length (take n (rw_contents rw)) = n" using n by simp
    then show ?thesis
      unfolding rw_read_once_def Let_def hi_def [symmetric] out rw'_def by simp
  qed
  moreover have "rw_contents rw' = drop n (rw_contents rw)"
  proof (rule nth_equalityI)
    fix i assume "i < length (rw_contents rw')"
    then have i: "i < ?s - n" by (simp add: rw'_def)
    have "((?o + n) mod ?cap + i) mod ?cap = (?o + (n + i)) mod ?cap"
      by (simp add: mod_add_left_eq add.assoc)
    moreover have "n + i < ?s" using i by simp
    ultimately show "rw_contents rw' ! i = drop n (rw_contents rw) ! i"
      using i by (simp add: rw'_def rw_contents_def)
  qed (simp add: rw'_def)
  moreover have "rw_inv rw'" using inv cap by (auto simp: rw'_def rw_inv_def)
  ultimately show ?thesis using n by (auto simp: rw'_def)
qed

lemma rw_read_loop_spec:
  "rw_inv rw \<Longrightarrow> \<exists>rw'. rw_read_loop rw k = Some (rw', take k (rw_contents rw)) \<and> rw_inv rw'
     \<and> rw_contents rw' = drop k (rw_contents rw) \<and> rw_capacity rw' = rw_capacity rw"
proof (induction "rw_size rw" arbitrary: rw k rule: less_induct)
  case less
  show ?case
  proof (cases "rw_size rw \<noteq> 0 \<and> k \<noteq> 0")
    case False
    then show ?thesis
      using less.prems by (subst rw_read_loop.simps) (auto simp: rw_contents_def)
  next
    case True
    then obtain rw1 n where once: "rw_read_once rw k = (rw1, take n (rw_contents rw))"
      and n: "0 < n" "n \<le> k" "n \<le> rw_size rw" and inv1: "rw_inv rw1"
      and c1: "rw_contents rw1 = drop n (rw_contents rw)" and sz: "rw_size rw1 = rw_size rw - n"
      and cap1: "rw_capacity rw1 = rw_capacity rw"
      using rw_read_once_spec [OF less.prems] by blast
    have "rw_size rw1 < rw_size rw" using sz n True by linarith
    from less.hyps [OF this inv1, of "k - n"] obtain rw2 where
      loop: "rw_read_loop rw1 (k - n) = Some (rw2, take (k - n) (rw_contents rw1))"
      and "rw_inv rw2" "rw_contents rw2 = drop (k - n) (rw_contents rw1)"
        "rw_capacity rw2 = rw_capacity rw1" by blast
    moreover have "take n (rw_contents rw) @ take (k - n) (drop n (rw_contents rw))
        = take k (rw_contents rw)"
      using n by (metis le_add_diff_inverse take_add)
    ultimately show ?thesis
      using True once n c1 cap1 by (subst rw_read_loop.simps) simp
  qed
qed

text \<open>The ring is a bounded byte queue; the clients use the facts \<open>ring.*\<close>.\<close>

interpretation ring: byte_fifo rw_inv rw_contents "\<lambda>rw. rw_capacity rw" rw_Write rw_Read
proof
  fix q :: rw and b k
  assume inv: "rw_inv q"
  show "length (rw_contents q) \<le> rw_capacity q" using inv by (simp add: rw_inv_def)
  show "\<exists>q'. rw_Write q b = (q', length b, None) \<and> rw_inv q' \<and> rw_contents q' = rw_contents q @ b
      \<and> rw_capacity q' = rw_capacity q"
    if "length (rw_contents q) + length b \<le> rw_capacity q"
    using rw_write_accepts [OF inv] that by simp
  show "rw_Write q b = (q, 0, Some ErrWriteOverflow)"
    if "rw_capacity q < length (rw_contents q) + length b"
    using that inv by (auto simp: rw_Write_def rw_Available_def rw_inv_def Let_def)
  show "\<exists>q'. rw_Read q k = Some (q', take k (rw_contents q), None) \<and> rw_inv q'
      \<and> rw_contents q' = drop k (rw_contents q) \<and> rw_capacity q' = rw_capacity q"
    if "rw_contents q \<noteq> []"
    using rw_read_loop_spec [OF inv, of k] that by (auto simp: rw_Read_def rw_contents_empty_iff)
  show "rw_Read q k = Some (q, [], Some EOF)" if "rw_contents q = []"
    using that by (simp add: rw_Read_def rw_contents_empty_iff)
qed

section \<open>Properties\<close>

text \<open>
  C28: from a fresh ring over any buffer, every sequence of writes and reads of any sizes
  returns, and the bytes read followed by the bytes still held are exactly the bytes of the
  accepted writes, in order; what is held never exceeds the buffer.
\<close>

theorem ring_run_fifo:
  "\<exists>q w r. fifo_run rw_Write rw_Read (NewReadWriter buf) ops = Some (q, w, r)
     \<and> w = r @ rw_contents q \<and> length (rw_contents q) \<le> length buf"
proof -
  obtain q w r where "fifo_run rw_Write rw_Read (NewReadWriter buf) ops = Some (q, w, r)"
    and "rw_inv q" "rw_capacity q = rw_capacity (NewReadWriter buf)"
    and "rw_contents (NewReadWriter buf) @ w = r @ rw_contents q"
    using ring.run_fifo [OF rw_new(1), of buf ops] by blast
  then show ?thesis
    using ring.bounded [of q] by (simp add: rw_new rw_capacity_new)
qed

text \<open>
  A write stores all of its bytes behind what the ring holds, or nothing at all: it is
  refused with \<open>ErrWriteOverflow\<close> and an unchanged ring exactly when the free space is
  smaller than the bytes.  Either way the ring stays well formed.
\<close>

theorem ring_write_all_or_nothing:
  assumes "rw_inv q"
  shows "case rw_Write q b of (q', n, e) \<Rightarrow>
    rw_inv q' \<and>
    (if rw_Available q < int (length b)
     then q' = q \<and> n = 0 \<and> e = Some ErrWriteOverflow
     else rw_contents q' = rw_contents q @ b \<and> n = length b \<and> e = None)"
proof -
  from assms show ?thesis
    by (cases rule: ring.write_cases [where b = b]) (use assms in \<open>auto simp: rw_Available_def\<close>)
qed

theorem ring_write_all_or_nothing_witness:
  "rw_inv \<lparr>rw_buffer = [7, 8, 9], rw_offset = 2, rw_size = 2\<rparr> \<and>
   (case rw_Write \<lparr>rw_buffer = [7, 8, 9], rw_offset = 2, rw_size = 2\<rparr> [1] of (q', n, e) \<Rightarrow>
     rw_inv q' \<and> rw_contents q' = [9, 7, 1] \<and> n = 1 \<and> e = None)"
proof -
  let ?q = "\<lparr>rw_buffer = [7, 8, 9], rw_offset = 2, rw_size = 2\<rparr> :: rw"
  have inv: "rw_inv ?q" by (simp add: rw_inv_def)
  have "rw_contents ?q = [9, 7]" by (simp add: rw_contents_def upt_rec)
  then show ?thesis
    using inv ring_write_all_or_nothing [OF inv, of "[1]"]
    by (auto simp: rw_Available_def split: prod.splits)
qed

text \<open>
  A read always returns, although its copy loop may go round the end of the buffer; it
  hands over the longest prefix that fits the destination and leaves the rest, and reports
  \<open>EOF\<close> exactly when the ring is empty.
\<close>

theorem ring_read_prefix:
  assumes "rw_inv q"
  shows "\<exists>q'. rw_Read q k =
      Some (q', take k (rw_contents q), if rw_contents q = [] then Some EOF else None)
    \<and> rw_inv q' \<and> rw_contents q' = drop k (rw_contents q)"
  using ring.read_some [OF assms, of k] ring.read_empty [OF assms, of k] assms
  by (cases "rw_contents q = []") auto

theorem ring_read_prefix_witness:
  "\<exists>q'. rw_Read \<lparr>rw_buffer = [7, 8, 9], rw_offset = 2, rw_size = 3\<rparr> 2 = Some (q', [9, 7], None)
     \<and> rw_inv q' \<and> rw_contents q' = [8]"
proof -
  let ?q = "\<lparr>rw_buffer = [7, 8, 9], rw_offset = 2, rw_size = 3\<rparr> :: rw"
  have inv: "rw_inv ?q" by (simp add: rw_inv_def)
  have "rw_contents ?q = [9, 7, 8]" by (simp add: rw_contents_def upt_rec)
  then show ?thesis using ring_read_prefix [OF inv, of 2] by simp
qed

end
