(* ===== verification/PipeReader.thy ===== *)
theory PipeReader
  imports ReadWriter
begin

text \<open>
  \<open>pipe/pipe_reader.go\<close>: a ring buffer behind a mutex and a condition variable.  Each
  critical section is a function; the goroutines that use one pipe are a step relation whose
  steps are these sections, so that a step of the relation is a stretch of code that holds the
  mutex.  A goroutine in \<open>cond.Wait\<close> is first in the notify list and, after a
  \<open>Broadcast\<close>, has to take the mutex again.  \<open>Close\<close> is two steps, because it sets the
  flag before it takes the mutex.
\<close>

section \<open>Critical sections\<close>

record pipe =
  pr_rw :: rw
  pr_closed :: bool
  pr_wait :: nat

definition NewPipeReader :: "nat \<Rightarrow> pipe" where
  "NewPipeReader n = \<lparr>pr_rw = NewReadWriter (replicate n 0), pr_closed = False, pr_wait = 0\<rparr>"

text \<open>\<open>Write\<close>: the new pipe, the results, and whether it broadcasts.\<close>

definition pr_Write :: "pipe \<Rightarrow> bytes \<Rightarrow> pipe \<times> nat \<times> gerr option \<times> bool" where
  "pr_Write p b =
     (if pr_closed p then (p, 0, Some ErrReaderClosed, False)
      else
        case rw_Write (pr_rw p) b of
          (rw, n, Some e) \<Rightarrow> (p\<lparr>pr_rw := rw\<rparr>, n, Some e, False)
        | (rw, n, None) \<Rightarrow> (p\<lparr>pr_rw := rw\<rparr>, n, None, pr_wait p \<noteq> 0))"

text \<open>
  \<open>Close\<close> run without interruption: the pipe afterwards, and whether it broadcasts.
\<close>

definition pr_Close :: "pipe \<Rightarrow> pipe \<times> bool" where
  "pr_Close p =
     (if pr_closed p then (p, False) else (p\<lparr>pr_closed := True\<rparr>, pr_wait p \<noteq> 0))"

text \<open>
  One pass of \<open>Read\<close> with the mutex held: it returns, or it must wait.  \<open>PDiverge\<close> stands
  for a copy loop that does not end.
\<close>

datatype pr_result = PRet pipe bytes "gerr option" | PBlock | PDiverge

definition pr_read_check :: "pipe \<Rightarrow> nat \<Rightarrow> pr_result" where
  "pr_read_check p k =
     (if rw_Len (pr_rw p) = 0 then (if pr_closed p then PRet p [] (Some EOF) else PBlock)
      else
        case rw_Read (pr_rw p) k of
          None \<Rightarrow> PDiverge
        | Some (rw, out, e) \<Rightarrow> PRet (p\<lparr>pr_rw := rw\<rparr>) out e)"

definition pr_Read :: "pipe \<Rightarrow> nat \<Rightarrow> pr_result" where
  "pr_Read p k =
     (if k = 0 then PRet p [] (if pr_closed p then Some EOF else None)
      else pr_read_check p k)"

section \<open>Goroutines on one pipe\<close>

text \<open>
  \<open>ps_waiting\<close> are the readers in the notify list, each with the size of its destination,
  \<open>ps_woken\<close> the readers that a broadcast has released, \<open>ps_closing\<close> the number of
  \<open>Close\<close> calls that have set the flag and not yet taken the mutex; \<open>ps_in\<close> and \<open>ps_out\<close>
  record the bytes accepted and returned so far.
\<close>

record pipe_sys =
  ps_pipe :: pipe
  ps_waiting :: "nat list"
  ps_woken :: "nat list"
  ps_closing :: nat
  ps_in :: bytes
  ps_out :: bytes

definition pipe_start :: "nat \<Rightarrow> pipe_sys" where
  "pipe_start n = \<lparr>ps_pipe = NewPipeReader n, ps_waiting = [], ps_woken = [],
     ps_closing = 0, ps_in = [], ps_out = []\<rparr>"

definition ps_broadcast :: "bool \<Rightarrow> pipe_sys \<Rightarrow> pipe_sys" where
  "ps_broadcast bc s =
     (if bc then s\<lparr>ps_woken := ps_woken s @ ps_waiting s, ps_waiting := []\<rparr> else s)"

inductive pipe_step :: "pipe_sys \<Rightarrow> pipe_sys \<Rightarrow> bool" where
  p_write: "pr_Write (ps_pipe s) b = (p, n, e, bc) \<Longrightarrow>
     pipe_step s (ps_broadcast bc (s\<lparr>ps_pipe := p, ps_in := ps_in s @ take n b\<rparr>))"
| p_close_flag: "\<not> pr_closed (ps_pipe s) \<Longrightarrow>
     pipe_step s (s\<lparr>ps_pipe := (ps_pipe s)\<lparr>pr_closed := True\<rparr>,
       ps_closing := Suc (ps_closing s)\<rparr>)"
| p_close_lock: "ps_closing s = Suc c \<Longrightarrow>
     pipe_step s (ps_broadcast (pr_wait (ps_pipe s) \<noteq> 0) (s\<lparr>ps_closing := c\<rparr>))"
| p_read: "pr_Read (ps_pipe s) k = PRet p out e \<Longrightarrow>
     pipe_step s (s\<lparr>ps_pipe := p, ps_out := ps_out s @ out\<rparr>)"
| p_read_wait: "pr_Read (ps_pipe s) k = PBlock \<Longrightarrow>
     pipe_step s (s\<lparr>ps_pipe := (ps_pipe s)\<lparr>pr_wait := Suc (pr_wait (ps_pipe s))\<rparr>,
       ps_waiting := ps_waiting s @ [k]\<rparr>)"
| p_wake: "ps_woken s = us @ k # vs \<Longrightarrow>
     q = (ps_pipe s)\<lparr>pr_wait := pr_wait (ps_pipe s) - 1\<rparr> \<Longrightarrow>
     pr_read_check q k = PRet p out e \<Longrightarrow>
     pipe_step s (s\<lparr>ps_pipe := p, ps_woken := us @ vs, ps_out := ps_out s @ out\<rparr>)"
| p_wake_wait: "ps_woken s = us @ k # vs \<Longrightarrow>
     q = (ps_pipe s)\<lparr>pr_wait := pr_wait (ps_pipe s) - 1\<rparr> \<Longrightarrow>
     pr_read_check q k = PBlock \<Longrightarrow>
     pipe_step s (s\<lparr>ps_pipe := q\<lparr>pr_wait := Suc (pr_wait q)\<rparr>, ps_woken := us @ vs,
       ps_waiting := ps_waiting s @ [k]\<rparr>)"

inductive pipe_reachable :: "nat \<Rightarrow> pipe_sys \<Rightarrow> bool" for n where
  pr_start: "pipe_reachable n (pipe_start n)"
| pr_step: "pipe_reachable n s \<Longrightarrow> pipe_step s t \<Longrightarrow> pipe_reachable n t"

section \<open>The invariant\<close>

definition pipe_inv :: "nat \<Rightarrow> pipe_sys \<Rightarrow> bool" where
  "pipe_inv n s \<longleftrightarrow>
     rw_inv (pr_rw (ps_pipe s)) \<and> rw_capacity (pr_rw (ps_pipe s)) = n
     \<and> pr_wait (ps_pipe s) = length (ps_waiting s) + length (ps_woken s)
     \<and> (ps_waiting s \<noteq> [] \<longrightarrow> rw_contents (pr_rw (ps_pipe s)) = []
          \<and> (pr_closed (ps_pipe s) \<longrightarrow> ps_closing s \<noteq> 0))
     \<and> ps_in s = ps_out s @ rw_contents (pr_rw (ps_pipe s))"

lemma pr_Write_cases:
  assumes "rw_inv (pr_rw p)"
  obtains (closed) "pr_closed p" "pr_Write p b = (p, 0, Some ErrReaderClosed, False)"
  | (full) "\<not> pr_closed p" "pr_Write p b = (p, 0, Some ErrWriteOverflow, False)"
  | (stored) rw where "\<not> pr_closed p"
      "pr_Write p b = (p\<lparr>pr_rw := rw\<rparr>, length b, None, pr_wait p \<noteq> 0)"
      "rw_inv rw" "rw_contents rw = rw_contents (pr_rw p) @ b"
      "rw_capacity rw = rw_capacity (pr_rw p)"
proof (cases "pr_closed p")
  case True
  with closed show thesis by (simp add: pr_Write_def)
next
  case False
  from assms show thesis
    by (cases rule: ring.write_cases [where b = b])
      (use False full stored in \<open>auto simp: pr_Write_def\<close>)
qed

lemma pr_read_check_cases:
  assumes "rw_inv (pr_rw p)"
  obtains (eof) "rw_contents (pr_rw p) = []" "pr_closed p"
      "pr_read_check p k = PRet p [] (Some EOF)"
  | (block) "rw_contents (pr_rw p) = []" "\<not> pr_closed p" "pr_read_check p k = PBlock"
  | (bytes) rw where "rw_contents (pr_rw p) \<noteq> []"
      "pr_read_check p k = PRet (p\<lparr>pr_rw := rw\<rparr>) (take k (rw_contents (pr_rw p))) None"
      "rw_inv rw" "rw_contents rw = drop k (rw_contents (pr_rw p))"
      "rw_capacity rw = rw_capacity (pr_rw p)"
proof (cases "rw_contents (pr_rw p) = []")
  case True
  then have "rw_Len (pr_rw p) = 0" by (simp add: rw_Len_def rw_contents_empty_iff)
  with True eof block show thesis by (cases "pr_closed p") (simp_all add: pr_read_check_def)
next
  case False
  then have "rw_Len (pr_rw p) \<noteq> 0" by (simp add: rw_Len_def rw_contents_empty_iff)
  with False ring.read_some [OF assms False, of k] bytes show thesis
    by (auto simp: pr_read_check_def)
qed

lemma pipe_step_inv: "pipe_step s t \<Longrightarrow> pipe_inv n s \<Longrightarrow> pipe_inv n t"
proof (induction rule: pipe_step.induct)
  case (p_write s b p m e bc)
  then have "rw_inv (pr_rw (ps_pipe s))" by (simp add: pipe_inv_def)
  then show ?case
    by (cases rule: pr_Write_cases [where b = b])
      (use p_write in \<open>auto simp: pipe_inv_def ps_broadcast_def\<close>)
next
  case (p_read s k p out e)
  then have "rw_inv (pr_rw (ps_pipe s))" by (simp add: pipe_inv_def)
  then show ?case
    by (cases rule: pr_read_check_cases [where k = k])
      (use p_read in \<open>auto simp: pipe_inv_def pr_Read_def split: if_splits\<close>)
next
  case (p_read_wait s k)
  then have "rw_inv (pr_rw (ps_pipe s))" by (simp add: pipe_inv_def)
  then show ?case
    by (cases rule: pr_read_check_cases [where k = k])
      (use p_read_wait in \<open>auto simp: pipe_inv_def pr_Read_def split: if_splits\<close>)
next
  case (p_wake s us k vs q p out e)
  then have "rw_inv (pr_rw q)" by (simp add: pipe_inv_def)
  then show ?case
    by (cases rule: pr_read_check_cases [where k = k])
      (use p_wake in \<open>auto simp: pipe_inv_def\<close>)
next
  case (p_wake_wait s us k vs q)
  then have "rw_inv (pr_rw q)" by (simp add: pipe_inv_def)
  then show ?case
    by (cases rule: pr_read_check_cases [where k = k])
      (use p_wake_wait in \<open>auto simp: pipe_inv_def\<close>)
qed (auto simp: pipe_inv_def ps_broadcast_def)

lemma pipe_reachable_inv: "pipe_reachable n s \<Longrightarrow> pipe_inv n s"
proof (induction rule: pipe_reachable.induct)
  case pr_start
  show ?case by (simp add: pipe_inv_def pipe_start_def NewPipeReader_def rw_new rw_capacity_new)
qed (blast intro: pipe_step_inv)

section \<open>Properties\<close>

text \<open>
  C18: no wakeup is lost.  Whatever the interleaving of writers, readers and closers, a reader
  that sleeps in the notify list has nothing to read, and when the pipe is already closed
  then a \<open>Close\<close> that will still broadcast is on its way.
\<close>

theorem pipe_no_lost_wakeup:
  assumes "pipe_reachable n s" and "ps_waiting s \<noteq> []"
  shows "rw_contents (pr_rw (ps_pipe s)) = []
    \<and> (pr_closed (ps_pipe s) \<longrightarrow> ps_closing s \<noteq> 0)"
  using pipe_reachable_inv [OF assms(1)] assms(2) by (simp add: pipe_inv_def)

text \<open>
  One reader goes to sleep on a fresh pipe of eight bytes, and a closer sets the flag, takes
  the mutex and broadcasts.
\<close>

lemma pipe_start_reads_empty: "0 < k \<Longrightarrow> pr_Read (ps_pipe (pipe_start n)) k = PBlock"
  by (simp add: pr_Read_def pr_read_check_def pipe_start_def NewPipeReader_def NewReadWriter_def
      rw_Len_def)

definition pipe_sleeping :: pipe_sys where
  "pipe_sleeping = (pipe_start 8)\<lparr>ps_pipe := (NewPipeReader 8)\<lparr>pr_wait := 1\<rparr>, ps_waiting := [4]\<rparr>"

definition pipe_released :: pipe_sys where
  "pipe_released = pipe_sleeping\<lparr>ps_pipe := (NewPipeReader 8)\<lparr>pr_wait := 1, pr_closed := True\<rparr>,
     ps_waiting := [], ps_woken := [4]\<rparr>"

lemma pipe_sleeping_reachable: "pipe_reachable 8 pipe_sleeping"
proof -
  have "pipe_step (pipe_start 8) pipe_sleeping"
    using p_read_wait [OF pipe_start_reads_empty [of 4 8]]
    by (simp add: pipe_sleeping_def pipe_start_def NewPipeReader_def)
  with pr_start [of 8] show ?thesis by (rule pr_step)
qed

lemma pipe_released_reachable: "pipe_reachable 8 pipe_released"
proof -
  let ?flag = "pipe_sleeping\<lparr>ps_pipe := (ps_pipe pipe_sleeping)\<lparr>pr_closed := True\<rparr>,
    ps_closing := Suc (ps_closing pipe_sleeping)\<rparr>"
  have "pipe_step pipe_sleeping ?flag"
    by (rule p_close_flag) (simp add: pipe_sleeping_def NewPipeReader_def)
  with pipe_sleeping_reachable have "pipe_reachable 8 ?flag" by (rule pr_step)
  moreover have "pipe_step ?flag pipe_released"
    using p_close_lock [of ?flag 0]
    by (simp add: pipe_sleeping_def pipe_released_def pipe_start_def NewPipeReader_def ps_broadcast_def)
  ultimately show ?thesis by (rule pr_step)
qed

theorem pipe_no_lost_wakeup_witness:
  "pipe_reachable 8 pipe_sleeping \<and> ps_waiting pipe_sleeping = [4]
   \<and> rw_contents (pr_rw (ps_pipe pipe_sleeping)) = []"
proof -
  have w: "ps_waiting pipe_sleeping = [4]" by (simp add: pipe_sleeping_def)
  then show ?thesis
    using pipe_no_lost_wakeup [OF pipe_sleeping_reachable] pipe_sleeping_reachable by simp
qed



text \<open>
  The pipe is a byte stream of bounded memory: in every reachable state the bytes accepted
  are the bytes returned to readers followed by the bytes still held, which never exceed the
  window the pipe was made with.
\<close>

theorem pipe_stream:
  assumes "pipe_reachable n s"
  shows "ps_in s = ps_out s @ rw_contents (pr_rw (ps_pipe s))
    \<and> length (rw_contents (pr_rw (ps_pipe s))) \<le> n"
proof -
  have inv: "pipe_inv n s" using assms by (rule pipe_reachable_inv)
  then have "rw_inv (pr_rw (ps_pipe s))" by (simp add: pipe_inv_def)
  from ring.bounded [OF this] inv show ?thesis by (simp add: pipe_inv_def)
qed

theorem pipe_stream_witness:
  "ps_in pipe_released = ps_out pipe_released @ rw_contents (pr_rw (ps_pipe pipe_released))"
  using pipe_stream [OF pipe_released_reachable] by simp

end
