(* ===== verification/ByteOrder.thy ===== *)
theory ByteOrder
  imports Prelude
begin

text \<open>
  \<open>core.ByteOrder\<close>, the big-endian byte order that every number of the protocol is
  written in.  The three widths the code uses are one interface, the locale
  \<open>fixed_codec\<close>: a writer of a fixed number of bytes and a reader of a prefix that undo
  each other.  The frames of the other theories are encoded and decoded through its facts.
\<close>

section \<open>Digits to base 256\<close>

fun be_enc :: "nat \<Rightarrow> nat \<Rightarrow> bytes" where
  "be_enc 0 x = []"
| "be_enc (Suc n) x = be_enc n (x div 256) @ [of_nat x]"

definition be_dec :: "bytes \<Rightarrow> nat" where
  "be_dec b = foldl (\<lambda>a d. a * 256 + unat d) 0 b"

lemma length_be_enc [simp]: "length (be_enc n x) = n"
  by (induction n x rule: be_enc.induct) auto

lemma be_dec_snoc [simp]: "be_dec (b @ [d]) = be_dec b * 256 + unat d"
  by (simp add: be_dec_def)

lemma be_dec_Nil [simp]: "be_dec [] = 0"
  by (simp add: be_dec_def)

lemma be_dec_be_enc: "be_dec (be_enc n x) = x mod 256 ^ n"
proof (induction n x rule: be_enc.induct)
  case (2 n x)
  then show ?case
    by (simp add: unat_of_nat mod_mult2_eq mult.commute)
qed simp

lemma be_dec_bound: "be_dec b < 256 ^ length b"
proof (induction b rule: rev_induct)
  case (snoc d b)
  have "unat d < 256" by simp
  then have "be_dec b * 256 + unat d < (be_dec b + 1) * 256" by simp
  also have "\<dots> \<le> 256 ^ length b * 256"
    using snoc by (intro mult_le_mono1) simp
  finally show ?case by (simp add: mult.commute)
qed simp

lemma be_enc_be_dec: "be_enc (length b) (be_dec b) = b"
proof (induction b rule: rev_induct)
  case (snoc d b)
  have "(be_dec b * 256 + unat d) div 256 = be_dec b" by simp
  moreover have "(of_nat (be_dec b * 256 + unat d) :: byte) = d"
  proof -
    have "(of_nat (be_dec b * 256 + unat d) :: byte) = of_nat (be_dec b) * 256 + d"
      by simp
    also have "(256 :: byte) = 0" by simp
    finally show ?thesis by simp
  qed
  ultimately show ?case using snoc by simp
qed simp

section \<open>The interface of a fixed-width field\<close>

locale fixed_codec =
  fixes put :: "'w \<Rightarrow> bytes"
    and get :: "bytes \<Rightarrow> 'w"
    and width :: nat
  assumes length_put: "length (put v) = width"
    and get_put: "get (put v @ rest) = v"
    and put_get: "length b = width \<Longrightarrow> put (get b) = b"
begin

lemma put_inj: "put v = put w \<longleftrightarrow> v = w"
  by (metis get_put)

lemma put_append_inj: "put v @ xs = put w @ ys \<longleftrightarrow> v = w \<and> xs = ys"
  by (metis append_eq_append_conv length_put put_inj)

lemma get_exact: "get (put v) = v"
  using get_put [of v "[]"] by simp

lemma drop_put: "drop width (put v @ rest) = rest"
  by (simp add: length_put)

lemma take_put: "take width (put v @ rest) = put v"
  by (simp add: length_put)

lemma ReadFull_put: "ReadFull width (put v @ rest) = (put v, None, rest)"
  by (simp add: length_put)

end

section \<open>The widths the protocol uses\<close>

text \<open>
  \<open>PutUint16\<close> and its siblings fill the first bytes of a slice and \<open>Uint16\<close> reads them;
  the slices' bounds are checked where the code takes them.
\<close>

definition PutUint16 :: "16 word \<Rightarrow> bytes" where
  "PutUint16 v = be_enc 2 (unat v)"

definition Uint16 :: "bytes \<Rightarrow> 16 word" where
  "Uint16 b = of_nat (be_dec (take 2 b))"

definition PutUint32 :: "32 word \<Rightarrow> bytes" where
  "PutUint32 v = be_enc 4 (unat v)"

definition Uint32 :: "bytes \<Rightarrow> 32 word" where
  "Uint32 b = of_nat (be_dec (take 4 b))"

definition PutUint64 :: "64 word \<Rightarrow> bytes" where
  "PutUint64 v = be_enc 8 (unat v)"

definition Uint64 :: "bytes \<Rightarrow> 64 word" where
  "Uint64 b = of_nat (be_dec (take 8 b))"

lemma be_dec_be_enc_small: "x < 256 ^ n \<Longrightarrow> be_dec (be_enc n x) = x"
  by (simp add: be_dec_be_enc)

interpretation u16: fixed_codec PutUint16 Uint16 2
proof
  fix v :: "16 word" and rest b :: bytes
  show "length (PutUint16 v) = 2" by (simp add: PutUint16_def)
  have "unat v < 256 ^ 2" using unsigned_less [of v, where ?'a = nat] by simp
  then show "Uint16 (PutUint16 v @ rest) = v"
    by (simp add: PutUint16_def Uint16_def be_dec_be_enc_small)
  assume b: "length b = 2"
  then have "unat (Uint16 b) = be_dec b"
    using be_dec_bound [of b] by (simp add: Uint16_def unat_of_nat_le)
  then show "PutUint16 (Uint16 b) = b"
    using be_enc_be_dec [of b] b by (simp add: PutUint16_def)
qed

interpretation u32: fixed_codec PutUint32 Uint32 4
proof
  fix v :: "32 word" and rest b :: bytes
  show "length (PutUint32 v) = 4" by (simp add: PutUint32_def)
  have "unat v < 256 ^ 4" using unsigned_less [of v, where ?'a = nat] by simp
  then show "Uint32 (PutUint32 v @ rest) = v"
    by (simp add: PutUint32_def Uint32_def be_dec_be_enc_small)
  assume b: "length b = 4"
  then have "unat (Uint32 b) = be_dec b"
    using be_dec_bound [of b] by (simp add: Uint32_def unat_of_nat_le)
  then show "PutUint32 (Uint32 b) = b"
    using be_enc_be_dec [of b] b by (simp add: PutUint32_def)
qed

interpretation u64: fixed_codec PutUint64 Uint64 8
proof
  fix v :: "64 word" and rest b :: bytes
  show "length (PutUint64 v) = 8" by (simp add: PutUint64_def)
  have "unat v < 256 ^ 8" using unsigned_less [of v, where ?'a = nat] by simp
  then show "Uint64 (PutUint64 v @ rest) = v"
    by (simp add: PutUint64_def Uint64_def be_dec_be_enc_small)
  assume b: "length b = 8"
  then have "unat (Uint64 b) = be_dec b"
    using be_dec_bound [of b] by (simp add: Uint64_def unat_of_nat_le)
  then show "PutUint64 (Uint64 b) = b"
    using be_enc_be_dec [of b] b by (simp add: PutUint64_def)
qed

lemmas put_lengths [simp] = u16.length_put u32.length_put u64.length_put
lemmas get_puts [simp, codec_simps] = u16.get_put u32.get_put u64.get_put
  u16.get_exact u32.get_exact u64.get_exact

text \<open>The bytes the library writes, most significant first.\<close>

lemma PutUint16_bytes: "PutUint16 v = [of_nat (unat v div 256), of_nat (unat v)]"
  by (simp add: PutUint16_def numeral_2_eq_2)

lemma PutUint16_less_256: "unat v < 256 \<Longrightarrow> PutUint16 v = [0, of_nat (unat v)]"
  by (simp add: PutUint16_bytes)

end
