(* ===== verification/Protocol.thy ===== *)
theory Protocol
  imports ByteOrder
begin

text \<open>
  \<open>core/protocol.go\<close>, \<open>core/version.go\<close> and the code table of \<open>core/hello.go\<close>: the
  flag, the commands, the hello codes and their texts, and the layout of every frame
  that the transport writes.  A \<open>Command\<close> and a \<open>Hello\<close> are bytes in the source, so any
  byte can stand where one is expected.
\<close>

section \<open>Constants\<close>

definition Flag :: string where
  "Flag = ''httpadapter''"

definition ProtocolVersion :: string where
  "ProtocolVersion = ''1.0''"

type_synonym command = byte

abbreviation (input) CommandPing :: command where "CommandPing \<equiv> 1"
abbreviation (input) CommandPong :: command where "CommandPong \<equiv> 2"
abbreviation (input) CommandCreate :: command where "CommandCreate \<equiv> 3"
abbreviation (input) CommandClose :: command where "CommandClose \<equiv> 4"
abbreviation (input) CommandWrite :: command where "CommandWrite \<equiv> 5"
abbreviation (input) CommandConfirm :: command where "CommandConfirm \<equiv> 6"

type_synonym hello_code = byte

abbreviation (input) HelloOk :: hello_code where "HelloOk \<equiv> 0"
abbreviation (input) HelloInvalidProtocol :: hello_code where "HelloInvalidProtocol \<equiv> 1"
abbreviation (input) HelloInvalidVersion :: hello_code where "HelloInvalidVersion \<equiv> 2"
abbreviation (input) HelloBusy :: hello_code where "HelloBusy \<equiv> 3"
abbreviation (input) HelloServerError :: hello_code where "HelloServerError \<equiv> 4"
abbreviation (input) HelloInvalidWindow :: hello_code where "HelloInvalidWindow \<equiv> 5"

abbreviation (input) MaxUint16 :: nat where "MaxUint16 \<equiv> 65535"

lemma length_Flag [simp]: "length Flag = 11"
  by (simp add: Flag_def)

lemma length_ProtocolVersion [simp]: "length ProtocolVersion = 3"
  by (simp add: ProtocolVersion_def)

lemma ProtocolVersion_nonempty [simp]: "ProtocolVersion \<noteq> []"
  by (simp add: ProtocolVersion_def)

lemma ProtocolVersion_no_comma [simp]: "CHR '','' \<notin> set ProtocolVersion"
  by (simp add: ProtocolVersion_def)

section \<open>Texts\<close>

text \<open>\<open>strconv.Itoa\<close> on a value that is not negative.\<close>

fun Itoa :: "nat \<Rightarrow> string" where
  "Itoa n = (if n < 10 then [char_of (48 + n)] else Itoa (n div 10) @ [char_of (48 + n mod 10)])"

declare Itoa.simps [simp del]

definition Hello_String :: "hello_code \<Rightarrow> string" where
  "Hello_String h =
     (if h = HelloOk then ''Ok''
      else if h = HelloInvalidProtocol then ''Invalid Protocol''
      else if h = HelloInvalidVersion then ''Invalid Version''
      else if h = HelloBusy then ''Server Busy''
      else if h = HelloServerError then ''Server Error''
      else if h = HelloInvalidWindow then ''Invalid Window''
      else ''Unknow('' @ Itoa (unat h) @ '')'')"

definition Command_String :: "command \<Rightarrow> string" where
  "Command_String c =
     (if c = CommandPing then ''Ping''
      else if c = CommandPong then ''Pong''
      else if c = CommandCreate then ''Create''
      else if c = CommandClose then ''Close''
      else if c = CommandWrite then ''Write''
      else if c = CommandConfirm then ''Confirm''
      else ''Unknow Command('' @ Itoa (unat c) @ '')'')"

lemma char_of_digit_inj:
  "(a::nat) < 10 \<Longrightarrow> b < 10 \<Longrightarrow> char_of (48 + a) = (char_of (48 + b) :: char) \<Longrightarrow> a = b"
proof -
  assume "a < 10" "b < 10" and eq: "char_of (48 + a) = (char_of (48 + b) :: char)"
  from eq have "(of_char (char_of (48 + a)) :: nat) = of_char (char_of (48 + b))" by simp
  then have "(48 + a) mod 256 = (48 + b) mod (256::nat)" by (simp only: of_char_of)
  with \<open>a < 10\<close> \<open>b < 10\<close> show "a = b" by simp
qed

lemma Itoa_small: "n < 10 \<Longrightarrow> Itoa n = [char_of (48 + n)]"
  by (subst Itoa.simps) simp

lemma Itoa_large: "\<not> n < 10 \<Longrightarrow> Itoa n = Itoa (n div 10) @ [char_of (48 + n mod 10)]"
  by (subst Itoa.simps) simp

lemma Itoa_nonempty [simp]: "Itoa n \<noteq> []"
  by (subst Itoa.simps) simp

lemma Itoa_inj: "Itoa m = Itoa n \<Longrightarrow> m = n"
proof (induction m arbitrary: n rule: Itoa.induct)
  case (1 m)
  consider "m < 10" "n < 10" | "m < 10" "\<not> n < 10" | "\<not> m < 10" "n < 10" | "\<not> m < 10" "\<not> n < 10"
    by blast
  then show ?case
  proof cases
    case 1
    with "1.prems" show ?thesis by (simp add: Itoa_small char_of_digit_inj)
  next
    case 2
    with "1.prems" [symmetric] show ?thesis by (simp add: Itoa_small Itoa_large [of n])
  next
    case 3
    with "1.prems" show ?thesis by (simp add: Itoa_small Itoa_large [of m])
  next
    case 4
    with "1.prems" have "Itoa (m div 10) = Itoa (n div 10)"
      and d: "char_of (48 + m mod 10) = (char_of (48 + n mod 10) :: char)"
      by (simp_all add: Itoa_large [of m] Itoa_large [of n])
    then have "m div 10 = n div 10" using "1.IH" 4 by blast
    moreover have "m mod 10 = n mod 10"
      by (rule char_of_digit_inj [OF _ _ d]) simp_all
    ultimately show ?thesis by (metis div_mult_mod_eq)
  qed
qed

lemma Itoa_length: "length (Itoa n) \<le> Suc (n div 10)"
proof (induction n rule: Itoa.induct)
  case (1 n)
  show ?case
  proof (cases "n < 10")
    case False
    with "1.IH" show ?thesis by (simp add: Itoa_large)
  qed (simp add: Itoa_small)
qed

lemma Hello_String_nonempty: "Hello_String h \<noteq> []"
  by (simp add: Hello_String_def)

lemma Hello_String_length: "length (Hello_String h) \<le> 34"
proof -
  have "unat h div 10 \<le> 25"
    using unat_byte_less [of h] by linarith
  then have "length (Itoa (unat h)) \<le> 26"
    using Itoa_length [of "unat h"] by linarith
  then show ?thesis by (simp add: Hello_String_def)
qed

section \<open>Frames\<close>

text \<open>
  One definition per place that writes a frame: the data frame of \<open>ioChannel.Serve\<close>, the
  confirmation of \<open>serveConfirm\<close>, the close of \<open>sendClose\<close>, the request of
  \<open>clientTransport.Create\<close> and the server's answer to it.
\<close>

definition write_frame :: "64 word \<Rightarrow> bytes \<Rightarrow> bytes" where
  "write_frame cid b = [CommandWrite] @ PutUint64 cid @ PutUint16 (of_nat (length b)) @ b"

definition confirm_frame :: "64 word \<Rightarrow> 16 word \<Rightarrow> bytes" where
  "confirm_frame cid ok = [CommandConfirm] @ PutUint64 cid @ PutUint16 ok"

definition close_frame :: "64 word \<Rightarrow> bytes" where
  "close_frame cid = [CommandClose] @ PutUint64 cid"

definition create_request :: "64 word \<Rightarrow> bytes" where
  "create_request cid = [CommandCreate] @ PutUint64 cid"

definition create_reply :: "64 word \<Rightarrow> byte \<Rightarrow> bytes" where
  "create_reply cid code = [CommandCreate] @ PutUint64 cid @ [code]"

lemma length_frames [simp, frame_simps]:
  "length (write_frame cid b) = 11 + length b"
  "length (confirm_frame cid ok) = 11"
  "length (close_frame cid) = 9"
  "length (create_request cid) = 9"
  "length (create_reply cid code) = 10"
  by (simp_all add: write_frame_def confirm_frame_def close_frame_def create_request_def
      create_reply_def)

lemma frame_command [simp, frame_simps]:
  "hd (write_frame cid b) = CommandWrite"
  "hd (confirm_frame cid ok) = CommandConfirm"
  "hd (close_frame cid) = CommandClose"
  "hd (create_request cid) = CommandCreate"
  "hd (create_reply cid code) = CommandCreate"
  by (simp_all add: write_frame_def confirm_frame_def close_frame_def create_request_def
      create_reply_def)

end
