(* ===== verification/Channel.thy ===== *)
theory Channel
  imports PipeReader Protocol
begin

text \<open>
  \<open>channel.go\<close>: the channel that both ends of a connection give to their users.  Its fields
  are a record; its methods are functions of it.  The two goroutines that every channel runs,
  \<open>Serve\<close> and \<open>serveConfirm\<close>, are step relations over their local variables, one rule per
  branch of a \<open>select\<close> and per pass of a loop, with the frame they write as the label.  The
  Go channel \<open>confirm\<close> of capacity one is an option, \<open>sendConfirm\<close> a list of at most ten.
\<close>

section \<open>Fields and small methods\<close>

text \<open>Points in time, with 0 for the zero value of \<open>time.Time\<close>, which lies before all others.\<close>

type_synonym time = int

record io_channel =
  c_id :: "64 word"
  c_closed :: bool
  c_ctx_done :: bool
  c_pipe :: pipe
  c_remoteWindow :: "64 word"
  c_confirm :: "64 word option"
  c_sendConfirm :: "nat list"
  c_deadline :: "time option"
  c_readDeadline :: "time option"
  c_writeDeadline :: "time option"

definition newIOChannel :: "64 word \<Rightarrow> nat \<Rightarrow> nat \<Rightarrow> io_channel" where
  "newIOChannel cid window remoteWindow =
     \<lparr>c_id = cid, c_closed = False, c_ctx_done = False, c_pipe = NewPipeReader window,
      c_remoteWindow = of_nat remoteWindow, c_confirm = None, c_sendConfirm = [],
      c_deadline = None, c_readDeadline = None, c_writeDeadline = None\<rparr>"

definition ch_Close :: "io_channel \<Rightarrow> io_channel \<times> gerr option" where
  "ch_Close c =
     (if \<not> c_closed c
      then (c\<lparr>c_closed := True, c_ctx_done := True, c_pipe := fst (pr_Close (c_pipe c))\<rparr>, None)
      else (c, Some ErrChannelClosed))"

definition SetDeadline :: "io_channel \<Rightarrow> time \<Rightarrow> io_channel \<times> gerr option" where
  "SetDeadline c t =
     (if \<not> c_closed c then (c\<lparr>c_deadline := Some t\<rparr>, None) else (c, Some ErrChannelClosed))"

definition SetReadDeadline :: "io_channel \<Rightarrow> time \<Rightarrow> io_channel \<times> gerr option" where
  "SetReadDeadline c t =
     (if \<not> c_closed c then (c\<lparr>c_readDeadline := Some t\<rparr>, None) else (c, Some ErrChannelClosed))"

definition SetWriteDeadline :: "io_channel \<Rightarrow> time \<Rightarrow> io_channel \<times> gerr option" where
  "SetWriteDeadline c t =
     (if \<not> c_closed c then (c\<lparr>c_writeDeadline := Some t\<rparr>, None) else (c, Some ErrChannelClosed))"

text \<open>
  \<open>Pipe\<close> stores what arrived for the channel; a refused write closes the channel.
\<close>

definition ch_Pipe :: "io_channel \<Rightarrow> bytes \<Rightarrow> io_channel" where
  "ch_Pipe c b =
     (case pr_Write (c_pipe c) b of
        (p, _, None, _) \<Rightarrow> c\<lparr>c_pipe := p\<rparr>
      | (p, _, Some _, _) \<Rightarrow> fst (ch_Close (c\<lparr>c_pipe := p\<rparr>)))"

section \<open>Write\<close>

text \<open>
  The deadline that \<open>Write\<close> computes from the two stored ones, and what it does with it: it
  fails at once, or it waits with or without a timer.
\<close>

definition effective_deadline :: "io_channel \<Rightarrow> time" where
  "effective_deadline c =
     (let deadline = (case c_deadline c of None \<Rightarrow> 0 | Some t \<Rightarrow> t)
      in case c_writeDeadline c of
           None \<Rightarrow> deadline
         | Some d \<Rightarrow> if d < deadline then d else deadline)"

datatype write_plan = WFail gerr | WWait "time option"

definition Write_begin :: "io_channel \<Rightarrow> time \<Rightarrow> write_plan" where
  "Write_begin c now =
     (let deadline = effective_deadline c in
      if deadline \<noteq> 0 then
        (if deadline > now then WWait (Some (deadline - now)) else WFail DeadlineExceeded)
      else WWait None)"

text \<open>
  The \<open>select\<close> of \<open>Write\<close>: which case fires, and the results; \<open>None\<close> for a case that the
  plan does not have.
\<close>

datatype write_event = EvTransportDone | EvCtxDone | EvTaken | EvTimer

fun Write_select :: "write_plan \<Rightarrow> write_event \<Rightarrow> nat \<Rightarrow> (nat \<times> gerr option) option" where
  "Write_select (WFail e) ev n = None"
| "Write_select (WWait t) EvTransportDone n = Some (0, Some ErrTCPClosed)"
| "Write_select (WWait t) EvCtxDone n = Some (0, Some ErrChannelClosed)"
| "Write_select (WWait t) EvTaken n = Some (n, None)"
| "Write_select (WWait None) EvTimer n = None"
| "Write_select (WWait (Some d)) EvTimer n = Some (0, Some DeadlineExceeded)"

section \<open>Confirm\<close>

text \<open>
  \<open>Confirm\<close> posts a confirmation to \<open>Serve\<close> through the channel of capacity one, adding it to
  one that is still there.  The result lists the outcomes that the \<open>select\<close> statements
  allow, each with the channel afterwards and the reported overflow; \<open>dn\<close> says whether
  the transport is closed.  When the slot is full the loop can only take the old value, so
  the slot is empty when it reports an overflow.
\<close>

definition Confirm :: "bool \<Rightarrow> io_channel \<Rightarrow> 64 word \<Rightarrow> (io_channel \<times> bool) list" where
  "Confirm dn c val =
     (let stop = (if dn \<or> c_ctx_done c then [(c, False)] else []);
          post = (case c_confirm c of
                    None \<Rightarrow> [(c\<lparr>c_confirm := Some val\<rparr>, False)]
                  | Some _ \<Rightarrow> [])
      in if stop @ post \<noteq> [] then stop @ post
         else
           case c_confirm c of
             None \<Rightarrow> []
           | Some old \<Rightarrow>
               let val = val + old in
               if val \<ge> c_remoteWindow c then [(c\<lparr>c_confirm := None\<rparr>, True)]
               else [(c\<lparr>c_confirm := Some val\<rparr>, False)])"

section \<open>Serve\<close>

datatype serve_pc = AtChoose | InSend | Exited

record serve_state =
  sv_pc :: serve_pc
  sv_b :: bytes
  sv_writed :: "64 word"

definition serve_start :: serve_state where
  "serve_start = \<lparr>sv_pc = AtChoose, sv_b = [], sv_writed = 0\<rparr>"

text \<open>What \<open>Serve\<close> does with the confirmation that \<open>choose\<close> returned.\<close>

definition serve_confirmed :: "serve_state \<Rightarrow> 64 word \<Rightarrow> serve_state" where
  "serve_confirmed st confirm =
     (if confirm > 0 then
        (if confirm > sv_writed st then st\<lparr>sv_pc := Exited\<rparr>
         else st\<lparr>sv_writed := sv_writed st - confirm, sv_pc := InSend\<rparr>)
      else st\<lparr>sv_pc := InSend\<rparr>)"

text \<open>
  The size of the next data frame, 0 when the inner loop ends.  A length is a \<open>nat\<close>: the
  length of a slice always fits in 64 bits.
\<close>

definition send_size :: "64 word \<Rightarrow> 64 word \<Rightarrow> bytes \<Rightarrow> nat" where
  "send_size remote writed b =
     (let sz = length b; available = unat (remote - writed) in
      if sz = 0 then 0
      else if available = 0 then 0
      else
        let sz = (if sz > available then available else sz) in
        if sz > MaxUint16 then MaxUint16 else sz)"

inductive serve_step ::
    "bool \<Rightarrow> io_channel \<times> serve_state \<Rightarrow> bytes option \<Rightarrow> bytes option
       \<Rightarrow> io_channel \<times> serve_state \<Rightarrow> bool"
    for dn where
  s_take: "sv_pc st = AtChoose \<Longrightarrow> sv_b st = [] \<Longrightarrow>
     serve_step dn (c, st) (Some data) None (c, st\<lparr>sv_b := data, sv_pc := InSend\<rparr>)"
| s_confirm: "sv_pc st = AtChoose \<Longrightarrow> c_confirm c = Some v \<Longrightarrow>
     serve_step dn (c, st) None None (c\<lparr>c_confirm := None\<rparr>, serve_confirmed st v)"
| s_poll: "sv_pc st = AtChoose \<Longrightarrow> sv_b st \<noteq> [] \<Longrightarrow>
     c_remoteWindow c - sv_writed st \<noteq> 0 \<Longrightarrow> c_confirm c = None \<Longrightarrow>
     \<not> dn \<Longrightarrow> \<not> c_ctx_done c \<Longrightarrow>
     serve_step dn (c, st) None None (c, st\<lparr>sv_pc := InSend\<rparr>)"
| s_frame: "sv_pc st = InSend \<Longrightarrow> n = send_size (c_remoteWindow c) (sv_writed st) (sv_b st) \<Longrightarrow>
     n \<noteq> 0 \<Longrightarrow>
     serve_step dn (c, st) None (Some (write_frame (c_id c) (take n (sv_b st))))
       (c, st\<lparr>sv_writed := sv_writed st + of_nat n, sv_b := drop n (sv_b st)\<rparr>)"
| s_again: "sv_pc st = InSend \<Longrightarrow> send_size (c_remoteWindow c) (sv_writed st) (sv_b st) = 0 \<Longrightarrow>
     serve_step dn (c, st) None None (c, st\<lparr>sv_pc := AtChoose\<rparr>)"
| s_stop_choose: "sv_pc st = AtChoose \<Longrightarrow> dn \<or> c_ctx_done c \<Longrightarrow>
     serve_step dn (c, st) None None (c, st\<lparr>sv_pc := Exited\<rparr>)"
| s_stop_send: "sv_pc st = InSend \<Longrightarrow> send_size (c_remoteWindow c) (sv_writed st) (sv_b st) \<noteq> 0 \<Longrightarrow>
     dn \<or> c_ctx_done c \<Longrightarrow>
     serve_step dn (c, st) None None (c, st\<lparr>sv_pc := Exited\<rparr>)"

section \<open>serveConfirm\<close>

datatype ack_pc = AckWait | AckBatch | AckSend | AckExited

record ack_state =
  ak_pc :: ack_pc
  ak_confirmed :: "64 word"

definition ack_start :: ack_state where
  "ack_start = \<lparr>ak_pc = AckWait, ak_confirmed = 0\<rparr>"

definition ack_window :: "io_channel \<Rightarrow> 64 word" where
  "ack_window c = c_remoteWindow c div 3"

definition ack_size :: "64 word \<Rightarrow> 64 word" where
  "ack_size confirmed = (if confirmed > 65535 then 65535 else confirmed)"

inductive ack_step ::
    "bool \<Rightarrow> io_channel \<times> ack_state \<Rightarrow> bytes option \<Rightarrow> io_channel \<times> ack_state \<Rightarrow> bool"
    for dn where
  a_recv: "ak_pc st = AckWait \<Longrightarrow> c_sendConfirm c = v # vs \<Longrightarrow>
     ack_step dn (c, st) None
       (c\<lparr>c_sendConfirm := vs\<rparr>, st\<lparr>ak_confirmed := of_nat v, ak_pc := AckBatch\<rparr>)"
| a_more: "ak_pc st = AckBatch \<Longrightarrow> ak_confirmed st < ack_window c \<Longrightarrow>
     c_sendConfirm c = v # vs \<Longrightarrow>
     ack_step dn (c, st) None
       (c\<lparr>c_sendConfirm := vs\<rparr>, st\<lparr>ak_confirmed := ak_confirmed st + of_nat v\<rparr>)"
| a_batched: "ak_pc st = AckBatch \<Longrightarrow>
     \<not> ak_confirmed st < ack_window c
       \<or> c_sendConfirm c = [] \<and> \<not> dn \<and> \<not> c_ctx_done c \<Longrightarrow>
     ack_step dn (c, st) None (c, st\<lparr>ak_pc := AckSend\<rparr>)"
| a_frame: "ak_pc st = AckSend \<Longrightarrow> ak_confirmed st \<noteq> 0 \<Longrightarrow> ok = ack_size (ak_confirmed st) \<Longrightarrow>
     ack_step dn (c, st) (Some (confirm_frame (c_id c) (ucast ok)))
       (c, st\<lparr>ak_confirmed := ak_confirmed st - ok\<rparr>)"
| a_loop: "ak_pc st = AckSend \<Longrightarrow> ak_confirmed st = 0 \<Longrightarrow>
     ack_step dn (c, st) None (c, st\<lparr>ak_pc := AckWait\<rparr>)"
| a_stop: "dn \<or> c_ctx_done c \<Longrightarrow> ak_pc st = AckWait
       \<or> ak_pc st = AckBatch \<and> ak_confirmed st < ack_window c
       \<or> ak_pc st = AckSend \<and> ak_confirmed st \<noteq> 0 \<Longrightarrow>
     ack_step dn (c, st) None (c, st\<lparr>ak_pc := AckExited\<rparr>)"

section \<open>Read\<close>

text \<open>
  \<open>Read\<close> takes bytes from the pipe and then hands their number to \<open>serveConfirm\<close>; while the
  ten places of that channel are taken it waits.  The first part returns the bytes, the
  error and the number still to hand over; the second is \<open>ch_post_confirm\<close>.
\<close>

definition ch_Read :: "io_channel \<Rightarrow> nat \<Rightarrow> (io_channel \<times> bytes \<times> gerr option) option" where
  "ch_Read c k =
     (case pr_Read (c_pipe c) k of
        PRet p out e \<Rightarrow> Some (c\<lparr>c_pipe := p\<rparr>, out, e)
      | PBlock \<Rightarrow> None
      | PDiverge \<Rightarrow> None)"

definition ch_post_confirm :: "io_channel \<Rightarrow> nat \<Rightarrow> io_channel option" where
  "ch_post_confirm c n =
     (if length (c_sendConfirm c) < 10 then Some (c\<lparr>c_sendConfirm := c_sendConfirm c @ [n]\<rparr>)
      else None)"

section \<open>Facts about the steps\<close>

lemma send_size_bounds:
  "send_size r w b \<le> length b" "send_size r w b \<le> unat (r - w)" "send_size r w b \<le> MaxUint16"
  by (auto simp: send_size_def Let_def)

lemma send_size_zero_iff: "send_size r w b = 0 \<longleftrightarrow> b = [] \<or> r = w"
proof -
  have "unat (r - w) = 0 \<longleftrightarrow> r = w" by (simp add: unsigned_eq_0_iff)
  then show ?thesis by (auto simp: send_size_def Let_def)
qed

lemma ack_size_bounds: "ack_size n \<le> n" "unat (ack_size n) \<le> MaxUint16"
  by (auto simp: ack_size_def word_le_nat_alt word_less_nat_alt)

lemma ack_size_nonzero: "n \<noteq> 0 \<Longrightarrow> ack_size n \<noteq> 0"
  by (auto simp: ack_size_def)

lemma unat_ucast_ack_size: "unat (ucast (ack_size n) :: 16 word) = unat (ack_size n)"
proof -
  have "unat (ack_size n) < 2 ^ 16" using ack_size_bounds(2) [of n] by simp
  then show ?thesis by (simp add: unsigned_ucast_eq take_bit_nat_eq_self)
qed

lemma Confirm_empty:
  "c_confirm c = None \<Longrightarrow> \<not> dn \<Longrightarrow> \<not> c_ctx_done c \<Longrightarrow>
    Confirm dn c v = [(c\<lparr>c_confirm := Some v\<rparr>, False)]"
  by (simp add: Confirm_def)

lemma Confirm_full:
  "c_confirm c = Some old \<Longrightarrow> \<not> dn \<Longrightarrow> \<not> c_ctx_done c \<Longrightarrow>
    Confirm dn c v =
      (if v + old \<ge> c_remoteWindow c then [(c\<lparr>c_confirm := None\<rparr>, True)]
       else [(c\<lparr>c_confirm := Some (v + old)\<rparr>, False)])"
  by (simp add: Confirm_def Let_def)

lemmas confirm_simps = Confirm_empty Confirm_full

text \<open>Inversion of the step relations, by what the step takes in and writes out.\<close>

inductive_cases serve_takeE: "serve_step dn (c, st) (Some data) None (c', st')"
inductive_cases serve_frameE: "serve_step dn (c, st) None (Some f) (c', st')"
inductive_cases serve_silentE: "serve_step dn (c, st) None None (c', st')"
inductive_cases ack_frameE: "ack_step dn (c, st) (Some f) (c', st')"
inductive_cases ack_silentE: "ack_step dn (c, st) None (c', st')"

section \<open>Write deadlines\<close>

text \<open>
  A write deadline works only next to a common one.  Set alone, it is lost: \<open>Write\<close>
  takes the earlier of the two, and the missing common deadline counts as the zero time, which is
  earlier than every real one, so the write waits without a timer.  With both set, a write
  gives up at the earlier.
\<close>

theorem write_deadline_alone_ignored:
  assumes "\<not> c_closed c" "0 < t"
  shows "(c_deadline c = None \<longrightarrow> Write_begin (fst (SetWriteDeadline c t)) now = WWait None)
    \<and> (\<forall>d > 0. c_deadline c = Some d \<longrightarrow>
        Write_begin (fst (SetWriteDeadline c t)) now =
          (if min t d > now then WWait (Some (min t d - now)) else WFail DeadlineExceeded))"
  using assms by (auto simp: Write_begin_def SetWriteDeadline_def effective_deadline_def min_def Let_def)

theorem write_deadline_alone_ignored_witness:
  "\<not> c_closed (newIOChannel 1 8 8)
   \<and> Write_begin (fst (SetWriteDeadline (newIOChannel 1 8 8) 50)) 100 = WWait None"
  using write_deadline_alone_ignored [of "newIOChannel 1 8 8" 50 100] by (simp add: newIOChannel_def)

end
