(* ===== verification/FlowControl.thy ===== *)
theory FlowControl
  imports Channel
begin

text \<open>
  One direction of a channel, end to end: the writers and \<open>Serve\<close> of the sending end, the
  data frames in transit, the pipe and the readers of the receiving end, its
  \<open>serveConfirm\<close>, and the confirmations on their way back to \<open>Confirm\<close>.  Both ends are
  open and the transport keeps the order of the frames.  The steps are those of the
  components; nothing else is assumed of the schedule.  The invariant is the conservation of
  credit: what the sender counts as written and not confirmed is exactly what is somewhere
  on this round trip.
\<close>

section \<open>The system\<close>

record flow =
  f_snd :: io_channel
  f_sv :: serve_state
  f_wire :: "bytes list"
  f_rcv :: io_channel
  f_pend :: "nat list"
  f_ak :: ack_state
  f_back :: "16 word list"
  f_written :: bytes
  f_delivered :: bytes
  f_overflow :: bool

text \<open>
  \<open>W\<close> is the window of the receiving end, which the sending end learnt in the handshake; the
  other two windows do not take part in this direction's data.
\<close>

definition flow_start :: "nat \<Rightarrow> nat \<Rightarrow> 64 word \<Rightarrow> flow" where
  "flow_start W V cid =
     \<lparr>f_snd = newIOChannel cid V W, f_sv = serve_start, f_wire = [],
      f_rcv = newIOChannel cid W V, f_pend = [], f_ak = ack_start, f_back = [],
      f_written = [], f_delivered = [], f_overflow = False\<rparr>"

inductive flow_step :: "flow \<Rightarrow> flow \<Rightarrow> bool" where
  fl_write: "\<not> f_overflow s \<Longrightarrow>
     serve_step False (f_snd s, f_sv s) (Some data) None (c, sv) \<Longrightarrow>
     flow_step s (s\<lparr>f_snd := c, f_sv := sv, f_written := f_written s @ data\<rparr>)"
| fl_serve: "\<not> f_overflow s \<Longrightarrow>
     serve_step False (f_snd s, f_sv s) None None (c, sv) \<Longrightarrow>
     flow_step s (s\<lparr>f_snd := c, f_sv := sv\<rparr>)"
| fl_frame: "\<not> f_overflow s \<Longrightarrow>
     serve_step False (f_snd s, f_sv s) None (Some (write_frame (c_id (f_snd s)) b)) (c, sv) \<Longrightarrow>
     flow_step s (s\<lparr>f_snd := c, f_sv := sv, f_wire := f_wire s @ [b]\<rparr>)"
| fl_deliver: "\<not> f_overflow s \<Longrightarrow> f_wire s = (b1 @ b2) # bs \<Longrightarrow> b1 \<noteq> [] \<Longrightarrow>
     flow_step s (s\<lparr>f_rcv := ch_Pipe (f_rcv s) b1,
       f_wire := (if b2 = [] then bs else b2 # bs)\<rparr>)"
| fl_read: "\<not> f_overflow s \<Longrightarrow> ch_Read (f_rcv s) k = Some (c, out, e) \<Longrightarrow>
     flow_step s (s\<lparr>f_rcv := c, f_delivered := f_delivered s @ out,
       f_pend := (if length out \<noteq> 0 then f_pend s @ [length out] else f_pend s)\<rparr>)"
| fl_post: "\<not> f_overflow s \<Longrightarrow> f_pend s = us @ n # vs \<Longrightarrow>
     ch_post_confirm (f_rcv s) n = Some c \<Longrightarrow>
     flow_step s (s\<lparr>f_rcv := c, f_pend := us @ vs\<rparr>)"
| fl_ack: "\<not> f_overflow s \<Longrightarrow> ack_step False (f_rcv s, f_ak s) None (c, ak) \<Longrightarrow>
     flow_step s (s\<lparr>f_rcv := c, f_ak := ak\<rparr>)"
| fl_ack_frame: "\<not> f_overflow s \<Longrightarrow>
     ack_step False (f_rcv s, f_ak s) (Some (confirm_frame (c_id (f_rcv s)) ok)) (c, ak) \<Longrightarrow>
     flow_step s (s\<lparr>f_rcv := c, f_ak := ak, f_back := f_back s @ [ok]\<rparr>)"
| fl_confirm: "\<not> f_overflow s \<Longrightarrow> f_back s = ok # oks \<Longrightarrow>
     (c, ovf) \<in> set (Confirm False (f_snd s) (ucast ok)) \<Longrightarrow>
     flow_step s (s\<lparr>f_snd := c, f_back := oks, f_overflow := ovf\<rparr>)"

inductive flow_reachable :: "nat \<Rightarrow> nat \<Rightarrow> 64 word \<Rightarrow> flow \<Rightarrow> bool" for W V cid where
  flr_start: "flow_reachable W V cid (flow_start W V cid)"
| flr_step: "flow_reachable W V cid s \<Longrightarrow> flow_step s t \<Longrightarrow> flow_reachable W V cid t"

section \<open>The invariant\<close>

definition slot_credit :: "64 word option \<Rightarrow> nat" where
  "slot_credit v = (case v of None \<Rightarrow> 0 | Some v \<Rightarrow> unat v)"

lemma slot_credit_simps [simp]: "slot_credit None = 0" "slot_credit (Some v) = unat v"
  by (simp_all add: slot_credit_def)

text \<open>Everything the sender has written and not yet seen confirmed.\<close>

definition round_trip :: "flow \<Rightarrow> nat" where
  "round_trip s =
     sum_list (map length (f_wire s)) + rw_size (pr_rw (c_pipe (f_rcv s)))
     + sum_list (f_pend s) + sum_list (c_sendConfirm (f_rcv s)) + unat (ak_confirmed (f_ak s))
     + sum_list (map unat (f_back s)) + slot_credit (c_confirm (f_snd s))"

abbreviation flow_held :: "flow \<Rightarrow> bytes" where
  "flow_held s \<equiv> rw_contents (pr_rw (c_pipe (f_rcv s)))"

definition flow_open :: "io_channel \<Rightarrow> bool" where
  "flow_open c \<longleftrightarrow> \<not> c_closed c \<and> \<not> c_ctx_done c"

definition flow_inv :: "nat \<Rightarrow> flow \<Rightarrow> bool" where
  "flow_inv W s \<longleftrightarrow>
     flow_open (f_snd s) \<and> flow_open (f_rcv s) \<and> \<not> pr_closed (c_pipe (f_rcv s))
     \<and> c_remoteWindow (f_snd s) = of_nat W
     \<and> rw_inv (pr_rw (c_pipe (f_rcv s))) \<and> rw_capacity (pr_rw (c_pipe (f_rcv s))) = W
     \<and> unat (sv_writed (f_sv s)) \<le> W
     \<and> sv_pc (f_sv s) \<noteq> Exited \<and> ak_pc (f_ak s) \<noteq> AckExited
     \<and> (ak_pc (f_ak s) = AckWait \<longrightarrow> ak_confirmed (f_ak s) = 0)
     \<and> f_written s = f_delivered s @ flow_held s @ concat (f_wire s) @ sv_b (f_sv s)
     \<and> (\<forall>b \<in> set (f_wire s). b \<noteq> [])
     \<and> (if f_overflow s then round_trip s = 0 \<and> unat (sv_writed (f_sv s)) = W
        else round_trip s = unat (sv_writed (f_sv s)))"

lemma flow_inv_start: "W < 2 ^ 32 \<Longrightarrow> flow_inv W (flow_start W V cid)"
  by (simp add: flow_inv_def flow_start_def newIOChannel_def NewPipeReader_def rw_new rw_capacity_new
      flow_open_def serve_start_def ack_start_def round_trip_def NewReadWriter_def rw_contents_def rw_inv_def)

lemma write_frame_eq_iff:
  "length a \<le> MaxUint16 \<Longrightarrow> write_frame c a = write_frame c b \<longleftrightarrow> a = b"
  by (auto simp: write_frame_def dest: u16.put_append_inj [THEN iffD1])

lemma confirm_frame_eq_iff: "confirm_frame c a = confirm_frame c b \<longleftrightarrow> a = b"
  by (simp add: confirm_frame_def u16.put_inj)


lemma flow_window:
  assumes "flow_inv W s" "W < 2 ^ 32"
  shows "unat (c_remoteWindow (f_snd s)) = W"
    "unat (c_remoteWindow (f_snd s) - sv_writed (f_sv s)) = W - unat (sv_writed (f_sv s))"
proof -
  show w: "unat (c_remoteWindow (f_snd s)) = W"
    using assms by (simp add: flow_inv_def unat_of_nat_le)
  have "sv_writed (f_sv s) \<le> c_remoteWindow (f_snd s)"
    using assms w by (simp add: flow_inv_def word_le_nat_alt)
  then show "unat (c_remoteWindow (f_snd s) - sv_writed (f_sv s)) = W - unat (sv_writed (f_sv s))"
    using w by (simp add: unat_minus_le)
qed

lemma flow_inv_write:
  assumes inv: "flow_inv W s" and n: "\<not> f_overflow s"
    and st: "serve_step False (f_snd s, f_sv s) (Some data) None (c, sv)"
  shows "flow_inv W (s\<lparr>f_snd := c, f_sv := sv, f_written := f_written s @ data\<rparr>)"
  using st by (rule serve_takeE) (use inv n in \<open>auto simp: flow_inv_def round_trip_def\<close>)

lemma flow_inv_taken:
  assumes inv: "flow_inv W s" and n: "\<not> f_overflow s" and v: "c_confirm (f_snd s) = Some v"
  shows "flow_inv W (s\<lparr>f_snd := (f_snd s)\<lparr>c_confirm := None\<rparr>, f_sv := serve_confirmed (f_sv s) v\<rparr>)"
proof -
  have le: "unat v \<le> unat (sv_writed (f_sv s))"
    using inv n v by (simp add: flow_inv_def round_trip_def)
  then have "unat (sv_writed (f_sv s) - v) = unat (sv_writed (f_sv s)) - unat v"
    by (simp add: unat_minus_le word_le_nat_alt)
  moreover have "\<not> v > sv_writed (f_sv s)" using le by (simp add: word_less_nat_alt)
  moreover have "v = 0" if "\<not> v > 0" using that by (simp add: word_gt_0)
  ultimately have sv: "serve_confirmed (f_sv s) v
      = (f_sv s)\<lparr>sv_writed := sv_writed (f_sv s) - v, sv_pc := InSend\<rparr>"
    and w: "unat (sv_writed (f_sv s) - v) = unat (sv_writed (f_sv s)) - unat v"
    by (auto simp: serve_confirmed_def)
  let ?t = "s\<lparr>f_snd := (f_snd s)\<lparr>c_confirm := None\<rparr>, f_sv := serve_confirmed (f_sv s) v\<rparr>"
  have "round_trip ?t + unat v = round_trip s" using v by (simp add: round_trip_def)
  moreover have "round_trip s = unat (sv_writed (f_sv s))" using inv n by (simp add: flow_inv_def)
  ultimately have "round_trip ?t = unat (sv_writed (f_sv s)) - unat v"
    "unat (sv_writed (f_sv s)) - unat v \<le> unat (sv_writed (f_sv s))" by linarith+
  then show ?thesis using inv n w unfolding sv by (auto simp: flow_inv_def flow_open_def)
qed

lemma flow_inv_serve:
  assumes inv: "flow_inv W s" and n: "\<not> f_overflow s"
    and st: "serve_step False (f_snd s, f_sv s) None None (c, sv)"
  shows "flow_inv W (s\<lparr>f_snd := c, f_sv := sv\<rparr>)"
  using st
proof (rule serve_silentE)
  fix v
  assume "c = f_snd s\<lparr>c_confirm := None\<rparr>" "sv = serve_confirmed (f_sv s) v"
    "c_confirm (f_snd s) = Some v"
  then show ?thesis using flow_inv_taken [OF inv n] by simp
qed (use inv n in \<open>auto simp: flow_inv_def round_trip_def flow_open_def\<close>)

lemma flow_inv_frame:
  assumes inv: "flow_inv W s" and n: "\<not> f_overflow s" and W: "W < 2 ^ 32"
    and st: "serve_step False (f_snd s, f_sv s) None (Some (write_frame (c_id (f_snd s)) b)) (c, sv)"
  shows "flow_inv W (s\<lparr>f_snd := c, f_sv := sv, f_wire := f_wire s @ [b]\<rparr>)"
  using st
proof (rule serve_frameE)
  define m where "m = send_size (c_remoteWindow (f_snd s)) (sv_writed (f_sv s)) (sv_b (f_sv s))"
  let ?b = "take m (sv_b (f_sv s))"
  let ?sv = "f_sv s\<lparr>sv_writed := sv_writed (f_sv s) + of_nat m, sv_b := drop m (sv_b (f_sv s))\<rparr>"
  let ?t = "s\<lparr>f_sv := ?sv, f_wire := f_wire s @ [?b]\<rparr>"
  have mb: "m \<le> length (sv_b (f_sv s))" "m \<le> W - unat (sv_writed (f_sv s))" "m \<le> MaxUint16"
    unfolding m_def using send_size_bounds flow_window(2) [OF inv W] by metis+
  assume fr: "write_frame (c_id (f_snd s)) b = write_frame (c_id (f_snd s))
      (take (send_size (c_remoteWindow (f_snd s)) (sv_writed (f_sv s)) (sv_b (f_sv s))) (sv_b (f_sv s)))"
    and c: "c = f_snd s"
    and sv: "sv = f_sv s\<lparr>sv_writed := sv_writed (f_sv s)
        + of_nat (send_size (c_remoteWindow (f_snd s)) (sv_writed (f_sv s)) (sv_b (f_sv s))),
      sv_b := drop (send_size (c_remoteWindow (f_snd s)) (sv_writed (f_sv s)) (sv_b (f_sv s)))
        (sv_b (f_sv s))\<rparr>"
    and pos: "0 < send_size (c_remoteWindow (f_snd s)) (sv_writed (f_sv s)) (sv_b (f_sv s))"
  note [simp] = m_def [symmetric]
  have "b = ?b"
    using fr mb write_frame_eq_iff [of ?b "c_id (f_snd s)" b] by auto
  then have t: "s\<lparr>f_snd := c, f_sv := sv, f_wire := f_wire s @ [b]\<rparr> = ?t" using c sv by simp
  have le: "unat (sv_writed (f_sv s)) + m \<le> W"
  proof -
    have "unat (sv_writed (f_sv s)) \<le> W" using inv by (simp add: flow_inv_def)
    with mb(2) show ?thesis by linarith
  qed
  then have "unat (sv_writed (f_sv s) + of_nat m) = unat (sv_writed (f_sv s)) + m"
    using W by (subst unat_plus_no_wrap) (simp_all add: unat_of_nat_le)
  moreover have "round_trip ?t = round_trip s + m" using mb by (simp add: round_trip_def)
  moreover have "?b \<noteq> []" using pos mb by auto
  ultimately show ?thesis
    unfolding t using inv n le by (simp add: flow_inv_def)
qed

lemma flow_inv_deliver:
  assumes inv: "flow_inv W s" and n: "\<not> f_overflow s"
    and w: "f_wire s = (b1 @ b2) # bs" "b1 \<noteq> []"
  shows "flow_inv W (s\<lparr>f_rcv := ch_Pipe (f_rcv s) b1, f_wire := (if b2 = [] then bs else b2 # bs)\<rparr>)"
proof -
  let ?t = "s\<lparr>f_rcv := ch_Pipe (f_rcv s) b1, f_wire := (if b2 = [] then bs else b2 # bs)\<rparr>"
  have "rw_inv (pr_rw (c_pipe (f_rcv s)))" using inv by (simp add: flow_inv_def)
  then show ?thesis
  proof (cases rule: pr_Write_cases [where b = b1])
    case full
    then have "rw_size (pr_rw (c_pipe (f_rcv s))) + length b1 \<le> W"
      using inv n w by (auto simp: flow_inv_def round_trip_def)
    then have "pr_Write (c_pipe (f_rcv s)) b1 \<noteq> (c_pipe (f_rcv s), 0, Some ErrWriteOverflow, False)"
      using inv ring.write_fits [of "pr_rw (c_pipe (f_rcv s))" b1] w(2)
      by (auto simp: flow_inv_def pr_Write_def)
    with full show ?thesis by simp
  next
    case (stored rw)
    then have "rw_size rw = rw_size (pr_rw (c_pipe (f_rcv s))) + length b1"
      by (metis length_append length_rw_contents)
    moreover have p: "ch_Pipe (f_rcv s) b1 = (f_rcv s)\<lparr>c_pipe := (c_pipe (f_rcv s))\<lparr>pr_rw := rw\<rparr>\<rparr>"
      using stored by (simp add: ch_Pipe_def)
    ultimately have "round_trip ?t = round_trip s" using w by (simp add: round_trip_def)
    then show ?thesis
      using stored inv n w p by (simp add: flow_inv_def flow_open_def)
  next
    case closed
    with inv show ?thesis by (simp add: flow_inv_def)
  qed
qed

lemma flow_inv_read:
  assumes inv: "flow_inv W s" and n: "\<not> f_overflow s"
    and rd: "ch_Read (f_rcv s) k = Some (c, out, e)"
  shows "flow_inv W (s\<lparr>f_rcv := c, f_delivered := f_delivered s @ out,
    f_pend := (if length out \<noteq> 0 then f_pend s @ [length out] else f_pend s)\<rparr>)"
proof (cases "k = 0")
  case True
  then show ?thesis using inv n rd
    by (auto simp: ch_Read_def pr_Read_def flow_inv_def round_trip_def flow_open_def)
next
  case False
  have "rw_inv (pr_rw (c_pipe (f_rcv s)))" using inv by (simp add: flow_inv_def)
  then show ?thesis
  proof (cases rule: pr_read_check_cases [where k = k])
    case (bytes rw)
    let ?held = "flow_held s" and ?c = "(f_rcv s)\<lparr>c_pipe := (c_pipe (f_rcv s))\<lparr>pr_rw := rw\<rparr>\<rparr>"
    let ?out = "take k ?held"
    let ?t = "s\<lparr>f_rcv := ?c, f_delivered := f_delivered s @ ?out, f_pend := f_pend s @ [length ?out]\<rparr>"
    have out: "c = ?c" "out = ?out" "length out \<noteq> 0"
      using rd bytes False by (auto simp: ch_Read_def pr_Read_def)
    have "rw_size rw + length ?out = rw_size (pr_rw (c_pipe (f_rcv s)))"
      using bytes(4) length_rw_contents [of rw] by simp
    then have rt: "round_trip ?t = round_trip s" by (simp add: round_trip_def)
    have "flow_inv W ?t"
      using inv n bytes rt by (simp add: flow_inv_def flow_open_def)
    then show ?thesis using out by simp
  qed (use inv n rd False in \<open>auto simp: ch_Read_def pr_Read_def flow_inv_def\<close>)
qed

lemma flow_inv_post:
  assumes inv: "flow_inv W s" and n: "\<not> f_overflow s"
    and p: "f_pend s = us @ m # vs" "ch_post_confirm (f_rcv s) m = Some c"
  shows "flow_inv W (s\<lparr>f_rcv := c, f_pend := us @ vs\<rparr>)"
proof -
  have c: "c = (f_rcv s)\<lparr>c_sendConfirm := c_sendConfirm (f_rcv s) @ [m]\<rparr>"
    using p(2) by (simp add: ch_post_confirm_def split: if_splits)
  have "round_trip (s\<lparr>f_rcv := c, f_pend := us @ vs\<rparr>) = round_trip s"
    using p(1) c by (simp add: round_trip_def)
  then show ?thesis using inv n c by (simp add: flow_inv_def flow_open_def)
qed

lemma flow_credit_small:
  assumes "flow_inv W s" "\<not> f_overflow s" "W < 2 ^ 32"
  shows "round_trip s < 2 ^ 32"
  using assms by (simp add: flow_inv_def)

lemma flow_inv_ack:
  assumes inv: "flow_inv W s" and n: "\<not> f_overflow s" and W: "W < 2 ^ 32"
    and st: "ack_step False (f_rcv s, f_ak s) None (c, ak)"
  shows "flow_inv W (s\<lparr>f_rcv := c, f_ak := ak\<rparr>)"
  using st
proof (rule ack_silentE)
  fix v vs
  assume a: "c = f_rcv s\<lparr>c_sendConfirm := vs\<rparr>"
    "ak = f_ak s\<lparr>ak_confirmed := of_nat v, ak_pc := AckBatch\<rparr>"
    "ak_pc (f_ak s) = AckWait" "c_sendConfirm (f_rcv s) = v # vs"
  have "v < 2 ^ 32" using flow_credit_small [OF inv n W] a(4) by (simp add: round_trip_def)
  then have "unat (of_nat v :: 64 word) = v" by (simp add: unat_of_nat_le)
  with a inv n show ?thesis by (auto simp: flow_inv_def round_trip_def flow_open_def)
next
  fix v vs
  assume a: "c = f_rcv s\<lparr>c_sendConfirm := vs\<rparr>"
    "ak = f_ak s\<lparr>ak_confirmed := ak_confirmed (f_ak s) + of_nat v\<rparr>"
    "ak_pc (f_ak s) = AckBatch" "c_sendConfirm (f_rcv s) = v # vs"
  have "unat (ak_confirmed (f_ak s)) + v < 2 ^ 32"
    using flow_credit_small [OF inv n W] a(4) by (simp add: round_trip_def)
  then have "unat (ak_confirmed (f_ak s) + of_nat v) = unat (ak_confirmed (f_ak s)) + v"
    by (subst unat_plus_no_wrap) (simp_all add: unat_of_nat_le)
  with a inv n show ?thesis by (auto simp: flow_inv_def round_trip_def flow_open_def)
qed (use inv n in \<open>auto simp: flow_inv_def round_trip_def flow_open_def\<close>)

lemma flow_inv_ack_frame:
  assumes inv: "flow_inv W s" and n: "\<not> f_overflow s"
    and st: "ack_step False (f_rcv s, f_ak s) (Some (confirm_frame (c_id (f_rcv s)) ok)) (c, ak)"
  shows "flow_inv W (s\<lparr>f_rcv := c, f_ak := ak, f_back := f_back s @ [ok]\<rparr>)"
  using st
proof (rule ack_frameE)
  let ?n = "ack_size (ak_confirmed (f_ak s))"
  assume a: "confirm_frame (c_id (f_rcv s)) ok = confirm_frame (c_id (f_rcv s)) (ucast ?n)"
    "c = f_rcv s" "ak = f_ak s\<lparr>ak_confirmed := ak_confirmed (f_ak s) - ?n\<rparr>" "ak_pc (f_ak s) = AckSend"
  have "unat ok = unat ?n" using a(1) by (simp add: confirm_frame_eq_iff unat_ucast_ack_size)
  moreover have "unat (ak_confirmed (f_ak s) - ?n) = unat (ak_confirmed (f_ak s)) - unat ?n"
    "unat ?n \<le> unat (ak_confirmed (f_ak s))"
    using ack_size_bounds(1) [of "ak_confirmed (f_ak s)"] by (simp_all add: unat_minus_le word_le_nat_alt)
  ultimately show ?thesis using a inv n by (auto simp: flow_inv_def round_trip_def)
qed

lemma unat_ucast_16_64 [simp]: "unat (ucast (ok :: 16 word) :: 64 word) = unat ok"
proof -
  have "unat ok < 2 ^ 64" using unsigned_less [of ok, where ?'a = nat] by simp
  then show ?thesis by (simp add: unsigned_ucast_eq take_bit_nat_eq_self)
qed

lemma flow_inv_confirm:
  assumes inv: "flow_inv W s" and n: "\<not> f_overflow s" and W: "W < 2 ^ 32"
    and b: "f_back s = ok # oks" and c: "(c, ovf) \<in> set (Confirm False (f_snd s) (ucast ok))"
  shows "flow_inv W (s\<lparr>f_snd := c, f_back := oks, f_overflow := ovf\<rparr>)"
proof (cases "c_confirm (f_snd s)")
  case None
  with inv n b c show ?thesis
    by (auto simp: flow_inv_def round_trip_def flow_open_def Confirm_empty)
next
  case (Some old)
  have rt: "round_trip s = unat (sv_writed (f_sv s))" "unat (sv_writed (f_sv s)) \<le> W"
    using inv n by (simp_all add: flow_inv_def)
  then have "unat ok + unat old \<le> W" using b Some by (simp add: round_trip_def)
  then have sum: "unat (ucast ok + old) = unat ok + unat old"
    using W by (subst unat_plus_no_wrap) simp_all
  have ge: "ucast ok + old \<ge> c_remoteWindow (f_snd s) \<longleftrightarrow> W \<le> unat ok + unat old"
    using flow_window(1) [OF inv W] sum by (simp add: word_le_nat_alt)
  show ?thesis
  proof (cases "W \<le> unat ok + unat old")
    case True
    let ?t = "s\<lparr>f_snd := (f_snd s)\<lparr>c_confirm := None\<rparr>, f_back := oks, f_overflow := True\<rparr>"
    have t: "s\<lparr>f_snd := c, f_back := oks, f_overflow := ovf\<rparr> = ?t"
      using Some c inv True ge by (simp add: Confirm_full flow_inv_def flow_open_def)
    have "round_trip ?t + unat ok + unat old = round_trip s"
      using b Some by (simp add: round_trip_def)
    then have "round_trip ?t = 0" "unat (sv_writed (f_sv s)) = W" using rt True by linarith+
    then show ?thesis unfolding t using inv by (simp add: flow_inv_def flow_open_def)
  next
    case False
    let ?t = "s\<lparr>f_snd := (f_snd s)\<lparr>c_confirm := Some (ucast ok + old)\<rparr>, f_back := oks,
      f_overflow := False\<rparr>"
    have t: "s\<lparr>f_snd := c, f_back := oks, f_overflow := ovf\<rparr> = ?t"
      using Some c inv False ge by (simp add: Confirm_full flow_inv_def flow_open_def)
    have "round_trip ?t = round_trip s"
      using b Some sum by (simp add: round_trip_def)
    then show ?thesis unfolding t using inv rt by (simp add: flow_inv_def flow_open_def)
  qed
qed

lemma flow_step_inv:
  assumes "W < 2 ^ 32"
  shows "flow_step s t \<Longrightarrow> flow_inv W s \<Longrightarrow> flow_inv W t"
proof (induction rule: flow_step.induct)
  case fl_write then show ?case by (blast intro: flow_inv_write)
next
  case fl_serve then show ?case by (blast intro: flow_inv_serve)
next
  case fl_frame then show ?case by (blast intro: flow_inv_frame assms)
next
  case fl_deliver then show ?case by (blast intro: flow_inv_deliver)
next
  case fl_read then show ?case by (blast intro: flow_inv_read)
next
  case fl_post then show ?case by (blast intro: flow_inv_post)
next
  case fl_ack then show ?case by (blast intro: flow_inv_ack assms)
next
  case fl_ack_frame then show ?case by (blast intro: flow_inv_ack_frame)
next
  case fl_confirm then show ?case by (blast intro: flow_inv_confirm assms)
qed

lemma flow_reachable_inv: "flow_reachable W V cid s \<Longrightarrow> W < 2 ^ 32 \<Longrightarrow> flow_inv W s"
  by (induction rule: flow_reachable.induct) (auto intro: flow_inv_start flow_step_inv)

section \<open>Executing a schedule\<close>

text \<open>
  Every rule as a function of the choices it leaves open, so that a concrete run is evaluated.
\<close>

datatype flow_act =
    AWrite bytes | ATakeConfirm | APoll | AAgain | AFrame | ADeliver nat | ARead nat
  | APost | AAckRecv | AAckMore | ABatched | AAckFrame | AAckLoop | AConfirm

fun flow_exec :: "flow_act \<Rightarrow> flow \<Rightarrow> flow option" where
  "flow_exec (AWrite data) s =
     (if sv_pc (f_sv s) = AtChoose \<and> sv_b (f_sv s) = []
      then Some (s\<lparr>f_sv := (f_sv s)\<lparr>sv_b := data, sv_pc := InSend\<rparr>, f_written := f_written s @ data\<rparr>)
      else None)"
| "flow_exec ATakeConfirm s =
     (case c_confirm (f_snd s) of
        Some v \<Rightarrow> if sv_pc (f_sv s) = AtChoose
                  then Some (s\<lparr>f_snd := (f_snd s)\<lparr>c_confirm := None\<rparr>, f_sv := serve_confirmed (f_sv s) v\<rparr>)
                  else None
      | None \<Rightarrow> None)"
| "flow_exec APoll s =
     (if sv_pc (f_sv s) = AtChoose \<and> sv_b (f_sv s) \<noteq> []
         \<and> c_remoteWindow (f_snd s) - sv_writed (f_sv s) \<noteq> 0 \<and> c_confirm (f_snd s) = None
         \<and> \<not> c_ctx_done (f_snd s)
      then Some (s\<lparr>f_sv := (f_sv s)\<lparr>sv_pc := InSend\<rparr>\<rparr>) else None)"
| "flow_exec AAgain s =
     (if sv_pc (f_sv s) = InSend
         \<and> send_size (c_remoteWindow (f_snd s)) (sv_writed (f_sv s)) (sv_b (f_sv s)) = 0
      then Some (s\<lparr>f_sv := (f_sv s)\<lparr>sv_pc := AtChoose\<rparr>\<rparr>) else None)"
| "flow_exec AFrame s =
     (let n = send_size (c_remoteWindow (f_snd s)) (sv_writed (f_sv s)) (sv_b (f_sv s)) in
      if sv_pc (f_sv s) = InSend \<and> n \<noteq> 0
      then Some (s\<lparr>f_sv := (f_sv s)\<lparr>sv_writed := sv_writed (f_sv s) + of_nat n,
                     sv_b := drop n (sv_b (f_sv s))\<rparr>,
                   f_wire := f_wire s @ [take n (sv_b (f_sv s))]\<rparr>)
      else None)"
| "flow_exec (ADeliver n) s =
     (case f_wire s of
        [] \<Rightarrow> None
      | b # bs \<Rightarrow> if take n b = [] then None
                  else Some (s\<lparr>f_rcv := ch_Pipe (f_rcv s) (take n b),
                    f_wire := (if drop n b = [] then bs else drop n b # bs)\<rparr>))"
| "flow_exec (ARead k) s =
     (case ch_Read (f_rcv s) k of
        None \<Rightarrow> None
      | Some (c, out, e) \<Rightarrow> Some (s\<lparr>f_rcv := c, f_delivered := f_delivered s @ out,
          f_pend := (if length out \<noteq> 0 then f_pend s @ [length out] else f_pend s)\<rparr>))"
| "flow_exec APost s =
     (case f_pend s of
        [] \<Rightarrow> None
      | n # ns \<Rightarrow> map_option (\<lambda>c. s\<lparr>f_rcv := c, f_pend := ns\<rparr>) (ch_post_confirm (f_rcv s) n))"
| "flow_exec AAckRecv s =
     (case c_sendConfirm (f_rcv s) of
        [] \<Rightarrow> None
      | v # vs \<Rightarrow> if ak_pc (f_ak s) = AckWait
                  then Some (s\<lparr>f_rcv := (f_rcv s)\<lparr>c_sendConfirm := vs\<rparr>,
                     f_ak := (f_ak s)\<lparr>ak_confirmed := of_nat v, ak_pc := AckBatch\<rparr>\<rparr>)
                  else None)"
| "flow_exec AAckMore s =
     (case c_sendConfirm (f_rcv s) of
        [] \<Rightarrow> None
      | v # vs \<Rightarrow> if ak_pc (f_ak s) = AckBatch \<and> ak_confirmed (f_ak s) < ack_window (f_rcv s)
                  then Some (s\<lparr>f_rcv := (f_rcv s)\<lparr>c_sendConfirm := vs\<rparr>,
                     f_ak := (f_ak s)\<lparr>ak_confirmed := ak_confirmed (f_ak s) + of_nat v\<rparr>\<rparr>)
                  else None)"
| "flow_exec ABatched s =
     (if ak_pc (f_ak s) = AckBatch
         \<and> (\<not> ak_confirmed (f_ak s) < ack_window (f_rcv s)
            \<or> c_sendConfirm (f_rcv s) = [] \<and> \<not> c_ctx_done (f_rcv s))
      then Some (s\<lparr>f_ak := (f_ak s)\<lparr>ak_pc := AckSend\<rparr>\<rparr>) else None)"
| "flow_exec AAckFrame s =
     (let ok = ack_size (ak_confirmed (f_ak s)) in
      if ak_pc (f_ak s) = AckSend \<and> ak_confirmed (f_ak s) \<noteq> 0
      then Some (s\<lparr>f_ak := (f_ak s)\<lparr>ak_confirmed := ak_confirmed (f_ak s) - ok\<rparr>,
                   f_back := f_back s @ [ucast ok]\<rparr>)
      else None)"
| "flow_exec AAckLoop s =
     (if ak_pc (f_ak s) = AckSend \<and> ak_confirmed (f_ak s) = 0
      then Some (s\<lparr>f_ak := (f_ak s)\<lparr>ak_pc := AckWait\<rparr>\<rparr>) else None)"
| "flow_exec AConfirm s =
     (case f_back s of
        [] \<Rightarrow> None
      | ok # oks \<Rightarrow>
          (case Confirm False (f_snd s) (ucast ok) of
             [] \<Rightarrow> None
           | (c, ovf) # _ \<Rightarrow> Some (s\<lparr>f_snd := c, f_back := oks, f_overflow := ovf\<rparr>)))"

fun flow_run :: "flow_act list \<Rightarrow> flow \<Rightarrow> flow option" where
  "flow_run [] s = Some s"
| "flow_run (a # as) s =
     (if f_overflow s then None
      else case flow_exec a s of None \<Rightarrow> None | Some t \<Rightarrow> flow_run as t)"

text \<open>The steps of \<open>Serve\<close> and \<open>serveConfirm\<close> that leave the channel as it is.\<close>

lemma fl_write_local: "\<not> f_overflow s \<Longrightarrow>
    serve_step False (f_snd s, f_sv s) (Some data) None (f_snd s, sv) \<Longrightarrow>
    flow_step s (s\<lparr>f_sv := sv, f_written := f_written s @ data\<rparr>)"
  using fl_write [of s data "f_snd s" sv] by simp

lemma fl_serve_local: "\<not> f_overflow s \<Longrightarrow>
    serve_step False (f_snd s, f_sv s) None None (f_snd s, sv) \<Longrightarrow> flow_step s (s\<lparr>f_sv := sv\<rparr>)"
  using fl_serve [of s "f_snd s" sv] by simp

lemma fl_frame_local: "\<not> f_overflow s \<Longrightarrow>
    serve_step False (f_snd s, f_sv s) None (Some (write_frame (c_id (f_snd s)) b)) (f_snd s, sv) \<Longrightarrow>
    flow_step s (s\<lparr>f_sv := sv, f_wire := f_wire s @ [b]\<rparr>)"
  using fl_frame [of s b "f_snd s" sv] by simp

lemma fl_ack_local: "\<not> f_overflow s \<Longrightarrow>
    ack_step False (f_rcv s, f_ak s) None (f_rcv s, ak) \<Longrightarrow> flow_step s (s\<lparr>f_ak := ak\<rparr>)"
  using fl_ack [of s "f_rcv s" ak] by simp

lemma fl_ack_frame_local: "\<not> f_overflow s \<Longrightarrow>
    ack_step False (f_rcv s, f_ak s) (Some (confirm_frame (c_id (f_rcv s)) ok)) (f_rcv s, ak) \<Longrightarrow>
    flow_step s (s\<lparr>f_ak := ak, f_back := f_back s @ [ok]\<rparr>)"
  using fl_ack_frame [of s ok "f_rcv s" ak] by simp

lemma flow_exec_step:
  assumes "flow_exec a s = Some t" "\<not> f_overflow s"
  shows "flow_step s t"
proof (cases a)
  case (AWrite data)
  with assms show ?thesis by (auto intro!: fl_write_local s_take split: if_splits)
next
  case ATakeConfirm
  with assms show ?thesis by (auto intro!: fl_serve s_confirm split: if_splits option.splits)
next
  case APoll
  with assms show ?thesis by (auto intro!: fl_serve_local s_poll split: if_splits)
next
  case AAgain
  with assms show ?thesis by (auto intro!: fl_serve_local s_again split: if_splits)
next
  case AFrame
  with assms show ?thesis
    by (auto simp: Let_def intro!: fl_frame_local s_frame split: if_splits)
next
  case (ADeliver n)
  with assms show ?thesis
    using fl_deliver [of s "take n (hd (f_wire s))" "drop n (hd (f_wire s))" "tl (f_wire s)"]
    by (auto split: list.splits if_splits)
next
  case (ARead k)
  with assms show ?thesis using fl_read [of s k] by (auto split: option.splits)
next
  case APost
  with assms show ?thesis
    using fl_post [of s "[]"] by (auto split: list.splits)
next
  case AAckRecv
  with assms show ?thesis by (auto intro!: fl_ack a_recv split: list.splits if_splits)
next
  case AAckMore
  with assms show ?thesis by (auto intro!: fl_ack a_more split: list.splits if_splits)
next
  case ABatched
  with assms show ?thesis by (auto intro!: fl_ack_local a_batched split: if_splits)
next
  case AAckFrame
  with assms show ?thesis
    by (auto simp: Let_def intro!: fl_ack_frame_local a_frame split: if_splits)
next
  case AAckLoop
  with assms show ?thesis by (auto intro!: fl_ack_local a_loop split: if_splits)
next
  case AConfirm
  then obtain ok oks c ovf r where
      "f_back s = ok # oks" "Confirm False (f_snd s) (ucast ok) = (c, ovf) # r"
      "t = s\<lparr>f_snd := c, f_back := oks, f_overflow := ovf\<rparr>"
    using assms by (auto split: list.splits prod.splits)
  with assms show ?thesis using fl_confirm [of s ok oks c ovf] by simp
qed

lemma flow_run_reachable:
  "flow_run as s = Some t \<Longrightarrow> flow_reachable W V cid s \<Longrightarrow> flow_reachable W V cid t"
proof (induction as arbitrary: s)
  case (Cons a as)
  then obtain u where "\<not> f_overflow s" "flow_exec a s = Some u" "flow_run as u = Some t"
    by (auto split: if_splits option.splits)
  with Cons show ?case by (blast intro: flr_step flow_exec_step)
qed simp

definition flow_spurious_run :: "flow_act list" where
  "flow_spurious_run =
     [AWrite [1, 2], AFrame, AAgain, ADeliver 2, ARead 1, ARead 1, APost, APost,
      AAckRecv, ABatched, AAckFrame, AAckLoop, AAckRecv, ABatched, AAckFrame, AConfirm, AConfirm]"

definition flow_spurious :: flow where
  "flow_spurious =
    \<lparr>f_snd = newIOChannel 7 2 2, f_sv = \<lparr>sv_pc = AtChoose, sv_b = [], sv_writed = 2\<rparr>, f_wire = [],
     f_rcv = (newIOChannel 7 2 2)\<lparr>c_pipe := 
            \<lparr>pr_rw = \<lparr>rw_buffer = [1, 2], rw_offset = 0, rw_size = 0\<rparr>,
               pr_closed = False, pr_wait = 0\<rparr>\<rparr>,
     f_pend = [], f_ak = \<lparr>ak_pc = AckSend, ak_confirmed = 0\<rparr>, f_back = [],
     f_written = [1, 2], f_delivered = [1, 2], f_overflow = True\<rparr>"

lemma spurious_reads:
  "rw_Read \<lparr>rw_buffer = [1, 2], rw_offset = 0, rw_size = 2\<rparr> (Suc 0)
     = Some (\<lparr>rw_buffer = [1, 2], rw_offset = 1, rw_size = 1\<rparr>, [1], None)"
  "rw_Read \<lparr>rw_buffer = [1, 2], rw_offset = Suc 0, rw_size = Suc 0\<rparr> (Suc 0)
     = Some (\<lparr>rw_buffer = [1, 2], rw_offset = 0, rw_size = 0\<rparr>, [2], None)"
 by (simp_all add: rw_Read_def rw_read_loop.simps rw_read_once_def Let_def)

lemma spurious_write:
  "rw_Write \<lparr>rw_buffer = [0, 0], rw_offset = 0, rw_size = 0\<rparr> [1, 2]
     = (\<lparr>rw_buffer = [1, 2], rw_offset = 0, rw_size = 2\<rparr>, 2, None)"
  by (simp add: rw_Write_def rw_Available_def go_copy_def Let_def)

lemma spurious_send: "send_size 2 0 [1, 2] = 2"
  by (simp add: send_size_def)

lemma spurious_start: "NewPipeReader 2 =
    \<lparr>pr_rw = \<lparr>rw_buffer = [0, 0], rw_offset = 0, rw_size = 0\<rparr>, pr_closed = False, pr_wait = 0\<rparr>"
  by (simp add: NewPipeReader_def NewReadWriter_def numeral_2_eq_2)

lemma flow_spurious_exec: "flow_run flow_spurious_run (flow_start 2 2 7) = Some flow_spurious"
  by (simp add: flow_spurious_run_def flow_spurious_def flow_start_def newIOChannel_def
    spurious_start serve_start_def ack_start_def spurious_send send_size_zero_iff ch_Pipe_def pr_Write_def
    spurious_write rw_Len_def ch_Read_def pr_Read_def pr_read_check_def spurious_reads ch_post_confirm_def
    ack_window_def ack_size_def Confirm_def Let_def)

section \<open>Progress\<close>

text \<open>
  A measure that some sequence of steps lowers, as long as bytes are on their way: the credit
  moves along the round trip, and the components of the measure are its stations.
\<close>

definition flow_measure :: "(flow \<times> flow) set" where
  "flow_measure = measures
     [\<lambda>s. length (sv_b (f_sv s)), \<lambda>s. sum_list (map length (f_wire s)),
      \<lambda>s. rw_size (pr_rw (c_pipe (f_rcv s))), \<lambda>s. length (f_pend s),
      \<lambda>s. length (c_sendConfirm (f_rcv s)), \<lambda>s. unat (ak_confirmed (f_ak s)),
      \<lambda>s. (case ak_pc (f_ak s) of AckBatch \<Rightarrow> 2 | AckSend \<Rightarrow> 1 | _ \<Rightarrow> 0),
      \<lambda>s. length (f_back s), \<lambda>s. (if c_confirm (f_snd s) = None then 0 else 1),
      \<lambda>s. (if sv_pc (f_sv s) = InSend then 1 else 0)]"

lemma wf_flow_measure: "wf flow_measure"
  by (simp add: flow_measure_def)

text \<open>Progress from \<open>s\<close>: a few steps that write nothing new and go down, or an overflow.\<close>

definition flow_moves :: "flow \<Rightarrow> bool" where
  "flow_moves s \<longleftrightarrow>
     (\<exists>t. flow_step\<^sup>+\<^sup>+ s t \<and> (f_overflow t \<or> (t, s) \<in> flow_measure) \<and> f_written t = f_written s)"

lemma flow_movesI:
  assumes "\<not> f_overflow s" "flow_exec a s \<noteq> None" "f_written (the (flow_exec a s)) = f_written s"
    "f_overflow (the (flow_exec a s)) \<or> (the (flow_exec a s), s) \<in> flow_measure"
  shows "flow_moves s"
  unfolding flow_moves_def using assms flow_exec_step [of a s] by fastforce

lemma flow_moves_deliver:
  assumes "flow_inv W s" "\<not> f_overflow s" "f_wire s = b # bs"
  shows "flow_moves s"
proof -
  have "b \<noteq> []" using assms by (simp add: flow_inv_def)
  with assms show ?thesis
    by (intro flow_movesI [of s "ADeliver (length b)"]) (auto simp: flow_measure_def)
qed

lemma flow_moves_read:
  assumes inv: "flow_inv W s" and n: "\<not> f_overflow s" and h: "flow_held s \<noteq> []"
  shows "flow_moves s"
proof -
  let ?k = "rw_size (pr_rw (c_pipe (f_rcv s)))"
  have k: "?k \<noteq> 0" "length (flow_held s) = ?k" using h by (simp_all add: rw_contents_empty_iff)
  have "rw_inv (pr_rw (c_pipe (f_rcv s)))" using inv by (simp add: flow_inv_def)
  then show ?thesis
  proof (cases rule: pr_read_check_cases [where k = ?k])
    case (bytes rw)
    have "rw_size rw = 0" using bytes(4) k length_rw_contents [of rw] by simp
    moreover have "ch_Read (f_rcv s) ?k = Some ((f_rcv s)\<lparr>c_pipe := (c_pipe (f_rcv s))\<lparr>pr_rw := rw\<rparr>\<rparr>,
        flow_held s, None)"
      using bytes k by (simp add: ch_Read_def pr_Read_def)
    ultimately show ?thesis
      by (intro flow_movesI [of s "ARead ?k"]) (use n k in \<open>auto simp: flow_measure_def\<close>)
  qed (use h inv in \<open>auto simp: flow_inv_def\<close>)
qed

lemma flow_moves_post:
  assumes n: "\<not> f_overflow s" and p: "f_pend s = m # ms" "length (c_sendConfirm (f_rcv s)) < 10"
  shows "flow_moves s"
  by (intro flow_movesI [of s APost])
    (use assms in \<open>auto simp: ch_post_confirm_def flow_measure_def\<close>)

lemma flow_moves_ack:
  assumes inv: "flow_inv W s" and n: "\<not> f_overflow s"
    and a: "c_sendConfirm (f_rcv s) \<noteq> [] \<or> ak_pc (f_ak s) \<noteq> AckWait"
  shows "flow_moves s"
proof -
  have c: "\<not> c_ctx_done (f_rcv s)" using inv by (simp add: flow_inv_def flow_open_def)
  have sub: "ak_confirmed (f_ak s) \<noteq> 0 \<Longrightarrow>
      unat (ak_confirmed (f_ak s) - ack_size (ak_confirmed (f_ak s))) < unat (ak_confirmed (f_ak s))"
    using ack_size_bounds(1) [of "ak_confirmed (f_ak s)"] ack_size_nonzero [of "ak_confirmed (f_ak s)"]
    by (simp add: unat_minus_le unat_gt_0)
  show ?thesis
  proof (cases "ak_pc (f_ak s)")
    case AckWait
    with a obtain v vs where "c_sendConfirm (f_rcv s) = v # vs" by (cases "c_sendConfirm (f_rcv s)") auto
    with AckWait show ?thesis
      by (intro flow_movesI [of s AAckRecv]) (use n in \<open>auto simp: flow_measure_def\<close>)
  next
    case AckBatch
    show ?thesis
    proof (cases "ak_confirmed (f_ak s) < ack_window (f_rcv s) \<and> c_sendConfirm (f_rcv s) \<noteq> []")
      case True
      then obtain v vs where "c_sendConfirm (f_rcv s) = v # vs" by (cases "c_sendConfirm (f_rcv s)") auto
      with AckBatch True show ?thesis
        by (intro flow_movesI [of s AAckMore]) (use n in \<open>auto simp: flow_measure_def\<close>)
    next
      case False
      with AckBatch c show ?thesis
        by (intro flow_movesI [of s ABatched]) (use n in \<open>auto simp: flow_measure_def\<close>)
    qed
  next
    case AckSend
    show ?thesis
    proof (cases "ak_confirmed (f_ak s) = 0")
      case True
      with AckSend show ?thesis
        by (intro flow_movesI [of s AAckLoop]) (use n in \<open>auto simp: flow_measure_def\<close>)
    next
      case False
      with AckSend sub show ?thesis
        by (intro flow_movesI [of s AAckFrame]) (use n in \<open>auto simp: flow_measure_def Let_def\<close>)
    qed
  next
    case AckExited
    with inv show ?thesis by (simp add: flow_inv_def)
  qed
qed

lemma flow_moves_confirm:
  assumes inv: "flow_inv W s" and n: "\<not> f_overflow s" and b: "f_back s = ok # oks"
  shows "flow_moves s"
proof -
  have o: "\<not> c_ctx_done (f_snd s)" using inv by (simp add: flow_inv_def flow_open_def)
  show ?thesis
  proof (cases "c_confirm (f_snd s)")
    case None
    with o b show ?thesis
      by (intro flow_movesI [of s AConfirm])
        (use n in \<open>auto simp: Confirm_empty flow_measure_def\<close>)
  next
    case (Some old)
    with o b show ?thesis
      by (intro flow_movesI [of s AConfirm])
        (use n in \<open>auto simp: Confirm_full flow_measure_def\<close>)
  qed
qed

lemma flow_moves_take:
  assumes inv: "flow_inv W s" and n: "\<not> f_overflow s" and c: "c_confirm (f_snd s) = Some v"
    and pc: "sv_pc (f_sv s) = AtChoose"
  shows "flow_moves s"
proof -
  have "sv_b (serve_confirmed (f_sv s) v) = sv_b (f_sv s)" by (simp add: serve_confirmed_def)
  then show ?thesis
    by (intro flow_movesI [of s ATakeConfirm]) (use n c pc in \<open>auto simp: flow_measure_def\<close>)
qed

lemma flow_moves_send:
  assumes n: "\<not> f_overflow s" and pc: "sv_pc (f_sv s) = InSend"
  shows "flow_moves s"
proof (cases "send_size (c_remoteWindow (f_snd s)) (sv_writed (f_sv s)) (sv_b (f_sv s)) = 0")
  case True
  with n pc show ?thesis
    by (intro flow_movesI [of s AAgain]) (auto simp: flow_measure_def)
next
  case False
  with n pc show ?thesis
    using send_size_zero_iff [of "c_remoteWindow (f_snd s)" "sv_writed (f_sv s)" "sv_b (f_sv s)"]
    by (intro flow_movesI [of s AFrame]) (auto simp: flow_measure_def Let_def)
qed

text \<open>With room in the window, \<open>choose\<close> falls through its \<open>default\<close> and a frame follows.\<close>

lemma flow_moves_poll:
  assumes inv: "flow_inv W s" and n: "\<not> f_overflow s" and c: "c_confirm (f_snd s) = None"
    and b: "sv_b (f_sv s) \<noteq> []" and room: "c_remoteWindow (f_snd s) \<noteq> sv_writed (f_sv s)"
    and pc: "sv_pc (f_sv s) = AtChoose"
  shows "flow_moves s"
proof -
  let ?n = "send_size (c_remoteWindow (f_snd s)) (sv_writed (f_sv s)) (sv_b (f_sv s))"
  have sz: "?n \<noteq> 0" using send_size_zero_iff b room by auto
  let ?u = "s\<lparr>f_sv := (f_sv s)\<lparr>sv_pc := InSend\<rparr>\<rparr>"
  have u: "flow_exec APoll s = Some ?u"
    using inv c b room pc by (simp add: flow_inv_def flow_open_def)
  let ?t = "the (flow_exec AFrame ?u)"
  have t: "flow_exec AFrame ?u = Some ?t" using sz by (simp add: Let_def)
  have "flow_step s ?u" "flow_step ?u ?t"
    using flow_exec_step [OF u n] flow_exec_step [OF t] n by simp_all
  then have "flow_step\<^sup>+\<^sup>+ s ?t" by (blast intro: tranclp.trancl_into_trancl)
  moreover have "(?t, s) \<in> flow_measure" "f_written ?t = f_written s"
    using sz b by (simp_all add: flow_measure_def Let_def)
  ultimately show ?thesis unfolding flow_moves_def by blast
qed

lemma flow_progress:
  assumes inv: "flow_inv W s" and n: "\<not> f_overflow s" and W: "0 < W" "W < 2 ^ 32"
    and todo: "f_delivered s \<noteq> f_written s"
  shows "flow_moves s"
proof (rule ccontr)
  assume stuck: "\<not> flow_moves s"
  have wire: "f_wire s = []" using flow_moves_deliver [OF inv n] stuck by (cases "f_wire s") auto
  have held: "flow_held s = []" using flow_moves_read [OF inv n] stuck by auto
  have ack: "c_sendConfirm (f_rcv s) = []" "ak_pc (f_ak s) = AckWait"
    using flow_moves_ack [OF inv n] stuck by auto
  have pend: "f_pend s = []" using flow_moves_post [OF n] stuck ack by (cases "f_pend s") auto
  have bk: "f_back s = []" using flow_moves_confirm [OF inv n] stuck by (cases "f_back s") auto
  have "sv_pc (f_sv s) \<noteq> InSend" using flow_moves_send [OF n] stuck by auto
  then have pc: "sv_pc (f_sv s) = AtChoose"
    using inv by (cases "sv_pc (f_sv s)") (auto simp: flow_inv_def)
  have slot: "c_confirm (f_snd s) = None"
    using flow_moves_take [OF inv n _ pc] stuck by (cases "c_confirm (f_snd s)") auto
  have size0: "rw_size (pr_rw (c_pipe (f_rcv s))) = 0" using held by (simp add: rw_contents_empty_iff)
  have ak: "ak_confirmed (f_ak s) = 0" using inv ack(2) by (simp add: flow_inv_def)
  have "round_trip s = 0"
    using wire size0 ack pend bk slot ak by (simp add: round_trip_def)
  then have "sv_writed (f_sv s) = 0" using inv n by (simp add: flow_inv_def unsigned_eq_0_iff)
  moreover have "c_remoteWindow (f_snd s) \<noteq> 0"
    using flow_window(1) [OF inv W(2)] W(1) by auto
  moreover have "sv_b (f_sv s) \<noteq> []"
    using inv todo wire held by (auto simp: flow_inv_def)
  ultimately show False using flow_moves_poll [OF inv n slot _ _ pc] stuck by simp
qed

lemma flow_steps_inv:
  "flow_step\<^sup>*\<^sup>* s t \<Longrightarrow> W < 2 ^ 32 \<Longrightarrow> flow_inv W s \<Longrightarrow> flow_inv W t"
  by (induction rule: rtranclp_induct) (auto intro: flow_step_inv)

lemma flow_drain:
  assumes W: "0 < W" "W < 2 ^ 32"
  shows "flow_inv W s \<Longrightarrow> \<not> f_overflow s \<Longrightarrow>
    \<exists>t. flow_step\<^sup>*\<^sup>* s t \<and> f_written t = f_written s
      \<and> (f_overflow t \<or> f_delivered t = f_written t)"
proof (induction s rule: wf_induct_rule [OF wf_flow_measure])
  case (1 s)
  show ?case
  proof (cases "f_delivered s = f_written s")
    case False
    obtain t where t: "flow_step\<^sup>+\<^sup>+ s t" "f_written t = f_written s"
        "f_overflow t \<or> (t, s) \<in> flow_measure"
      using flow_progress [OF 1(2,3) W False] by (auto simp: flow_moves_def)
    have st: "flow_step\<^sup>*\<^sup>* s t" using t(1) by (rule tranclp_into_rtranclp)
    show ?thesis
    proof (cases "f_overflow t")
      case False
      then obtain u where "flow_step\<^sup>*\<^sup>* t u" "f_written u = f_written t"
          "f_overflow u \<or> f_delivered u = f_written u"
        using 1(1) [of t] t flow_steps_inv [OF st W(2) 1(2)] by blast
      with st t(2) show ?thesis by (metis rtranclp_trans)
    qed (use st t(2) in blast)
  qed blast
qed

section \<open>What the channel promises\<close>

text \<open>
  C1: the channel is a reliable byte stream.  In every reachable state the bytes accepted by
  \<open>Write\<close> are, in order and each once, the bytes handed to readers, the bytes in the
  receiver's pipe, the payloads in transit and the rest of the write that \<open>Serve\<close> is at.
\<close>

theorem flow_stream_integrity:
  assumes "flow_reachable W V cid s" "W < 2 ^ 32"
  shows "f_written s = f_delivered s @ flow_held s @ concat (f_wire s) @ sv_b (f_sv s)"
  using flow_reachable_inv [OF assms] by (simp add: flow_inv_def)

text \<open>A run over two-byte windows in which the reader takes the bytes one by one.\<close>

lemma flow_spurious_reachable: "flow_reachable 2 2 7 flow_spurious"
  using flow_run_reachable [OF flow_spurious_exec flr_start] .

definition flow_part_run :: "flow_act list" where
  "flow_part_run = [AWrite [1, 2, 3], AFrame, AAgain, ADeliver 2, ARead 1]"

definition flow_part :: flow where
  "flow_part =
    \<lparr>f_snd = newIOChannel 7 2 2, f_sv = \<lparr>sv_pc = AtChoose, sv_b = [3], sv_writed = 2\<rparr>, f_wire = [],
     f_rcv = (newIOChannel 7 2 2)\<lparr>c_pipe :=
       \<lparr>pr_rw = \<lparr>rw_buffer = [1, 2], rw_offset = 1, rw_size = 1\<rparr>, pr_closed = False, pr_wait = 0\<rparr>\<rparr>,
     f_pend = [1], f_ak = ack_start, f_back = [], f_written = [1, 2, 3], f_delivered = [1],
     f_overflow = False\<rparr>"

lemma part_send: "send_size 2 0 [1, 2, 3] = 2"
  by (simp add: send_size_def)

lemma flow_part_exec: "flow_run flow_part_run (flow_start 2 2 7) = Some flow_part"
  by (simp add: flow_part_run_def flow_part_def flow_start_def newIOChannel_def spurious_start
    serve_start_def ack_start_def part_send send_size_zero_iff ch_Pipe_def pr_Write_def
    spurious_write rw_Len_def ch_Read_def pr_Read_def pr_read_check_def spurious_reads Let_def)

lemma flow_part_reachable: "flow_reachable 2 2 7 flow_part"
  using flow_run_reachable [OF flow_part_exec flr_start] .

lemma flow_part_overflow: "\<not> f_overflow flow_part" by (simp add: flow_part_def)

theorem flow_stream_integrity_witness:
  "flow_reachable 2 2 7 flow_part \<and> f_written flow_part = [1, 2, 3]
   \<and> f_written flow_part = f_delivered flow_part @ flow_held flow_part
        @ concat (f_wire flow_part) @ sv_b (f_sv flow_part)"
  using flow_stream_integrity [OF flow_part_reachable] flow_part_reachable
  by (simp add: flow_part_def)

text \<open>
  C3: credit is conserved, so a correct pair of ends never breaks its own rules: the sender
  has at most a window of unconfirmed bytes, the receiver's pipe takes every frame that
  arrives (its overflow error is not reached and \<open>Pipe\<close> never closes the channel), and
  \<open>Serve\<close> never ends on a confirmation of more than was written.
\<close>

theorem flow_window_respected:
  assumes "flow_reachable W V cid s" "W < 2 ^ 32"
  shows "unat (sv_writed (f_sv s)) \<le> W \<and> length (flow_held s) \<le> W
    \<and> \<not> c_closed (f_snd s) \<and> \<not> c_closed (f_rcv s) \<and> sv_pc (f_sv s) \<noteq> Exited
    \<and> (\<not> f_overflow s \<longrightarrow>
        (\<forall>b \<in> set (f_wire s). fst (snd (snd (pr_Write (c_pipe (f_rcv s)) b))) = None))"
proof -
  have inv: "flow_inv W s" using flow_reachable_inv [OF assms] .
  then have held: "rw_size (pr_rw (c_pipe (f_rcv s))) \<le> W"
    by (auto simp: flow_inv_def rw_inv_def)
  have "fst (snd (snd (pr_Write (c_pipe (f_rcv s)) b))) = None"
    if n: "\<not> f_overflow s" and b: "b \<in> set (f_wire s)" for b
  proof -
    have "length b \<le> sum_list (map length (f_wire s))"
      using b by (simp add: member_le_sum_list)
    then have "rw_size (pr_rw (c_pipe (f_rcv s))) + length b \<le> W"
      using inv n by (simp add: flow_inv_def round_trip_def)
    moreover have "b \<noteq> []" using inv b by (simp add: flow_inv_def)
    ultimately show ?thesis
      using inv ring.write_fits [of "pr_rw (c_pipe (f_rcv s))" b]
      by (auto simp: flow_inv_def pr_Write_def)
  qed
  with inv held show ?thesis by (simp add: flow_inv_def flow_open_def)
qed

theorem flow_window_respected_witness:
  "flow_reachable 2 2 7 flow_part \<and> unat (sv_writed (f_sv flow_part)) \<le> 2
   \<and> length (flow_held flow_part) \<le> 2"
  using flow_window_respected [OF flow_part_reachable] flow_part_reachable by simp

text \<open>
  C32: when \<open>Confirm\<close> reports an overflow between two correct ends, nothing has overflowed:
  every byte sent had been read and confirmed, exactly once.  The comparison in the code is
  \<open>>=\<close>, so two confirmations that add up to the whole window end the channel.
\<close>

theorem flow_overflow_is_spurious:
  assumes "flow_reachable W V cid s" "W < 2 ^ 32" "f_overflow s"
  shows "round_trip s = 0 \<and> unat (sv_writed (f_sv s)) = W
    \<and> f_written s = f_delivered s @ sv_b (f_sv s)"
proof -
  have inv: "flow_inv W s" using flow_reachable_inv [OF assms(1,2)] .
  then have rt: "round_trip s = 0" "unat (sv_writed (f_sv s)) = W"
    using assms(3) by (simp_all add: flow_inv_def)
  have "flow_held s = []" using rt(1) by (simp add: rw_contents_empty_iff round_trip_def)
  moreover have "concat (f_wire s) = []" using rt(1) by (auto simp: round_trip_def)
  ultimately show ?thesis using inv rt by (simp add: flow_inv_def)
qed

theorem flow_overflow_is_spurious_witness:
  "flow_reachable 2 2 7 flow_spurious \<and> f_overflow flow_spurious
   \<and> f_written flow_spurious = [1, 2] \<and> f_delivered flow_spurious = [1, 2]
   \<and> round_trip flow_spurious = 0"
  using flow_overflow_is_spurious [OF flow_spurious_reachable] flow_spurious_reachable
  by (simp add: flow_spurious_def)

text \<open>
  C2: the two ends never deadlock.  From every reachable state, with a window of at least one
  byte, some schedule of the goroutines and readers delivers everything written so far,
  unless it meets the false overflow of \<open>Confirm\<close>.
\<close>

theorem flow_no_deadlock:
  assumes "flow_reachable W V cid s" "\<not> f_overflow s" "0 < W" "W < 2 ^ 32"
  shows "\<exists>t. flow_step\<^sup>*\<^sup>* s t \<and> f_written t = f_written s
    \<and> (f_overflow t \<or> f_delivered t = f_written t)"
  using flow_drain [OF assms(3,4) flow_reachable_inv [OF assms(1,4)] assms(2)] .

theorem flow_no_deadlock_witness:
  "flow_reachable 2 2 7 flow_part \<and> f_delivered flow_part = [1]
   \<and> (\<exists>t. flow_step\<^sup>*\<^sup>* flow_part t \<and> f_written t = [1, 2, 3]
        \<and> (f_overflow t \<or> f_delivered t = f_written t))"
  using flow_no_deadlock [OF flow_part_reachable flow_part_overflow] flow_part_reachable
  by (simp add: flow_part_def)

end
