(* ===== verification/Relay.thy ===== *)
theory Relay
  imports Prelude
begin

text \<open>
  The small routines that move bytes between two connections: \<open>Copy\<close> of \<open>pipe/io.go\<close>,
  \<open>ReadAll\<close> of \<open>internal/pipe/io.go\<close>, and the connection and listener of \<open>http.go\<close> that give the
  bytes already read back to another protocol.
\<close>

section \<open>Copy\<close>

text \<open>
  One turn of the loop: what \<open>src.Read\<close> returned and the error of the \<open>dst.Write\<close> that
  follows.  The result is what was written, the error and which side was closed first.
\<close>

datatype copy_end = SrcFailed | DstFailed

record copy_turn =
  cp_data :: bytes
  cp_read :: "gerr option"
  cp_write :: "gerr option"

fun Copy :: "copy_turn list \<Rightarrow> bytes \<times> (gerr \<times> copy_end) option" where
  "Copy [] = ([], None)"
| "Copy (t # ts) =
     (case cp_read t of
        Some e \<Rightarrow> ([], Some (e, SrcFailed))
      | None \<Rightarrow>
          (case cp_write t of
             Some e \<Rightarrow> ([], Some (e, DstFailed))
           | None \<Rightarrow> (case Copy ts of (out, e) \<Rightarrow> (cp_data t @ out, e))))"

text \<open>The turns before the first error.\<close>

definition copy_ok :: "copy_turn \<Rightarrow> bool" where
  "copy_ok t \<longleftrightarrow> cp_read t = None \<and> cp_write t = None"

text \<open>
  \<open>Copy\<close> relays what it reads in order until the first error, which it returns; bytes
  that a read returns together with its error are not written.
\<close>

theorem Copy_relays:
  "fst (Copy ts) = concat (map cp_data (takeWhile copy_ok ts))
   \<and> (snd (Copy ts) = None \<longleftrightarrow> (\<forall>t \<in> set ts. copy_ok t))"
  by (induction ts) (auto simp: copy_ok_def split: option.splits prod.splits)

section \<open>ReadAll\<close>

text \<open>
  The bytes read into a buffer of \<open>k\<close> bytes, the error and the rest; a stream that ends
  early is not an error unless it is empty.
\<close>

definition ReadAll :: "nat \<Rightarrow> bytes \<Rightarrow> bytes \<times> gerr option \<times> bytes" where
  "ReadAll k r =
     (case ReadFull k r of
        (b, e, r') \<Rightarrow> (b, if e = Some ErrUnexpectedEOF then None else e, r'))"

lemma ReadAll_nonempty: "r \<noteq> [] \<Longrightarrow> ReadAll k r = (take k r, None, drop k r)"
  by (auto simp: ReadAll_def ReadFull_def)

section \<open>The connection handed to another protocol\<close>

text \<open>
  \<open>httpConn\<close>: the bytes to give back and the rest of the connection.  \<open>m\<close> is the number
  of bytes that the connection has ready when it is asked.
\<close>

record http_conn =
  hc_b :: bytes
  hc_in :: bytes

definition hc_Read :: "http_conn \<Rightarrow> nat \<Rightarrow> nat \<Rightarrow> http_conn \<times> bytes \<times> gerr option" where
  "hc_Read c k m =
     (if hc_b c = [] then
        (if hc_in c = [] then (c, [], Some EOF)
         else (c\<lparr>hc_in := drop (min k m) (hc_in c)\<rparr>, take (min k m) (hc_in c), None))
      else (c\<lparr>hc_b := drop k (hc_b c)\<rparr>, take k (hc_b c), None))"

fun hc_reads :: "http_conn \<Rightarrow> (nat \<times> nat) list \<Rightarrow> http_conn \<times> bytes" where
  "hc_reads c [] = (c, [])"
| "hc_reads c ((k, m) # ks) =
     (case hc_Read c k m of
        (c, out, e) \<Rightarrow> (case hc_reads c ks of (c', out2) \<Rightarrow> (c', out @ out2)))"

text \<open>
  Whoever reads the wrapped connection, with buffers of any sizes, sees the bytes taken
  for the handshake first and then the rest of the connection, nothing lost and nothing
  twice.
\<close>

theorem http_conn_replays:
  "hc_b c @ hc_in c = snd (hc_reads c ks) @ hc_b (fst (hc_reads c ks)) @ hc_in (fst (hc_reads c ks))"
proof (induction c ks rule: hc_reads.induct)
  case (2 c k m ks)
  obtain c' out e where r: "hc_Read c k m = (c', out, e)" by (cases "hc_Read c k m") auto
  have "hc_b c @ hc_in c = out @ hc_b c' @ hc_in c'"
    using r by (auto simp: hc_Read_def split: if_splits)
  then show ?case using 2 [OF r [symmetric] refl] r by (auto split: prod.splits)
qed simp

text \<open>\<open>httpListner.Accept\<close>: which connection, or the error, for each ready case.\<close>

definition hl_Accept :: "'c option \<Rightarrow> bool \<Rightarrow> (gerr + 'c) list" where
  "hl_Accept waiting dn =
     (case waiting of None \<Rightarrow> [] | Some c \<Rightarrow> [Inr c]) @ (if dn then [Inl ErrServerClosed] else [])"

definition hl_Close :: "gerr option" where
  "hl_Close = None"

end
