(* ===== verification/BaseTransport.thy ===== *)
theory BaseTransport
  imports Protocol
begin

text \<open>
  \<open>base_transport.go\<close>: what the two transports share.  The Go channel \<open>ch\<close> of capacity 50
  is the list \<open>bt_ch\<close>; \<open>bt_late\<close> holds the frames of the goroutines that \<open>postWrite\<close> starts
  when it is full.  A \<open>select\<close> returns the list of its outcomes, one per case that is
  ready; the empty list means that it blocks.
\<close>

section \<open>State and small methods\<close>

record base_transport =
  bt_done :: bool
  bt_closed :: bool
  bt_conn_closed :: bool
  bt_window :: "32 word"
  bt_ch :: "bytes list"
  bt_late :: "bytes list"

definition ch_capacity :: nat where
  "ch_capacity = 50"

definition new_base_transport :: "32 word \<Rightarrow> base_transport" where
  "new_base_transport window =
     \<lparr>bt_done = False, bt_closed = False, bt_conn_closed = False, bt_window = window,
      bt_ch = [], bt_late = []\<rparr>"

definition bt_Close :: "base_transport \<Rightarrow> base_transport" where
  "bt_Close t =
     (if \<not> bt_closed t then t\<lparr>bt_closed := True, bt_done := True, bt_conn_closed := True\<rparr> else t)"

text \<open>The send case of a \<open>select\<close> and the case of the closed \<open>done\<close>.\<close>

definition ch_send :: "base_transport \<Rightarrow> bytes \<Rightarrow> base_transport list" where
  "ch_send t b = (if length (bt_ch t) < ch_capacity then [t\<lparr>bt_ch := bt_ch t @ [b]\<rparr>] else [])"

definition on_done :: "base_transport \<Rightarrow> base_transport list" where
  "on_done t = (if bt_done t then [t] else [])"

definition postWrite :: "base_transport \<Rightarrow> bytes \<Rightarrow> (base_transport \<times> bool) list" where
  "postWrite t b =
     (let now = map (\<lambda>t. (t, True)) (on_done t) @ map (\<lambda>t. (t, False)) (ch_send t b)
      in if now \<noteq> [] then now else [(t\<lparr>bt_late := bt_late t @ [b]\<rparr>, False)])"

text \<open>The goroutine of \<open>postWrite\<close> with the \<open>i\<close>-th frame that is waiting.\<close>

definition late_write :: "base_transport \<Rightarrow> nat \<Rightarrow> base_transport list" where
  "late_write t i =
     (if i < length (bt_late t) then
        let b = bt_late t ! i; t' = t\<lparr>bt_late := take i (bt_late t) @ drop (Suc i) (bt_late t)\<rparr>
        in on_done t' @ ch_send t' b
      else [])"

definition sendClose :: "base_transport \<Rightarrow> 64 word \<Rightarrow> base_transport list" where
  "sendClose t cid = on_done t @ ch_send t (close_frame cid)"

text \<open>
  \<open>onPong\<close>: the read loop has put the command into the first byte of its buffer; the reply
  is that byte and the four that follow it.  The results are the transport, the unread
  input and whether the loop must end.
\<close>

definition onPong :: "base_transport \<Rightarrow> bytes \<Rightarrow> (base_transport \<times> bytes \<times> bool) list" where
  "onPong t r =
     (case ReadFull 4 r of
        (_, Some e, r') \<Rightarrow> [(t, r', True)]
      | (p, None, r') \<Rightarrow> map (\<lambda>(t', _). (t', r', False)) (postWrite t (CommandPong # p)))"

text \<open>
  A closed transport has its \<open>done\<close> and its connection closed; queuing frames keeps this, and
  changes nothing but the queue and the frames that wait for it.
\<close>

definition base_ok :: "base_transport \<Rightarrow> bool" where
  "base_ok t \<longleftrightarrow> (bt_closed t \<longrightarrow> bt_done t \<and> bt_conn_closed t)"

lemma base_ok_new [simp]: "base_ok (new_base_transport win)"
  by (simp add: base_ok_def new_base_transport_def)

lemma base_ok_Close: "base_ok t \<Longrightarrow> base_ok (bt_Close t) \<and> bt_conn_closed (bt_Close t)"
  by (auto simp: base_ok_def bt_Close_def)

lemma ch_send_frame:
  "t' \<in> set (ch_send t b) \<Longrightarrow> t' = t\<lparr>bt_ch := bt_ch t @ [b]\<rparr> \<and> length (bt_ch t) < ch_capacity"
  by (auto simp: ch_send_def split: if_splits)

lemma sendClose_cases:
  "t' \<in> set (sendClose t cid) \<Longrightarrow>
    t' = t \<and> bt_done t \<or> t' = t\<lparr>bt_ch := bt_ch t @ [close_frame cid]\<rparr>"
  by (auto simp: sendClose_def on_done_def ch_send_def split: if_splits)

lemma postWrite_cases:
  "(t', exit) \<in> set (postWrite t b) \<Longrightarrow>
    t' = t \<and> exit \<and> bt_done t \<or> t' = t\<lparr>bt_ch := bt_ch t @ [b]\<rparr> \<and> \<not> exit
    \<or> t' = t\<lparr>bt_late := bt_late t @ [b]\<rparr> \<and> \<not> exit \<and> \<not> bt_done t"
  by (auto simp: postWrite_def on_done_def ch_send_def Let_def split: if_splits)

lemma base_ok_queue [simp]:
  "base_ok (t\<lparr>bt_ch := q\<rparr>) = base_ok t" "base_ok (t\<lparr>bt_late := l\<rparr>) = base_ok t"
  by (simp_all add: base_ok_def)

lemma base_ok_sends:
  assumes "base_ok t"
  shows "t' \<in> set (ch_send t b) \<Longrightarrow> base_ok t'" "t' \<in> set (sendClose t cid) \<Longrightarrow> base_ok t'"
    "(t', exit) \<in> set (postWrite t b) \<Longrightarrow> base_ok t'" "t' \<in> set (late_write t i) \<Longrightarrow> base_ok t'"
    "(t', r', exit) \<in> set (onPong t r) \<Longrightarrow> base_ok t'"
  using assms
  by (auto dest!: ch_send_frame sendClose_cases postWrite_cases
      simp: late_write_def on_done_def onPong_def Let_def split: prod.splits option.splits if_splits)

lemma bt_done_sends:
  "t' \<in> set (ch_send t b) \<Longrightarrow> bt_done t' = bt_done t" "t' \<in> set (sendClose t cid) \<Longrightarrow> bt_done t' = bt_done t"
  "(t', exit) \<in> set (postWrite t b) \<Longrightarrow> bt_done t' = bt_done t" "t' \<in> set (late_write t i) \<Longrightarrow> bt_done t' = bt_done t"
  "(t', r', exit) \<in> set (onPong t r) \<Longrightarrow> bt_done t' = bt_done t"
  by (auto dest!: ch_send_frame sendClose_cases postWrite_cases
      simp: late_write_def on_done_def onPong_def Let_def split: prod.splits option.splits if_splits)

text \<open>
  A pong is sent back whatever its id, so that two ends which both answer send one pong to and fro for ever; the
  document has ids for telling a question from its answer.
\<close>

lemma pong_always_returned:
  assumes "length p = 4" "\<not> bt_done t"
  shows "onPong t (p @ r) \<noteq> []"
    "(t', r', exit) \<in> set (onPong t (p @ r)) \<Longrightarrow> \<not> exit \<and> r' = r
      \<and> (t' = t\<lparr>bt_ch := bt_ch t @ [CommandPong # p]\<rparr> \<or> t' = t\<lparr>bt_late := bt_late t @ [CommandPong # p]\<rparr>)"
  using assms by (auto simp: onPong_def postWrite_def on_done_def ch_send_def Let_def split: if_splits)

section \<open>servePing\<close>

text \<open>
  The local variables of \<open>servePing\<close> in nanoseconds: when the connection was last active and
  when the timer fires next.
\<close>

record ping_state =
  pg_at :: int
  pg_timer :: int

datatype ping_event = PgTimer int | PgActive int

definition ping_start :: "int \<Rightarrow> int \<Rightarrow> ping_state" where
  "ping_start now duration = \<lparr>pg_at = now, pg_timer = now + duration\<rparr>"

text \<open>
  One turn of the loop: the state afterwards and whether a ping is queued.  A timer does not
  fire before its time, and a ping that is due is queued at the time of the tick.
\<close>

fun ping_turn :: "int \<Rightarrow> ping_state \<Rightarrow> ping_event \<Rightarrow> (ping_state \<times> bool) option" where
  "ping_turn duration p (PgTimer now) =
     (if now < pg_timer p then None
      else
        let wait = now - pg_at p - duration in
        if wait > 0 then Some (p\<lparr>pg_timer := now + wait\<rparr>, False)
        else Some (p\<lparr>pg_at := now, pg_timer := now + duration\<rparr>, True))"
| "ping_turn duration p (PgActive now) = Some (p\<lparr>pg_at := now\<rparr>, False)"

fun ping_run :: "int \<Rightarrow> ping_state \<Rightarrow> ping_event list \<Rightarrow> (ping_state \<times> nat) option" where
  "ping_run duration p [] = Some (p, 0)"
| "ping_run duration p (ev # evs) =
     (case ping_turn duration p ev of
        None \<Rightarrow> None
      | Some (p', sent) \<Rightarrow>
          map_option (\<lambda>(q, n). (q, (if sent then 1 else 0) + n)) (ping_run duration p' evs))"

lemma ping_idle_run:
  "ping_run duration p evs = Some (q, n) \<Longrightarrow>
    (\<forall>ev \<in> set evs. \<exists>now > pg_at p + duration. ev = PgTimer now) \<Longrightarrow> n = 0"
proof (induction evs arbitrary: p n)
  case (Cons ev evs)
  then obtain now where ev: "ev = PgTimer now" "now > pg_at p + duration" by auto
  let ?p = "p\<lparr>pg_timer := now + (now - pg_at p - duration)\<rparr>"
  have "ping_turn duration p ev = Some (?p, False)"
    using Cons(2) ev by (auto simp: Let_def split: if_splits)
  then have "ping_run duration ?p evs = Some (q, n)"
    using Cons(2) by auto
  then show ?case using Cons(1) [of ?p] Cons(3) by simp
qed simp

text \<open>
  C34: the keep-alive condition is inverted.  While nothing arrives and nothing is sent, the
  timer goes off again and again and never queues a ping; a connection that was active less
  than the interval ago gets one at every tick.
\<close>

theorem ping_condition_inverted:
  assumes "0 < duration"
  shows "(\<forall>evs q n. ping_run duration (ping_start at duration) evs = Some (q, n) \<longrightarrow>
        (\<forall>ev \<in> set evs. \<exists>now > at + duration. ev = PgTimer now) \<longrightarrow> n = 0)
    \<and> (\<forall>p now. pg_timer p \<le> now \<and> now - pg_at p \<le> duration \<longrightarrow>
        (\<exists>p'. ping_turn duration p (PgTimer now) = Some (p', True)))"
proof -
  have "n = 0" if "ping_run duration (ping_start at duration) evs = Some (q, n)"
      "\<forall>ev \<in> set evs. \<exists>now > at + duration. ev = PgTimer now" for evs q n
    using ping_idle_run [OF that(1)] that(2) by (simp add: ping_start_def)
  then show ?thesis by auto
qed

theorem ping_condition_inverted_witness:
  "ping_run 30 (ping_start 0 30) [PgTimer 31, PgTimer 32, PgTimer 40]
     = Some (\<lparr>pg_at = 0, pg_timer = 50\<rparr>, 0)
   \<and> (\<exists>p'. ping_turn 30 \<lparr>pg_at = 25, pg_timer = 30\<rparr> (PgTimer 30) = Some (p', True))"
  using ping_condition_inverted [of 30 0] by (simp add: ping_start_def)

section \<open>serveWrite\<close>

text \<open>
  The buffered writer of the standard library with a buffer of \<open>sz\<close> bytes, as long as the
  connection accepts what is written: bytes on the connection and bytes in the buffer.
  Without a buffer every frame goes out at once.
\<close>

definition buf_Write :: "nat \<Rightarrow> bytes \<times> bytes \<Rightarrow> bytes \<Rightarrow> bytes \<times> bytes" where
  "buf_Write sz w p =
     (case w of (out, buf) \<Rightarrow>
        if sz = 0 then (out @ p, buf)
        else if length buf + length p \<le> sz then (out, buf @ p)
        else if buf = [] then (out @ p, [])
        else
          let n = sz - length buf; out = out @ buf @ take n p; p = drop n p
          in if length p \<le> sz then (out, p) else (out @ p, []))"

definition buf_Flush :: "bytes \<times> bytes \<Rightarrow> bytes \<times> bytes" where
  "buf_Flush w = (case w of (out, buf) \<Rightarrow> (out @ buf, []))"

datatype write_pc = WWait | WMerge | WExit

record write_state =
  ws_pc :: write_pc
  ws_buf :: "bytes \<times> bytes"

definition write_start :: write_state where
  "write_start = \<lparr>ws_pc = WWait, ws_buf = ([], [])\<rparr>"

text \<open>
  Every way out of \<open>serveWrite\<close> closes the connection and leaves \<open>done\<close> as it is.  A failing write
  loses what the buffer and the frame still hold, after some part of it went out.
\<close>

inductive write_step ::
    "nat \<Rightarrow> base_transport \<times> write_state \<Rightarrow> base_transport \<times> write_state \<Rightarrow> bool"
    for sz where
  w_take: "ws_pc w = WWait \<or> ws_pc w = WMerge \<Longrightarrow> bt_ch t = b # bs \<Longrightarrow>
     write_step sz (t, w)
       (t\<lparr>bt_ch := bs\<rparr>, w\<lparr>ws_buf := buf_Write sz (ws_buf w) b, ws_pc := WMerge\<rparr>)"
| w_flush: "ws_pc w = WMerge \<Longrightarrow> bt_ch t = [] \<Longrightarrow> \<not> bt_done t \<Longrightarrow>
     write_step sz (t, w)
       (t, w\<lparr>ws_buf := (if sz > 0 then buf_Flush (ws_buf w) else ws_buf w), ws_pc := WWait\<rparr>)"
| w_done: "ws_pc w \<noteq> WExit \<Longrightarrow> bt_done t \<Longrightarrow>
     write_step sz (t, w) (t\<lparr>bt_conn_closed := True\<rparr>, w\<lparr>ws_pc := WExit\<rparr>)"
| w_fail: "ws_pc w = WWait \<or> ws_pc w = WMerge \<Longrightarrow> bt_ch t = b # bs \<Longrightarrow>
     snd (ws_buf w) @ b = lost1 @ lost2 \<Longrightarrow>
     write_step sz (t, w)
       (t\<lparr>bt_ch := bs, bt_conn_closed := True\<rparr>,
        w\<lparr>ws_buf := (fst (ws_buf w) @ lost1, []), ws_pc := WExit\<rparr>)"
| w_fail_flush: "ws_pc w = WMerge \<Longrightarrow> sz > 0 \<Longrightarrow> bt_ch t = [] \<Longrightarrow> \<not> bt_done t \<Longrightarrow>
     snd (ws_buf w) = lost1 @ lost2 \<Longrightarrow>
     write_step sz (t, w)
       (t\<lparr>bt_conn_closed := True\<rparr>, w\<lparr>ws_buf := (fst (ws_buf w) @ lost1, []), ws_pc := WExit\<rparr>)"

text \<open>
  The writer beside the goroutines that send frames; the ghost list records the frames that
  the Go channel accepted.  The third rule is \<open>Close\<close>.
\<close>

inductive wr_reachable :: "nat \<Rightarrow> base_transport \<times> write_state \<Rightarrow> bytes list \<Rightarrow> bool" for sz where
  wr_start: "wr_reachable sz (new_base_transport win, write_start) []"
| wr_send: "wr_reachable sz (t, w) fs \<Longrightarrow> t' \<in> set (ch_send t f) \<Longrightarrow>
     wr_reachable sz (t', w) (fs @ [f])"
| wr_close: "wr_reachable sz (t, w) fs \<Longrightarrow> wr_reachable sz (bt_Close t, w) fs"
| wr_write: "wr_reachable sz (t, w) fs \<Longrightarrow> write_step sz (t, w) s \<Longrightarrow> wr_reachable sz s fs"

lemma buf_Write_out:
  "fst (buf_Write sz w p) @ snd (buf_Write sz w p) = fst w @ snd w @ p"
  if "sz = 0 \<Longrightarrow> snd w = []"
  using that by (cases w) (auto simp: buf_Write_def Let_def)

lemma buf_Flush_eq: "buf_Flush w = (fst w @ snd w, [])"
  by (cases w) (simp add: buf_Flush_def)

lemma buf_Write_empty: "sz = 0 \<Longrightarrow> snd w = [] \<Longrightarrow> snd (buf_Write sz w p) = []"
  by (cases w) (simp add: buf_Write_def)

definition wr_inv :: "nat \<Rightarrow> base_transport \<times> write_state \<Rightarrow> bytes list \<Rightarrow> bool" where
  "wr_inv sz s fs \<longleftrightarrow>
     (case s of (t, w) \<Rightarrow>
        length (bt_ch t) \<le> ch_capacity
        \<and> (sz = 0 \<longrightarrow> snd (ws_buf w) = [])
        \<and> (ws_pc w = WWait \<longrightarrow> snd (ws_buf w) = [])
        \<and> (if ws_pc w = WExit
           then \<exists>rest. concat fs = fst (ws_buf w) @ rest
           else concat fs = fst (ws_buf w) @ snd (ws_buf w) @ concat (bt_ch t))
        \<and> (ws_pc w = WExit \<longrightarrow> bt_conn_closed t))"

lemma wr_inv_step: "write_step sz (t, w) s \<Longrightarrow> wr_inv sz (t, w) fs \<Longrightarrow> wr_inv sz s fs"
proof (induction "(t, w)" s rule: write_step.induct)
  case (w_take b bs)
  then have "concat fs = fst (ws_buf w) @ snd (ws_buf w) @ b @ concat bs"
    by (auto simp: wr_inv_def)
  moreover have "sz = 0 \<Longrightarrow> snd (ws_buf w) = []" using w_take by (simp add: wr_inv_def)
  ultimately have "concat fs = fst (buf_Write sz (ws_buf w) b) @ snd (buf_Write sz (ws_buf w) b) @ concat bs"
    using buf_Write_out [of sz "ws_buf w" b] by (metis append.assoc)
  then show ?case using w_take by (auto simp: wr_inv_def buf_Write_empty)
next
  case w_flush
  then show ?case by (cases "ws_buf w") (auto simp: wr_inv_def buf_Flush_def)
next
  case (w_fail b bs lost1 lost2)
  then have "concat fs = (fst (ws_buf w) @ lost1) @ lost2 @ concat bs"
    by (auto simp: wr_inv_def)
  then show ?case using w_fail by (simp add: wr_inv_def)
qed (auto simp: wr_inv_def)

lemma wr_reachable_inv: "wr_reachable sz s fs \<Longrightarrow> wr_inv sz s fs"
proof (induction rule: wr_reachable.induct)
  case wr_start show ?case by (simp add: wr_inv_def new_base_transport_def write_start_def)
next
  case wr_send then show ?case by (auto simp: wr_inv_def ch_send_def split: if_splits)
next
  case wr_close then show ?case by (auto simp: wr_inv_def bt_Close_def split: if_splits)
next
  case wr_write then show ?case by (blast intro: wr_inv_step)
qed

text \<open>
  The writer keeps the order of the frames and loses none while it runs: what is on the
  connection is always a prefix of the frames that were queued, and whenever the writer
  goes to sleep nothing is left in its buffer, whatever the buffer size and the batching.
\<close>

theorem writer_stream:
  assumes "wr_reachable sz (t, w) fs"
  shows "(\<exists>rest. concat fs = fst (ws_buf w) @ rest)
    \<and> (ws_pc w = WWait \<longrightarrow> concat fs = fst (ws_buf w) @ concat (bt_ch t))"
  using wr_reachable_inv [OF assms] by (auto simp: wr_inv_def split: if_splits)

definition two_frames :: "base_transport \<times> write_state" where
  "two_frames = (new_base_transport 8, \<lparr>ws_pc = WWait, ws_buf = (close_frame 1 @ close_frame 2, [])\<rparr>)"

lemma two_frames_reachable: "wr_reachable 12 two_frames [close_frame 1, close_frame 2]"
proof -
  let ?t = "new_base_transport 8" and ?f1 = "close_frame 1" and ?f2 = "close_frame 2"
  have 1: "wr_reachable 12 (?t\<lparr>bt_ch := [?f1]\<rparr>, write_start) ([] @ [?f1])"
    by (rule wr_send [OF wr_start]) (simp add: ch_send_def new_base_transport_def ch_capacity_def)
  have 2: "wr_reachable 12 (?t\<lparr>bt_ch := [?f1, ?f2]\<rparr>, write_start) (([] @ [?f1]) @ [?f2])"
    by (rule wr_send [OF 1]) (simp add: ch_send_def new_base_transport_def ch_capacity_def)
  let ?w = "write_start\<lparr>ws_buf := buf_Write 12 ([], []) ?f1, ws_pc := WMerge\<rparr>"
  have 3: "wr_reachable 12 (?t\<lparr>bt_ch := [?f2]\<rparr>, ?w) (([] @ [?f1]) @ [?f2])"
    by (rule wr_write [OF 2]) (use w_take [of write_start "?t\<lparr>bt_ch := [?f1, ?f2]\<rparr>" ?f1 "[?f2]" 12]
      in \<open>simp add: write_start_def\<close>)
  let ?w2 = "?w\<lparr>ws_buf := buf_Write 12 (buf_Write 12 ([], []) ?f1) ?f2\<rparr>"
  have 4: "wr_reachable 12 (?t, ?w2) (([] @ [?f1]) @ [?f2])"
    by (rule wr_write [OF 3]) (use w_take [of ?w "?t\<lparr>bt_ch := [?f2]\<rparr>" ?f2 "[]" 12]
      in \<open>simp add: write_start_def new_base_transport_def\<close>)
  have 5: "wr_reachable 12 (?t, ?w2\<lparr>ws_buf := buf_Flush (ws_buf ?w2), ws_pc := WWait\<rparr>)
      (([] @ [?f1]) @ [?f2])"
    by (rule wr_write [OF 4]) (use w_flush [of ?w2 ?t 12] in \<open>simp add: new_base_transport_def\<close>)
  have "fst (buf_Flush (buf_Write 12 (buf_Write 12 ([], []) ?f1) ?f2)) = ?f1 @ ?f2"
      "snd (buf_Flush (buf_Write 12 (buf_Write 12 ([], []) ?f1) ?f2)) = []"
    using buf_Write_out [of 12 "buf_Write 12 ([], []) ?f1" ?f2] buf_Write_out [of 12 "([], [])" ?f1]
    by (simp_all add: buf_Flush_eq)
  then have "buf_Flush (buf_Write 12 (buf_Write 12 ([], []) ?f1) ?f2) = (?f1 @ ?f2, [])"
    by (metis prod.collapse)
  with 5 show ?thesis by (simp add: two_frames_def write_start_def)
qed

theorem writer_stream_witness:
  "wr_reachable 12 two_frames [close_frame 1, close_frame 2]
   \<and> (\<exists>rest. concat [close_frame 1, close_frame 2] = fst (ws_buf (snd two_frames)) @ rest)"
  using writer_stream [of 12 "fst two_frames" "snd two_frames" "[close_frame 1, close_frame 2]"]
    two_frames_reachable by simp

text \<open>
  When a write to the connection fails, the writer ends and closes the connection but
  leaves \<open>done\<close> open; from then on nobody takes frames, and after fifty more of them
  \<open>sendClose\<close> blocks, also in the read loop, which alone could close the transport.
\<close>

theorem writer_failure_blocks_senders:
  assumes "wr_reachable sz (t, w) fs" "ws_pc w = WExit" "\<not> bt_done t"
    and "length (bt_ch t) = ch_capacity"
  shows "bt_conn_closed t \<and> sendClose t cid = [] \<and> \<not> (\<exists>s. write_step sz (t, w) s)"
proof -
  have "\<not> write_step sz (t, w) s" for s
    using assms(2) by (auto elim: write_step.cases)
  then show ?thesis
    using wr_reachable_inv [OF assms(1)] assms
    by (simp add: wr_inv_def sendClose_def on_done_def ch_send_def)
qed

definition failed_writer :: write_state where
  "failed_writer = \<lparr>ws_pc = WExit, ws_buf = ([], [])\<rparr>"

definition failed_queue :: "nat \<Rightarrow> base_transport" where
  "failed_queue n =
     (new_base_transport 8)\<lparr>bt_ch := replicate n [1], bt_conn_closed := True\<rparr>"

lemma failed_writer_queue:
  "n \<le> ch_capacity \<Longrightarrow> wr_reachable 0 (failed_queue n, failed_writer) ([1] # replicate n [1])"
proof (induction n)
  case 0
  let ?t = "(new_base_transport 8)\<lparr>bt_ch := [[1]]\<rparr>"
  have "wr_reachable 0 (?t, write_start) ([] @ [[1]])"
    by (rule wr_send [OF wr_start]) (simp add: ch_send_def new_base_transport_def ch_capacity_def)
  moreover have "write_step 0 (?t, write_start)
      (?t\<lparr>bt_ch := [], bt_conn_closed := True\<rparr>,
       write_start\<lparr>ws_buf := (fst (ws_buf write_start) @ [], []), ws_pc := WExit\<rparr>)"
    by (rule w_fail [where b = "[1]" and ?lost2.0 = "[1]"]) (simp_all add: write_start_def)
  ultimately show ?case
    using wr_write by (fastforce simp: failed_writer_def write_start_def failed_queue_def)
next
  case (Suc n)
  have "wr_reachable 0 (failed_queue (Suc n), failed_writer) (([1] # replicate n [1]) @ [[1]])"
    by (rule wr_send [of 0 "failed_queue n"])
      (use Suc in \<open>simp_all add: ch_send_def failed_queue_def replicate_append_same\<close>)
  then show ?case by (simp add: replicate_append_same)
qed

theorem writer_failure_blocks_senders_witness:
  "sendClose (failed_queue 50) 3 = []"
proof -
  have r: "wr_reachable 0 (failed_queue 50, failed_writer) ([1] # replicate 50 [1])"
    using failed_writer_queue [of 50] by (simp add: ch_capacity_def)
  show ?thesis
    using writer_failure_blocks_senders [OF r, of 3]
    by (simp add: failed_writer_def failed_queue_def new_base_transport_def ch_capacity_def)
qed

end
