(* ===== verification/ChannelTable.thy ===== *)
theory ChannelTable
  imports Channel BaseTransport
begin

text \<open>
  What both transports do with their channels.  Channels are Go pointers: they live in a store
  from addresses to their fields, and a transport's table \<open>keys\<close> maps ids to addresses, so that
  two channels that had the same id one after the other stay apart.  The interface
  \<open>ioTransport\<close> of \<open>channel.go\<close> is a locale; both transports interpret it.
\<close>

section \<open>The store\<close>

type_synonym store = "nat \<Rightarrow> io_channel option"

definition store_update :: "store \<Rightarrow> nat \<Rightarrow> (io_channel \<Rightarrow> io_channel) \<Rightarrow> store" where
  "store_update h a f = h(a := map_option f (h a))"

lemma store_update_other [simp]: "b \<noteq> a \<Longrightarrow> store_update h a f b = h b"
  by (simp add: store_update_def)

lemma store_update_same [simp]: "store_update h a f a = map_option f (h a)"
  by (simp add: store_update_def)

text \<open>Every registered address holds an open or closed channel of the id it is registered for.\<close>

definition table_ok :: "(64 word \<rightharpoonup> nat) \<Rightarrow> store \<Rightarrow> nat \<Rightarrow> bool" where
  "table_ok keys h nx \<longleftrightarrow>
     (\<forall>i a. keys i = Some a \<longrightarrow> (\<exists>c. h a = Some c \<and> c_id c = i)) \<and> (\<forall>a. h a \<noteq> None \<longrightarrow> a < nx)
     \<and> finite (dom keys)"

lemma table_okE:
  assumes "table_ok keys h nx" "keys i = Some a"
  obtains c where "h a = Some c" "c_id c = i"
  using assms by (auto simp: table_ok_def)

lemma table_ok_less: "table_ok keys h nx \<Longrightarrow> h a = Some c \<Longrightarrow> a < nx"
  by (auto simp: table_ok_def)

lemma table_ok_inj: "table_ok keys h nx \<Longrightarrow> keys i = Some a \<Longrightarrow> keys j = Some a \<Longrightarrow> i = j"
  unfolding table_ok_def by (metis option.inject)

lemma table_ok_fresh: "table_ok keys h nx \<Longrightarrow> h nx = None"
  using table_ok_less [of keys h nx nx] by (cases "h nx") auto

lemma table_ok_insert:
  assumes "table_ok keys h nx" "c_id c = i"
  shows "table_ok (keys(i \<mapsto> nx)) (h(nx \<mapsto> c)) (Suc nx)"
proof -
  have "\<exists>c'. (h(nx \<mapsto> c)) a = Some c' \<and> c_id c' = j" if "(keys(i \<mapsto> nx)) j = Some a" for j a
  proof (cases "j = i")
    case True
    with that assms(2) show ?thesis by simp
  next
    case False
    with that obtain c' where "h a = Some c'" "c_id c' = j"
      using table_okE [OF assms(1), of j a] by auto
    moreover from this have "a \<noteq> nx" using table_ok_fresh [OF assms(1)] by auto
    ultimately show ?thesis by simp
  qed
  moreover have "a < Suc nx" if "(h(nx \<mapsto> c)) a = Some c'" for a c'
    using that table_ok_less [OF assms(1), of a c'] by (cases "a = nx") auto
  moreover have "finite (dom (keys(i \<mapsto> nx)))" using assms(1) by (simp add: table_ok_def)
  ultimately show ?thesis unfolding table_ok_def by blast
qed

lemma table_ok_delete: "table_ok keys h nx \<Longrightarrow> table_ok (keys(i := None)) h nx"
  by (auto simp: table_ok_def)

lemma table_ok_update:
  assumes "table_ok keys h nx" "\<And>c. c_id (f c) = c_id c"
  shows "table_ok keys (store_update h a f) nx"
proof -
  have "\<exists>c. store_update h a f b = Some c \<and> c_id c = i" if k: "keys i = Some b" for i b
  proof -
    obtain c where "h b = Some c" "c_id c = i" using table_okE [OF assms(1) k] .
    then show ?thesis using assms(2) by (cases "b = a") auto
  qed
  moreover have "b < nx" if "store_update h a f b = Some c" for b c
    using that table_ok_less [OF assms(1)] by (cases "b = a") auto
  ultimately show ?thesis using assms(1) unfolding table_ok_def by blast
qed

lemma c_id_ch_Close [simp]: "c_id (fst (ch_Close c)) = c_id c"
  by (simp add: ch_Close_def)

lemma c_id_ch_Pipe [simp]: "c_id (ch_Pipe c b) = c_id c"
  by (simp add: ch_Pipe_def split: prod.splits option.splits)

lemma c_id_Confirm: "(c', ovf) \<in> set (Confirm dn c v) \<Longrightarrow> c_id c' = c_id c"
  by (auto simp: Confirm_def Let_def split: if_splits option.splits)

lemma Confirm_returns: "Confirm dn c v \<noteq> []"
  by (auto simp: Confirm_def Let_def split: option.splits)

definition close_all :: "(64 word \<rightharpoonup> nat) \<Rightarrow> store \<Rightarrow> store" where
  "close_all keys h =
     (\<lambda>a. if a \<in> ran keys then map_option (\<lambda>c. fst (ch_Close c)) (h a) else h a)"

lemma ch_Close_closed: "c_closed (fst (ch_Close c))"
  by (simp add: ch_Close_def)

lemma close_all_closed: "keys i = Some a \<Longrightarrow> close_all keys h a = Some c \<Longrightarrow> c_closed c"
  by (auto simp: close_all_def ranI ch_Close_closed)

lemma table_ok_close_all: "table_ok keys h nx \<Longrightarrow> table_ok keys (close_all keys h) nx"
  by (fastforce simp: table_ok_def close_all_def ranI split: if_splits)

text \<open>The frames that the two goroutines of a channel write.\<close>

definition channel_frame :: "io_channel \<Rightarrow> bytes \<Rightarrow> bool" where
  "channel_frame c f \<longleftrightarrow>
     (\<exists>b. f = write_frame (c_id c) b \<and> b \<noteq> [] \<and> length b \<le> MaxUint16) \<or> (\<exists>n. f = confirm_frame (c_id c) n)"

lemma channel_frame_take:
  "send_size r w b \<noteq> 0 \<Longrightarrow> channel_frame c (write_frame (c_id c) (take (send_size r w b) b))"
  using send_size_bounds [of r w b] unfolding channel_frame_def
  by (intro disjI1 exI [of _ "take (send_size r w b) b"]) auto

lemma serve_step_frame: "serve_step dn (c, st) inp (Some f) s \<Longrightarrow> channel_frame c f"
  by (erule serve_step.cases) (simp_all add: channel_frame_take)

lemma ack_step_frame: "ack_step dn (c, st) (Some f) s \<Longrightarrow> channel_frame c f"
  by (erule ack_step.cases) (auto simp: channel_frame_def)

lemma table_ok_set:
  assumes "table_ok keys h nx" "h a = Some c" "c_id c' = c_id c"
  shows "table_ok keys (h(a \<mapsto> c')) nx"
proof -
  have "\<exists>d. (h(a \<mapsto> c')) b = Some d \<and> c_id d = i" if k: "keys i = Some b" for i b
    using table_okE [OF assms(1) k] assms(2,3) by (metis fun_upd_apply option.inject)
  then show ?thesis using assms unfolding table_ok_def by auto
qed

section \<open>Data for a channel\<close>

text \<open>A channel that has room for \<open>n\<close> bytes, and what a data frame makes of it.\<close>

definition has_room :: "io_channel \<Rightarrow> nat \<Rightarrow> bool" where
  "has_room c n \<longleftrightarrow> \<not> pr_closed (c_pipe c) \<and> rw_inv (pr_rw (c_pipe c))
     \<and> rw_size (pr_rw (c_pipe c)) + n \<le> rw_capacity (pr_rw (c_pipe c))"

abbreviation ch_held :: "io_channel \<Rightarrow> bytes" where
  "ch_held c \<equiv> rw_contents (pr_rw (c_pipe c))"

lemma ch_Pipe_room:
  assumes "has_room c (length b + n)"
  shows "has_room (ch_Pipe c b) n \<and> ch_held (ch_Pipe c b) = ch_held c @ b
    \<and> c_closed (ch_Pipe c b) = c_closed c"
proof -
  have "rw_inv (pr_rw (c_pipe c))" using assms by (simp add: has_room_def)
  then show ?thesis
  proof (cases rule: pr_Write_cases [where b = b])
    case full
    then show ?thesis
      using assms ring.write_fits [of "pr_rw (c_pipe c)" b] by (auto simp: has_room_def pr_Write_def)
  next
    case (stored rw)
    have "rw_size rw = rw_size (pr_rw (c_pipe c)) + length b"
      using stored by (metis length_append length_rw_contents)
    then show ?thesis using stored assms by (simp add: ch_Pipe_def has_room_def)
  next
    case closed
    then show ?thesis using assms by (simp add: has_room_def)
  qed
qed

lemma unat_of_nat_16: "n \<le> MaxUint16 \<Longrightarrow> unat (of_nat n :: 16 word) = n"
  by (simp add: unat_of_nat_le)

section \<open>Reading commands and queuing replies\<close>

lemma ReadFull_8_put [simp]: "ReadFull 8 (PutUint64 w @ r) = (PutUint64 w, None, r)"
  by (rule ReadFull_append) simp

lemma ReadFull_1_Cons [simp]: "ReadFull (Suc 0) (x # r) = ([x], None, r)"
  using ReadFull_append [of "[x]" "Suc 0" r] by simp

lemma ReadFull_shorter: "ReadFull k r = (b, e, r') \<Longrightarrow> length r' \<le> length r"
  by (drule ReadFull_length) simp

lemma ReadFull_shorter_Some:
  "ReadFull k r = (b, None, r') \<Longrightarrow> length r' = length r - k \<and> k \<le> length r"
  by (erule ReadFull_NoneE) simp

lemma onPong_shorter: "(base, r', exit) \<in> set (onPong b r) \<Longrightarrow> length r' \<le> length r"
  by (auto simp: onPong_def dest: ReadFull_shorter [OF sym] split: prod.splits option.splits)

lemma postWrite_returns: "postWrite t b \<noteq> []"
  by (simp add: postWrite_def Let_def)

lemma onPong_returns: "onPong t r \<noteq> []"
  by (simp add: onPong_def postWrite_returns split: prod.splits option.splits)

lemma sendClose_blocks: "sendClose t cid = [] \<longleftrightarrow> \<not> bt_done t \<and> length (bt_ch t) \<ge> ch_capacity"
  by (auto simp: sendClose_def on_done_def ch_send_def)

lemma late_write_conn: "t' \<in> set (late_write t i) \<Longrightarrow> bt_conn_closed t' = bt_conn_closed t"
  by (auto simp: late_write_def on_done_def ch_send_def Let_def split: if_splits)

section \<open>The interface\<close>

text \<open>
  \<open>lookup\<close> reads the table, \<open>delete\<close> is the method that a channel calls when it ends, and
  \<open>notices\<close> are the ids for which a close frame is on its way to the peer.
\<close>

locale io_transport =
  fixes lookup :: "'t \<Rightarrow> 64 word \<Rightarrow> nat option"
    and chan_id :: "'t \<Rightarrow> nat \<Rightarrow> 64 word option"
    and delete :: "'t \<Rightarrow> nat \<Rightarrow> 't"
    and notices :: "'t \<Rightarrow> 64 word list"
  assumes delete_own:
      "chan_id t a = Some i \<Longrightarrow> lookup t i = Some a \<Longrightarrow>
        lookup (delete t a) = (lookup t)(i := None) \<and> notices (delete t a) = notices t @ [i]"
    and delete_other:
      "chan_id t a = Some i \<Longrightarrow> lookup t i \<noteq> Some a \<Longrightarrow> delete t a = t"
    and chan_id_delete: "chan_id (delete t a) = chan_id t"
begin

lemma delete_absent:
  assumes "chan_id t a = Some i"
  shows "lookup (delete t a) i \<noteq> Some a"
  using assms delete_own [of t a i] delete_other [of t a i] by (cases "lookup t i = Some a") auto

lemma delete_twice:
  assumes "chan_id t a = Some i"
  shows "delete (delete t a) a = delete t a"
  using assms delete_absent [OF assms] by (simp add: delete_other chan_id_delete)

lemma delete_keeps_others:
  assumes "chan_id t a = Some i" "lookup t j = Some b" "b \<noteq> a"
  shows "lookup (delete t a) j = Some b"
  using assms delete_own [of t a i] delete_other [of t a i] by (cases "lookup t i = Some a") auto

text \<open>A list of channels that end one after the other: each sends at most one notice.\<close>

lemma fold_delete_notices:
  assumes "\<forall>a \<in> set as. chan_id t a \<noteq> None"
  shows "\<exists>is. notices (fold (\<lambda>a t. delete t a) as t) = notices t @ is \<and> length is \<le> length as"
  using assms
proof (induction as arbitrary: t)
  case (Cons a as)
  then obtain i where i: "chan_id t a = Some i" by auto
  define is1 where "is1 = (if lookup t i = Some a then [i] else [])"
  have 1: "notices (delete t a) = notices t @ is1" "length is1 \<le> 1"
    using delete_own [OF i] delete_other [OF i] by (auto simp: is1_def)
  obtain is2 where 2: "notices (fold (\<lambda>a t. delete t a) as (delete t a)) = notices (delete t a) @ is2"
      "length is2 \<le> length as"
    using Cons(1) [of "delete t a"] Cons(2) by (auto simp: chan_id_delete)
  show ?case using 1 2 by (intro exI [of _ "is1 @ is2"]) simp
qed simp

end

end
