(* ===== verification/ServerOptions.thy ===== *)
theory ServerOptions
  imports Prelude
begin

text \<open>
  \<open>server_options.go\<close> and the options of \<open>client_options.go\<close>: the option records, their defaults and
  the option functions, each a function from options to options.  \<open>NewServer\<close> and \<open>NewClient\<close>
  fold them over the defaults.  Objects behind Go interfaces are opaque: a reference is \<open>None\<close>
  for nil and otherwise names the object.  Durations are in nanoseconds.
\<close>

type_synonym go_ref = "nat option"

abbreviation (input) Second :: int where "Second \<equiv> 1000000000"

section \<open>Server\<close>

text \<open>\<open>HDefault\<close> is the package's own handler and \<open>DDefault\<close> its own dialer.\<close>

datatype handler_ref = HDefault | HUser nat
datatype dialer_ref = DDefault | DUser nat

record server_options =
  so_window :: "32 word"
  so_timeout :: int
  so_handler :: go_ref
  so_backend :: go_ref
  so_readBuffer :: int
  so_writeBuffer :: int
  so_channels :: int
  so_channelHandler :: handler_ref
  so_ping :: int
  so_tcpDialer :: dialer_ref
  so_hookURL :: go_ref
  so_hookDo :: go_ref

definition defaultServerOptions :: server_options where
  "defaultServerOptions =
     \<lparr>so_window = 32 * 1024, so_timeout = Second * 10, so_handler = None, so_backend = None,
      so_readBuffer = 4096, so_writeBuffer = 4096, so_channels = 0, so_channelHandler = HDefault,
      so_ping = 0, so_tcpDialer = DDefault, so_hookURL = None, so_hookDo = None\<rparr>"

type_synonym server_option = "server_options \<Rightarrow> server_options"

definition ServerWindow :: "32 word \<Rightarrow> server_option" where
  "ServerWindow window opts = (if window > 0 then opts\<lparr>so_window := window\<rparr> else opts)"

definition ServerHTTP :: "go_ref \<Rightarrow> server_option" where
  "ServerHTTP h opts = opts\<lparr>so_handler := h\<rparr>"

definition ServerHandler :: "go_ref \<Rightarrow> server_option" where
  "ServerHandler h opts =
     (case h of None \<Rightarrow> opts\<lparr>so_channelHandler := HDefault\<rparr>
      | Some h \<Rightarrow> opts\<lparr>so_channelHandler := HUser h\<rparr>)"

definition ServerBackend :: "go_ref \<Rightarrow> server_option" where
  "ServerBackend b opts = opts\<lparr>so_backend := b\<rparr>"

definition ServerTimeout :: "int \<Rightarrow> server_option" where
  "ServerTimeout timeout opts = opts\<lparr>so_timeout := timeout\<rparr>"

definition ServerReadBuffer :: "int \<Rightarrow> server_option" where
  "ServerReadBuffer n opts = opts\<lparr>so_readBuffer := n\<rparr>"

definition ServerWriteBuffer :: "int \<Rightarrow> server_option" where
  "ServerWriteBuffer n opts = opts\<lparr>so_writeBuffer := n\<rparr>"

definition ServerWriteBufferChannels :: "int \<Rightarrow> server_option" where
  "ServerWriteBufferChannels n opts = opts\<lparr>so_channels := n\<rparr>"

definition ServerPing :: "int \<Rightarrow> server_option" where
  "ServerPing ping opts = opts\<lparr>so_ping := ping\<rparr>"

definition ServerChannels :: "int \<Rightarrow> server_option" where
  "ServerChannels n opts = opts\<lparr>so_channels := n\<rparr>"

definition ServerTCPDialer :: "go_ref \<Rightarrow> server_option" where
  "ServerTCPDialer d opts =
     (case d of None \<Rightarrow> opts\<lparr>so_tcpDialer := DDefault\<rparr>
      | Some d \<Rightarrow> opts\<lparr>so_tcpDialer := DUser d\<rparr>)"

definition ServerHookURL :: "go_ref \<Rightarrow> server_option" where
  "ServerHookURL h opts = opts\<lparr>so_hookURL := h\<rparr>"

definition ServerHookDo :: "go_ref \<Rightarrow> server_option" where
  "ServerHookDo h opts = opts\<lparr>so_hookDo := h\<rparr>"

definition NewServer_opts :: "server_option list \<Rightarrow> server_options" where
  "NewServer_opts opt = fold (\<lambda>f opts. f opts) opt defaultServerOptions"

section \<open>Client\<close>

record client_options =
  co_window :: "32 word"
  co_readBuffer :: int
  co_writeBuffer :: int
  co_ping :: int
  co_dialer :: dialer_ref

definition defaultClientOptions :: client_options where
  "defaultClientOptions =
     \<lparr>co_window = 32 * 1024, co_readBuffer = 4096, co_writeBuffer = 4096, co_ping = 0,
      co_dialer = DDefault\<rparr>"

type_synonym client_option = "client_options \<Rightarrow> client_options"

definition WithWindow :: "32 word \<Rightarrow> client_option" where
  "WithWindow window opts = (if window > 0 then opts\<lparr>co_window := window\<rparr> else opts)"

definition WithReadBuffer :: "int \<Rightarrow> client_option" where
  "WithReadBuffer n opts = opts\<lparr>co_readBuffer := n\<rparr>"

definition WithWriteBuffer :: "int \<Rightarrow> client_option" where
  "WithWriteBuffer n opts = opts\<lparr>co_writeBuffer := n\<rparr>"

definition WithPing :: "int \<Rightarrow> client_option" where
  "WithPing ping opts = opts\<lparr>co_ping := ping\<rparr>"

definition WithDialer :: "dialer_ref \<Rightarrow> client_option" where
  "WithDialer d opts = opts\<lparr>co_dialer := d\<rparr>"

definition NewClient_opts :: "client_option list \<Rightarrow> client_options" where
  "NewClient_opts opt = fold (\<lambda>f opts. f opts) opt defaultClientOptions"

text \<open>The getters of the client.\<close>

definition Client_Window :: "client_options \<Rightarrow> 32 word" where "Client_Window opts = co_window opts"
definition Client_ReadBuffer :: "client_options \<Rightarrow> int" where "Client_ReadBuffer opts = co_readBuffer opts"
definition Client_WriteBuffer :: "client_options \<Rightarrow> int" where "Client_WriteBuffer opts = co_writeBuffer opts"
definition Client_Ping :: "client_options \<Rightarrow> int" where "Client_Ping opts = co_ping opts"
definition Client_Dialer :: "client_options \<Rightarrow> dialer_ref" where "Client_Dialer opts = co_dialer opts"

lemma last_client_option_wins:
  "Client_Window (NewClient_opts (os @ [WithWindow w])) = (if w = 0 then Client_Window (NewClient_opts os) else w)"
  "Client_ReadBuffer (NewClient_opts (os @ [WithReadBuffer n])) = n"
  "Client_WriteBuffer (NewClient_opts (os @ [WithWriteBuffer n])) = n"
  "Client_Ping (NewClient_opts (os @ [WithPing n])) = n"
  "Client_Dialer (NewClient_opts (os @ [WithDialer d])) = d"
  by (simp_all add: Client_Window_def Client_ReadBuffer_def Client_WriteBuffer_def Client_Ping_def Client_Dialer_def
      NewClient_opts_def WithWindow_def WithReadBuffer_def WithWriteBuffer_def WithPing_def WithDialer_def word_gt_0)

section \<open>The window is never zero\<close>

text \<open>
  A window of zero is refused by the peer's reader, and the option functions keep it out.
  Every option of the package is one of the following.
\<close>

inductive_set server_option_set :: "server_option set" where
  "ServerWindow w \<in> server_option_set" | "ServerHTTP h \<in> server_option_set"
| "ServerHandler h \<in> server_option_set" | "ServerBackend h \<in> server_option_set"
| "ServerTimeout n \<in> server_option_set" | "ServerReadBuffer n \<in> server_option_set"
| "ServerWriteBuffer n \<in> server_option_set" | "ServerWriteBufferChannels n \<in> server_option_set"
| "ServerPing n \<in> server_option_set" | "ServerChannels n \<in> server_option_set"
| "ServerTCPDialer h \<in> server_option_set" | "ServerHookURL h \<in> server_option_set"
| "ServerHookDo h \<in> server_option_set"

inductive_set client_option_set :: "client_option set" where
  "WithWindow w \<in> client_option_set" | "WithReadBuffer n \<in> client_option_set"
| "WithWriteBuffer n \<in> client_option_set" | "WithPing n \<in> client_option_set"
| "WithDialer d \<in> client_option_set"

lemma server_option_window:
  "f \<in> server_option_set \<Longrightarrow> so_window opts \<noteq> 0 \<Longrightarrow> so_window (f opts) \<noteq> 0"
  by (induction rule: server_option_set.induct)
    (auto simp: ServerWindow_def ServerHTTP_def ServerHandler_def ServerBackend_def ServerTimeout_def
      ServerReadBuffer_def ServerWriteBuffer_def ServerWriteBufferChannels_def ServerPing_def
      ServerChannels_def ServerTCPDialer_def ServerHookURL_def ServerHookDo_def split: option.splits)

lemma client_option_window:
  "f \<in> client_option_set \<Longrightarrow> co_window opts \<noteq> 0 \<Longrightarrow> co_window (f opts) \<noteq> 0"
  by (induction rule: client_option_set.induct)
    (auto simp: WithWindow_def WithReadBuffer_def WithWriteBuffer_def WithPing_def WithDialer_def)

lemma fold_server_options_window:
  "set opt \<subseteq> server_option_set \<Longrightarrow> so_window opts \<noteq> 0 \<Longrightarrow>
    so_window (fold (\<lambda>f opts. f opts) opt opts) \<noteq> 0"
  by (induction opt arbitrary: opts) (simp_all add: server_option_window)

lemma fold_client_options_window:
  "set opt \<subseteq> client_option_set \<Longrightarrow> co_window opts \<noteq> 0 \<Longrightarrow>
    co_window (fold (\<lambda>f opts. f opts) opt opts) \<noteq> 0"
  by (induction opt arbitrary: opts) (simp_all add: client_option_window)

text \<open>
  C35: whatever options a server or a client is built from, its window is not zero, so its
  hello is never refused by its own checks.
\<close>

theorem option_windows_positive:
  assumes "set opt \<subseteq> server_option_set" "set copt \<subseteq> client_option_set"
  shows "so_window (NewServer_opts opt) \<noteq> 0 \<and> co_window (NewClient_opts copt) \<noteq> 0"
  using fold_server_options_window [OF assms(1), of defaultServerOptions]
    fold_client_options_window [OF assms(2), of defaultClientOptions]
  by (simp add: NewServer_opts_def NewClient_opts_def defaultServerOptions_def defaultClientOptions_def)

theorem option_windows_positive_witness:
  "so_window (NewServer_opts [ServerWindow 0, ServerChannels 4]) \<noteq> 0
   \<and> co_window (NewClient_opts [WithWindow 0]) \<noteq> 0"
  by (rule option_windows_positive) (auto intro: server_option_set.intros client_option_set.intros)

end
