(* ===== verification/ServerTransport.thy ===== *)
theory ServerTransport
  imports ChannelTable ServerOptions
begin

text \<open>
  \<open>server_transport.go\<close>: the transport of one connection on the server.  Its read loop is a
  function from a state to the list of states that one turn can lead to, with the place it is
  at as a program counter: a turn ends where the code can be interrupted by another
  goroutine, that is at a lock, at a \<open>select\<close> or at a read.  The input is the list of the
  bytes that are still to arrive; its end is an error of the reader.
\<close>

section \<open>State\<close>

datatype server_pc =
    SCmd
  | SReply bytes
  | SWrite "64 word" nat nat
  | SSendClose "64 word"
  | SClean
  | SDone

record server_transport =
  st_base :: base_transport
  st_keys :: "64 word \<rightharpoonup> nat"
  st_heap :: store
  st_next :: nat
  st_handled :: "nat list"
  st_closing :: "64 word list"
  st_in :: bytes
  st_pc :: server_pc

definition newServerTransport :: "32 word \<Rightarrow> bytes \<Rightarrow> server_transport" where
  "newServerTransport remoteWindow inp =
     \<lparr>st_base = new_base_transport remoteWindow, st_keys = Map.empty, st_heap = Map.empty,
      st_next = 0, st_handled = [], st_closing = [], st_in = inp, st_pc = SCmd\<rparr>"

text \<open>The read buffer of the loop is the one of the handshake, of 256 bytes.\<close>

definition read_buffer_cap :: nat where
  "read_buffer_cap = 256"

section \<open>The read loop\<close>

text \<open>
  \<open>CommandCreate\<close> under the lock: a fresh id below the limit gets a channel, which is also given
  to the handler; the byte is the code of the reply.
\<close>

definition st_create :: "server_options \<Rightarrow> server_transport \<Rightarrow> 64 word \<Rightarrow> server_transport \<times> byte" where
  "st_create opts t cid =
     (if st_keys t cid \<noteq> None then (t, 1)
      else if so_channels opts > 0 \<and> int (card (dom (st_keys t))) \<ge> so_channels opts then (t, 2)
      else
        let val = newIOChannel cid (unat (so_window opts)) (unat (bt_window (st_base t)))
        in (t\<lparr>st_keys := (st_keys t)(cid \<mapsto> st_next t), st_heap := (st_heap t)(st_next t \<mapsto> val),
              st_next := Suc (st_next t), st_handled := st_handled t @ [st_next t]\<rparr>, 0))"

text \<open>\<open>CommandClose\<close> under the lock.\<close>

definition st_close_cmd :: "server_transport \<Rightarrow> 64 word \<Rightarrow> server_transport" where
  "st_close_cmd t cid =
     (case st_keys t cid of
        None \<Rightarrow> t
      | Some a \<Rightarrow> t\<lparr>st_heap := store_update (st_heap t) a (\<lambda>c. fst (ch_Close c)),
                    st_keys := (st_keys t)(cid := None)\<rparr>)"

text \<open>\<open>CommandWrite\<close>: the size of the buffer for the payload.\<close>

definition write_max :: "nat \<Rightarrow> nat" where
  "write_max sz =
     (if sz < read_buffer_cap then sz else if sz > 32 * 1024 then 32 * 1024 else sz)"

text \<open>
  One pass of the loop over the payload.  The local variable \<open>healthy\<close> starts out false and
  nothing sets it, so the branch that would send a close frame is not reached.
\<close>

definition st_write_pass :: "server_transport \<Rightarrow> 64 word \<Rightarrow> nat \<Rightarrow> nat \<Rightarrow> server_transport" where
  "st_write_pass t cid sz mx =
     (if sz = 0 then t\<lparr>st_pc := SCmd\<rparr>
      else
        let n = (if sz > mx then mx else sz) in
        case ReadFull n (st_in t) of
          (_, Some e, r) \<Rightarrow> t\<lparr>st_in := r, st_pc := SClean\<rparr>
        | (b, None, r) \<Rightarrow>
            let t = t\<lparr>st_in := r, st_pc := SWrite cid (sz - n) mx\<rparr> in
            (case st_keys t cid of
               Some a \<Rightarrow> t\<lparr>st_heap := store_update (st_heap t) a (\<lambda>c. ch_Pipe c b)\<rparr>
             | None \<Rightarrow> t))"

text \<open>\<open>CommandConfirm\<close>: an overflow or an unknown channel is answered by a close frame.\<close>

definition st_confirm :: "server_transport \<Rightarrow> 64 word \<Rightarrow> 16 word \<Rightarrow> server_transport list" where
  "st_confirm t cid val =
     (case st_keys t cid of
        None \<Rightarrow> [t\<lparr>st_pc := SSendClose cid\<rparr>]
      | Some a \<Rightarrow>
          (case st_heap t a of
             None \<Rightarrow> []
           | Some c \<Rightarrow>
               map (\<lambda>(c', overflow).
                  t\<lparr>st_heap := (st_heap t)(a \<mapsto> c'),
                    st_pc := (if overflow then SSendClose cid else SCmd)\<rparr>)
                 (Confirm (bt_done (st_base t)) c (ucast val))))"

text \<open>A turn that reads a command and its fixed fields.\<close>

definition st_command :: "server_options \<Rightarrow> server_transport \<Rightarrow> server_transport list" where
  "st_command opts t =
     (case ReadFull 1 (st_in t) of
        (_, Some e, r) \<Rightarrow> [t\<lparr>st_in := r, st_pc := SClean\<rparr>]
      | (c, None, r) \<Rightarrow>
          let cmd = hd c; t = t\<lparr>st_in := r\<rparr> in
          if cmd = CommandPing then [t]
          else if cmd = CommandPong then
            map (\<lambda>(base, r, exit).
                t\<lparr>st_base := base, st_in := r, st_pc := (if exit then SClean else SCmd)\<rparr>)
              (onPong (st_base t) r)
          else if cmd = CommandCreate then
            (case ReadFull 8 r of
               (_, Some e, r) \<Rightarrow> [t\<lparr>st_in := r, st_pc := SClean\<rparr>]
             | (b, None, r) \<Rightarrow>
                 let cid = Uint64 b; (t, code) = st_create opts t cid
                 in [t\<lparr>st_in := r, st_pc := SReply (create_reply cid code)\<rparr>])
          else if cmd = CommandClose then
            (case ReadFull 8 r of
               (_, Some e, r) \<Rightarrow> [t\<lparr>st_in := r, st_pc := SClean\<rparr>]
             | (b, None, r) \<Rightarrow> [(st_close_cmd t (Uint64 b))\<lparr>st_in := r\<rparr>])
          else if cmd = CommandWrite then
            (case ReadFull 10 r of
               (_, Some e, r) \<Rightarrow> [t\<lparr>st_in := r, st_pc := SClean\<rparr>]
             | (b, None, r) \<Rightarrow>
                 let sz = unat (Uint16 (drop 8 b))
                 in [t\<lparr>st_in := r, st_pc := SWrite (Uint64 b) sz (write_max sz)\<rparr>])
          else if cmd = CommandConfirm then
            (case ReadFull 10 r of
               (_, Some e, r) \<Rightarrow> [t\<lparr>st_in := r, st_pc := SClean\<rparr>]
             | (b, None, r) \<Rightarrow> st_confirm (t\<lparr>st_in := r\<rparr>) (Uint64 b) (Uint16 (drop 8 b)))
          else [t\<lparr>st_pc := SClean\<rparr>])"

text \<open>
  One turn from any place.  An empty list says that the loop is blocked.  The last two turns
  are the cleaning up behind the loop and the deferred \<open>Close\<close>.
\<close>

definition st_turn :: "server_options \<Rightarrow> server_transport \<Rightarrow> server_transport list" where
  "st_turn opts t =
     (case st_pc t of
        SCmd \<Rightarrow> st_command opts t
      | SReply data \<Rightarrow>
          map (\<lambda>(base, exit). t\<lparr>st_base := base, st_pc := (if exit then SClean else SCmd)\<rparr>)
            (postWrite (st_base t) data)
      | SWrite cid sz mx \<Rightarrow> [st_write_pass t cid sz mx]
      | SSendClose cid \<Rightarrow>
          map (\<lambda>base. t\<lparr>st_base := base, st_pc := SCmd\<rparr>) (sendClose (st_base t) cid)
      | SClean \<Rightarrow>
          [t\<lparr>st_heap := close_all (st_keys t) (st_heap t),
             st_base := bt_Close (st_base t), st_pc := SDone\<rparr>]
      | SDone \<Rightarrow> [])"

section \<open>The other goroutines\<close>

text \<open>
  A channel whose \<open>Serve\<close> ends closes itself and then calls \<open>delete\<close>, which compares
  pointers.  The close frame of a deleted channel is sent after the lock is released; until
  then its id is in \<open>st_closing\<close>.
\<close>

definition st_delete :: "server_transport \<Rightarrow> nat \<Rightarrow> server_transport" where
  "st_delete t a =
     (case st_heap t a of
        None \<Rightarrow> t
      | Some c \<Rightarrow>
          if st_keys t (c_id c) = Some a
          then t\<lparr>st_keys := (st_keys t)(c_id c := None), st_closing := st_closing t @ [c_id c]\<rparr>
          else t)"

definition st_send_closing :: "server_transport \<Rightarrow> nat \<Rightarrow> server_transport list" where
  "st_send_closing t i =
     (if i < length (st_closing t) then
        map (\<lambda>base. t\<lparr>st_base := base, st_closing := take i (st_closing t) @ drop (Suc i) (st_closing t)\<rparr>)
          (sendClose (st_base t) (st_closing t ! i))
      else [])"

text \<open>
  What the goroutines beside the read loop do: the user and the two goroutines of a channel change it,
  whatever they do, but neither its id nor that it is closed; a channel whose \<open>Serve\<close> ends closes itself and
  is deleted; \<open>Serve\<close>, \<open>serveConfirm\<close> and \<open>servePing\<close> queue frames; so do ended channels and delayed
  replies.
\<close>

inductive server_local :: "server_transport \<Rightarrow> server_transport \<Rightarrow> bool" where
  sl_user: "st_heap t a = Some c \<Longrightarrow> c_id c' = c_id c \<Longrightarrow> (c_closed c \<Longrightarrow> c_closed c') \<Longrightarrow>
     server_local t (t\<lparr>st_heap := (st_heap t)(a \<mapsto> c')\<rparr>)"
| sl_exit: "st_heap t a = Some c \<Longrightarrow>
     server_local t (st_delete (t\<lparr>st_heap := store_update (st_heap t) a (\<lambda>c. fst (ch_Close c))\<rparr>) a)"
| sl_frame: "st_heap t a = Some c \<Longrightarrow> channel_frame c f \<Longrightarrow>
     base \<in> set (ch_send (st_base t) f) \<Longrightarrow> server_local t (t\<lparr>st_base := base\<rparr>)"
| sl_ping: "base \<in> set (ch_send (st_base t) [CommandPing]) \<Longrightarrow> server_local t (t\<lparr>st_base := base\<rparr>)"
| sl_closing: "t' \<in> set (st_send_closing t i) \<Longrightarrow> server_local t t'"
| sl_late: "base \<in> set (late_write (st_base t) i) \<Longrightarrow> server_local t (t\<lparr>st_base := base\<rparr>)"

text \<open>The transport among its goroutines; the writer takes frames from the queue.\<close>

inductive server_step :: "server_options \<Rightarrow> server_transport \<Rightarrow> server_transport \<Rightarrow> bool" for opts where
  ss_turn: "t' \<in> set (st_turn opts t) \<Longrightarrow> server_step opts t t'"
| ss_local: "server_local t t' \<Longrightarrow> server_step opts t t'"
| ss_taken: "bt_ch (st_base t) = f # fs \<Longrightarrow>
     server_step opts t (t\<lparr>st_base := (st_base t)\<lparr>bt_ch := fs\<rparr>\<rparr>)"

inductive server_reachable ::
    "server_options \<Rightarrow> 32 word \<Rightarrow> bytes \<Rightarrow> server_transport \<Rightarrow> bool" for opts win inp where
  sr_start: "server_reachable opts win inp (newServerTransport win inp)"
| sr_step: "server_reachable opts win inp t \<Longrightarrow> server_step opts t t' \<Longrightarrow>
     server_reachable opts win inp t'"

section \<open>The invariant of the table\<close>

definition server_inv :: "server_options \<Rightarrow> server_transport \<Rightarrow> bool" where
  "server_inv opts t \<longleftrightarrow>
     table_ok (st_keys t) (st_heap t) (st_next t)
     \<and> st_handled t = [0..<st_next t]
     \<and> (so_channels opts > 0 \<longrightarrow> int (card (dom (st_keys t))) \<le> so_channels opts)
     \<and> (st_pc t = SDone \<longrightarrow>
          (\<forall>a \<in> ran (st_keys t). \<forall>c. st_heap t a = Some c \<longrightarrow> c_closed c)
          \<and> bt_conn_closed (st_base t))
     \<and> base_ok (st_base t)"

lemma server_inv_start: "server_inv opts (newServerTransport win inp)"
  by (simp add: server_inv_def newServerTransport_def table_ok_def)

lemma st_create_inv:
  assumes "server_inv opts t" "st_create opts t cid = (t', code)" "st_pc t \<noteq> SDone"
  shows "server_inv opts (t'\<lparr>st_in := r, st_pc := p\<rparr>) \<or> p = SDone"
proof (cases "st_keys t cid \<noteq> None
    \<or> so_channels opts > 0 \<and> int (card (dom (st_keys t))) \<ge> so_channels opts")
  case True
  then have "t' = t" using assms(2) by (auto simp: st_create_def split: if_splits)
  then show ?thesis using assms(1) by (simp add: server_inv_def)
next
  case False
  let ?c = "newIOChannel cid (unat (so_window opts)) (unat (bt_window (st_base t)))"
  have t': "t' = t\<lparr>st_keys := (st_keys t)(cid \<mapsto> st_next t), st_heap := (st_heap t)(st_next t \<mapsto> ?c),
      st_next := Suc (st_next t), st_handled := st_handled t @ [st_next t]\<rparr>"
    using assms(2) False by (auto simp: st_create_def Let_def split: if_splits)
  have "table_ok (st_keys t') (st_heap t') (st_next t')"
    using assms(1) by (simp add: t' server_inv_def table_ok_insert newIOChannel_def)
  moreover have "finite (dom (st_keys t))" using assms(1) by (simp add: server_inv_def table_ok_def)
  then have "int (card (dom (st_keys t'))) = int (card (dom (st_keys t))) + 1"
    using False by (simp add: t' domIff)
  ultimately show ?thesis
    using assms(1) False by (auto simp: server_inv_def t')
qed

text \<open>Changes that do not touch the table, for states that are not at the end of the loop.\<close>

lemma server_inv_cong:
  assumes "server_inv opts t" "st_keys t' = st_keys t" "st_heap t' = st_heap t"
    and "st_next t' = st_next t" "st_handled t' = st_handled t"
    and "st_pc t' = SDone \<Longrightarrow> st_pc t = SDone \<and> bt_conn_closed (st_base t')" "base_ok (st_base t')"
  shows "server_inv opts t'"
  using assms by (auto simp: server_inv_def)

lemma server_inv_base:
  assumes "server_inv opts t" "base_ok b" "p \<noteq> SDone"
  shows "server_inv opts (t\<lparr>st_base := b, st_in := r, st_pc := p\<rparr>)"
    "server_inv opts (t\<lparr>st_base := b, st_pc := p\<rparr>)"
  using assms by (auto simp: server_inv_def)

lemma server_inv_pc:
  "server_inv opts t \<Longrightarrow> p \<noteq> SDone \<Longrightarrow> server_inv opts (t\<lparr>st_in := r, st_pc := p\<rparr>)"
  "server_inv opts t \<Longrightarrow> p \<noteq> SDone \<Longrightarrow> server_inv opts (t\<lparr>st_pc := p\<rparr>)"
  by (auto simp: server_inv_def)

lemma server_inv_base_ok: "server_inv opts t \<Longrightarrow> base_ok (st_base t)"
  by (simp add: server_inv_def)

lemma server_inv_heap:
  assumes "server_inv opts t" "\<And>c. c_id (f c) = c_id c"
    and "st_pc t = SDone \<Longrightarrow> (\<And>c. c_closed c \<Longrightarrow> c_closed (f c))"
  shows "server_inv opts (t\<lparr>st_heap := store_update (st_heap t) a f\<rparr>)"
  using assms table_ok_update [of "st_keys t" "st_heap t" "st_next t" f a]
  by (auto simp: server_inv_def store_update_def)

lemma server_inv_remove:
  assumes "server_inv opts t"
  shows "server_inv opts (t\<lparr>st_keys := (st_keys t)(cid := None)\<rparr>)"
proof -
  have fin: "finite (dom (st_keys t))" using assms by (simp add: server_inv_def table_ok_def)
  have "card (dom ((st_keys t)(cid := None))) \<le> card (dom (st_keys t))"
    using fin by (simp add: card_Diff1_le)
  moreover have "ran ((st_keys t)(cid := None)) \<subseteq> ran (st_keys t)" by (auto simp: ran_def)
  ultimately show ?thesis
    using assms table_ok_delete [of "st_keys t"] unfolding server_inv_def by (auto; fastforce)
qed

lemma st_close_cmd_inv: "server_inv opts t \<Longrightarrow> server_inv opts (st_close_cmd t cid)"
  using server_inv_remove [OF server_inv_heap [of opts t "\<lambda>c. fst (ch_Close c)"]]
  by (auto simp: st_close_cmd_def ch_Close_closed split: option.splits)

lemma st_write_pass_inv:
  assumes "server_inv opts t" "st_pc t \<noteq> SDone"
  shows "server_inv opts (st_write_pass t cid sz mx)"
proof (cases "sz = 0")
  case True
  then show ?thesis using assms by (simp add: st_write_pass_def server_inv_pc)
next
  case False
  obtain b e r where rd: "ReadFull (if sz > mx then mx else sz) (st_in t) = (b, e, r)"
    by (cases "ReadFull (if sz > mx then mx else sz) (st_in t)") auto
  let ?t = "t\<lparr>st_in := r, st_pc := SWrite cid (sz - (if sz > mx then mx else sz)) mx\<rparr>"
  have u: "server_inv opts ?t" "server_inv opts (t\<lparr>st_in := r, st_pc := SClean\<rparr>)"
    using assms by (simp_all add: server_inv_pc)
  have "server_inv opts (?t\<lparr>st_heap := store_update (st_heap ?t) a (\<lambda>c. ch_Pipe c b)\<rparr>)" for a
    using u(1) by (rule server_inv_heap) simp_all
  then show ?thesis
    using False rd u by (auto simp: st_write_pass_def Let_def split: option.splits)
qed

lemma st_confirm_inv:
  assumes "server_inv opts t" "st_pc t \<noteq> SDone" "t' \<in> set (st_confirm t cid v)"
  shows "server_inv opts t'"
proof (cases "st_keys t cid")
  case None
  then show ?thesis using assms by (simp add: st_confirm_def server_inv_pc)
next
  case (Some a)
  then obtain c where h: "st_heap t a = Some c"
    using assms(3) by (cases "st_heap t a") (simp_all add: st_confirm_def)
  have "t' \<in> (\<lambda>(c', ovf). t\<lparr>st_heap := (st_heap t)(a \<mapsto> c'),
      st_pc := (if ovf then SSendClose cid else SCmd)\<rparr>)
      ` set (Confirm (bt_done (st_base t)) c (ucast v))"
    using assms(3) Some h by (simp add: st_confirm_def)
  with h obtain c' ovf where c: "st_heap t a = Some c"
      "(c', ovf) \<in> set (Confirm (bt_done (st_base t)) c (ucast v))"
      "t' = t\<lparr>st_heap := (st_heap t)(a \<mapsto> c'), st_pc := (if ovf then SSendClose cid else SCmd)\<rparr>"
    by auto
  let ?u = "t\<lparr>st_heap := store_update (st_heap t) a (\<lambda>x. c'\<lparr>c_id := c_id x\<rparr>)\<rparr>"
  have "server_inv opts ?u"
    using assms(1,2) by (intro server_inv_heap) auto
  moreover have "c'\<lparr>c_id := c_id c\<rparr> = c'" using c_id_Confirm [OF c(2)] by simp
  then have "?u = t\<lparr>st_heap := (st_heap t)(a \<mapsto> c')\<rparr>" using c(1) by (simp add: store_update_def)
  ultimately show ?thesis
    using c(3) by (auto simp: server_inv_pc dest: server_inv_pc(2) [of _ _ "SCmd"])
qed

lemma st_command_inv:
  assumes inv: "server_inv opts t" and pc: "st_pc t = SCmd" and t': "t' \<in> set (st_command opts t)"
  shows "server_inv opts t'"
proof -
  obtain c e r where rd: "ReadFull 1 (st_in t) = (c, e, r)" by (cases "ReadFull 1 (st_in t)") auto
  have pcD: "st_pc t \<noteq> SDone" using pc by simp
  have keep: "server_inv opts (t\<lparr>st_in := r, st_pc := p\<rparr>)" if "p \<noteq> SDone" for r p
    using inv by (rule server_inv_cong) (use that server_inv_base_ok [OF inv] in auto)
  have keep0: "server_inv opts (t\<lparr>st_in := r\<rparr>)" for r
    using inv by (rule server_inv_cong) (use pc server_inv_base_ok [OF inv] in auto)
  have stop: "server_inv opts ((t\<lparr>st_in := r\<rparr>)\<lparr>st_in := r', st_pc := SClean\<rparr>)" for r r'
    using keep [of SClean r'] by simp
  show ?thesis
  proof (cases e)
    case (Some x)
    then show ?thesis using t' rd keep by (auto simp: st_command_def)
  next
    case None
    consider "hd c = CommandPing" | "hd c = CommandPong" | "hd c = CommandCreate"
      | "hd c = CommandClose" | "hd c = CommandWrite" | "hd c = CommandConfirm"
      | "hd c \<notin> {1, 2, 3, 4, 5, 6}"
      by blast
    then show ?thesis
    proof cases
      case 1
      then show ?thesis using t' rd None keep0 by (simp add: st_command_def Let_def)
    next
      case 2
      then obtain base r' exit where "(base, r', exit) \<in> set (onPong (st_base t) r)"
          "t' = t\<lparr>st_base := base, st_in := r', st_pc := (if exit then SClean else SCmd)\<rparr>"
        using t' rd None by (auto simp: st_command_def Let_def)
      then show ?thesis
        using server_inv_base [OF inv] base_ok_sends(5) [OF server_inv_base_ok [OF inv]] by simp
    next
      case 3
      obtain b e' r' where rd': "ReadFull 8 r = (b, e', r')" by (cases "ReadFull 8 r") auto
      obtain u code where cr: "st_create opts (t\<lparr>st_in := r\<rparr>) (Uint64 b) = (u, code)"
        by (cases "st_create opts (t\<lparr>st_in := r\<rparr>) (Uint64 b)") auto
      show ?thesis
      proof (cases e')
        case None
        then have "t' = u\<lparr>st_in := r', st_pc := SReply (create_reply (Uint64 b) code)\<rparr>"
          using t' rd \<open>e = None\<close> 3 rd' cr by (simp add: st_command_def Let_def)
        then show ?thesis using st_create_inv [OF keep0 cr, where r = r'] pc by auto
      qed (use t' rd None 3 rd' stop in \<open>auto simp: st_command_def Let_def\<close>)
    next
      case 4
      obtain b e' r' where rd': "ReadFull 8 r = (b, e', r')" by (cases "ReadFull 8 r") auto
      have "server_inv opts (st_close_cmd (t\<lparr>st_in := r\<rparr>) (Uint64 b))"
        using keep0 by (rule st_close_cmd_inv)
      then have "server_inv opts ((st_close_cmd (t\<lparr>st_in := r\<rparr>) (Uint64 b))\<lparr>st_in := r'\<rparr>)"
        by (rule server_inv_cong) (use pc server_inv_base_ok [OF inv] in
          \<open>auto simp: st_close_cmd_def split: option.splits\<close>)
      then show ?thesis
        using t' rd None 4 rd' stop by (cases e') (auto simp: st_command_def Let_def)
    next
      case 5
      obtain b e' r' where rd': "ReadFull 10 r = (b, e', r')" by (cases "ReadFull 10 r") auto
      then show ?thesis
        using t' rd None 5 keep stop by (cases e') (auto simp: st_command_def Let_def)
    next
      case 6
      obtain b e' r' where rd': "ReadFull 10 r = (b, e', r')" by (cases "ReadFull 10 r") auto
      show ?thesis
      proof (cases e')
        case None
        then have "t' \<in> set (st_confirm (t\<lparr>st_in := r'\<rparr>) (Uint64 b) (Uint16 (drop 8 b)))"
          using t' rd \<open>e = None\<close> 6 rd' by (simp add: st_command_def Let_def)
        then show ?thesis using st_confirm_inv [OF keep0] pc by auto
      qed (use t' rd None 6 rd' stop in \<open>auto simp: st_command_def Let_def\<close>)
    next
      case 7
      then show ?thesis using t' rd None keep [of SClean r] by (simp add: st_command_def Let_def)
    qed
  qed
qed

lemma st_turn_inv:
  assumes inv: "server_inv opts t" and t': "t' \<in> set (st_turn opts t)"
  shows "server_inv opts t'"
proof (cases "st_pc t")
  case SCmd
  then show ?thesis using assms st_command_inv by (simp add: st_turn_def)
next
  case (SReply data)
  then obtain base exit where "(base, exit) \<in> set (postWrite (st_base t) data)"
      "t' = t\<lparr>st_base := base, st_pc := (if exit then SClean else SCmd)\<rparr>"
    using t' by (auto simp: st_turn_def)
  then show ?thesis
    using server_inv_base [OF inv] base_ok_sends(3) [OF server_inv_base_ok [OF inv]] by simp
next
  case (SWrite cid sz mx)
  then show ?thesis using t' st_write_pass_inv [OF inv] by (simp add: st_turn_def)
next
  case (SSendClose cid)
  then obtain base where "base \<in> set (sendClose (st_base t) cid)"
      "t' = t\<lparr>st_base := base, st_pc := SCmd\<rparr>"
    using t' by (auto simp: st_turn_def)
  then show ?thesis
    using server_inv_base [OF inv] base_ok_sends(2) [OF server_inv_base_ok [OF inv]] by simp
next
  case SClean
  then have "t' = t\<lparr>st_heap := close_all (st_keys t) (st_heap t),
      st_base := bt_Close (st_base t), st_pc := SDone\<rparr>"
    using t' by (simp add: st_turn_def)
  moreover have "c_closed c" if "a \<in> ran (st_keys t)" "close_all (st_keys t) (st_heap t) a = Some c" for a c
    using that close_all_closed by (auto simp: ran_def)
  ultimately show ?thesis
    using inv SClean base_ok_Close [of "st_base t"]
    by (auto simp: server_inv_def table_ok_close_all)
next
  case SDone
  then show ?thesis using t' by (simp add: st_turn_def)
qed

lemma st_send_closing_inv:
  assumes inv: "server_inv opts t" and t': "t' \<in> set (st_send_closing t i)"
  shows "server_inv opts t'"
proof -
  obtain base where b: "base \<in> set (sendClose (st_base t) (st_closing t ! i))"
      "t' = t\<lparr>st_base := base, st_closing := take i (st_closing t) @ drop (Suc i) (st_closing t)\<rparr>"
    using t' by (auto simp: st_send_closing_def split: if_splits)
  have "bt_conn_closed base = bt_conn_closed (st_base t)" using sendClose_cases [OF b(1)] by auto
  then show ?thesis
    using inv b base_ok_sends(2) [OF server_inv_base_ok [OF inv] b(1)] by (simp add: server_inv_def)
qed

lemma st_delete_inv: "server_inv opts t \<Longrightarrow> server_inv opts (st_delete t a)"
  using server_inv_remove [of opts t]
  by (auto simp: st_delete_def server_inv_def split: option.splits)

lemma server_inv_set_channel:
  assumes "server_inv opts t" "st_heap t a = Some c" "c_id c' = c_id c" "c_closed c \<Longrightarrow> c_closed c'"
  shows "server_inv opts (t\<lparr>st_heap := (st_heap t)(a \<mapsto> c')\<rparr>)"
proof -
  have "table_ok (st_keys t) ((st_heap t)(a \<mapsto> c')) (st_next t)"
    by (rule table_ok_set) (use assms in \<open>simp_all add: server_inv_def\<close>)
  then show ?thesis using assms by (auto simp: server_inv_def)
qed

lemma server_local_inv: "server_local t t' \<Longrightarrow> server_inv opts t \<Longrightarrow> server_inv opts t'"
proof (induction rule: server_local.induct)
  case sl_user then show ?case by (blast intro: server_inv_set_channel)
next
  case sl_exit then show ?case by (auto intro!: st_delete_inv server_inv_heap simp: ch_Close_closed)
next
  case (sl_frame t a c f base)
  then show ?case
    using base_ok_sends(1) [OF server_inv_base_ok, of opts t base f]
    by (auto simp: server_inv_def dest!: ch_send_frame)
next
  case (sl_ping base t)
  then show ?case
    using base_ok_sends(1) [OF server_inv_base_ok, of opts t base "[CommandPing]"]
    by (auto simp: server_inv_def dest!: ch_send_frame)
next
  case sl_closing then show ?case by (blast intro: st_send_closing_inv)
next
  case (sl_late base t i)
  then show ?case
    using base_ok_sends(4) [OF server_inv_base_ok, of opts t base i] late_write_conn
    by (auto simp: server_inv_def)
qed

lemma server_step_inv: "server_step opts t t' \<Longrightarrow> server_inv opts t \<Longrightarrow> server_inv opts t'"
proof (induction rule: server_step.induct)
  case ss_turn then show ?case by (blast intro: st_turn_inv)
next
  case ss_local then show ?case by (blast intro: server_local_inv)
next
  case ss_taken then show ?case by (auto simp: server_inv_def)
qed

lemma server_reachable_inv: "server_reachable opts win inp t \<Longrightarrow> server_inv opts t"
  by (induction rule: server_reachable.induct) (auto intro: server_inv_start server_step_inv)

section \<open>The interface to the channels\<close>

definition st_chan_id :: "server_transport \<Rightarrow> nat \<Rightarrow> 64 word option" where
  "st_chan_id t a = map_option c_id (st_heap t a)"

interpretation srv: io_transport st_keys st_chan_id st_delete st_closing
  by unfold_locales (auto simp: st_chan_id_def st_delete_def split: option.splits)

text \<open>
  A channel that ends removes itself from the table and nobody else: if its id has been
  taken over by a newer channel, or is gone, nothing happens and no close frame is sent,
  and ending twice is ending once.
\<close>

theorem server_delete_own_only:
  assumes "st_heap t a = Some c"
  shows "(st_keys t (c_id c) \<noteq> Some a \<longrightarrow> st_delete t a = t)
    \<and> st_delete (st_delete t a) a = st_delete t a
    \<and> (\<forall>j b. st_keys t j = Some b \<and> b \<noteq> a \<longrightarrow> st_keys (st_delete t a) j = Some b)
    \<and> (st_keys t (c_id c) = Some a \<longrightarrow> st_closing (st_delete t a) = st_closing t @ [c_id c])"
proof -
  have "st_chan_id t a = Some (c_id c)" using assms by (simp add: st_chan_id_def)
  then show ?thesis
    using srv.delete_other srv.delete_own srv.delete_twice srv.delete_keeps_others by blast
qed

text \<open>A transport whose id 5 has been taken over from channel 0 by channel 1.\<close>

definition reused_id :: server_transport where
  "reused_id =
     (newServerTransport 8 [])\<lparr>st_keys := [5 \<mapsto> 1],
       st_heap := [0 \<mapsto> fst (ch_Close (newIOChannel 5 8 8)), 1 \<mapsto> newIOChannel 5 8 8],
       st_next := 2, st_handled := [0, 1]\<rparr>"

theorem server_delete_own_only_witness:
  "st_delete reused_id 0 = reused_id \<and> st_keys reused_id 5 = Some 1"
  using server_delete_own_only [of reused_id 0 "fst (ch_Close (newIOChannel 5 8 8))"]
  by (simp add: reused_id_def newIOChannel_def)

text \<open>
  C9: the table stays within its limit: no run of the transport holds more channels than the
  option allows, every registered id leads to a channel of that id, and every channel ever
  created was given to the handler exactly once, in the order of creation.
\<close>

theorem server_table_bounded:
  assumes "server_reachable opts win inp t"
  shows "(so_channels opts > 0 \<longrightarrow> int (card (dom (st_keys t))) \<le> so_channels opts)
    \<and> (\<forall>i a. st_keys t i = Some a \<longrightarrow> (\<exists>c. st_heap t a = Some c \<and> c_id c = i))
    \<and> st_handled t = [0..<st_next t]"
  using server_reachable_inv [OF assms] by (simp add: server_inv_def table_ok_def)

text \<open>
  The answer to a create request is decided by the table alone: 1 for an id in use, 2 at
  the limit, else 0, and exactly then a new channel is registered and handed over.
\<close>

theorem server_create_reply:
  assumes "st_pc t = SCmd" "st_in t = create_request cid @ r"
    and "code = (if st_keys t cid \<noteq> None then 1
      else if so_channels opts > 0 \<and> int (card (dom (st_keys t))) \<ge> so_channels opts then 2 else 0)"
  shows "\<exists>t'. st_turn opts t = [t'] \<and> st_pc t' = SReply (create_reply cid code) \<and> st_in t' = r
    \<and> st_keys t' = (if code = 0 then (st_keys t)(cid \<mapsto> st_next t) else st_keys t)
    \<and> st_handled t' = (if code = 0 then st_handled t @ [st_next t] else st_handled t)"
  using assms
  by (auto simp: st_turn_def st_command_def create_request_def st_create_def Let_def)

theorem server_create_reply_witness:
  "\<exists>t'. st_turn defaultServerOptions (newServerTransport 8 (create_request 5 @ [])) = [t']
     \<and> st_pc t' = SReply (create_reply 5 0) \<and> st_keys t' = [5 \<mapsto> 0]"
  using server_create_reply [of "newServerTransport 8 (create_request 5 @ [])" 5 "[]" 0 defaultServerOptions]
  by (auto simp: newServerTransport_def defaultServerOptions_def)

section \<open>The loop ends and blocks only for a full queue\<close>

definition pc_weight :: "server_pc \<Rightarrow> nat" where
  "pc_weight p =
     (case p of SCmd \<Rightarrow> 2 | SReply _ \<Rightarrow> 3 | SWrite _ _ _ \<Rightarrow> 3 | SSendClose _ \<Rightarrow> 3
      | SClean \<Rightarrow> 1 | SDone \<Rightarrow> 0)"

definition server_measure :: "server_transport \<Rightarrow> nat" where
  "server_measure t = 2 * length (st_in t) + pc_weight (st_pc t)"

text \<open>The payload loop has a buffer whenever it has something to read.\<close>

definition pc_ok :: "server_pc \<Rightarrow> bool" where
  "pc_ok p = (case p of SWrite _ sz mx \<Rightarrow> sz \<noteq> 0 \<longrightarrow> mx \<noteq> 0 | _ \<Rightarrow> True)"

lemma st_confirm_cases:
  assumes "t' \<in> set (st_confirm t cid v)"
  shows "(st_pc t' = SCmd \<or> st_pc t' = SSendClose cid) \<and> st_in t' = st_in t"
  using assms by (auto simp: st_confirm_def split: option.splits)

lemma st_create_in: "st_create opts t cid = (t', code) \<Longrightarrow> st_in t' = st_in t"
  by (auto simp: st_create_def Let_def split: if_splits)

lemma st_command_decreases:
  assumes pc: "st_pc t = SCmd" and t': "t' \<in> set (st_command opts t)"
  shows "server_measure t' < server_measure t \<and> pc_ok (st_pc t')"
proof -
  obtain c e r where rd: "ReadFull 1 (st_in t) = (c, e, r)" by (cases "ReadFull 1 (st_in t)") auto
  show ?thesis
  proof (cases e)
    case (Some x)
    then show ?thesis using t' rd pc ReadFull_shorter [OF rd]
      by (auto simp: st_command_def server_measure_def pc_weight_def pc_ok_def)
  next
    case None
    then have r: "length (st_in t) = Suc (length r)"
      using ReadFull_shorter_Some [of 1 "st_in t" c r] rd by auto
    have down: "server_measure u < server_measure t"
      if "length (st_in u) \<le> length r" "pc_weight (st_pc u) \<le> 3" for u
      using that r pc by (simp add: server_measure_def pc_weight_def)
    have small: "pc_weight p \<le> 3" for p by (simp add: pc_weight_def split: server_pc.split)
    have wr: "pc_ok (SWrite i n (write_max n))" for i n
      by (simp add: pc_ok_def write_max_def)
    have "length (st_in t') \<le> length r \<and> pc_ok (st_pc t')"
    proof -
      consider "hd c = CommandPing" | "hd c = CommandPong" | "hd c = CommandCreate"
        | "hd c = CommandClose" | "hd c = CommandWrite" | "hd c = CommandConfirm"
        | "hd c \<notin> {1, 2, 3, 4, 5, 6}" by blast
      then show ?thesis
      proof cases
        case 2
        then show ?thesis using t' rd None onPong_shorter
          by (auto simp: st_command_def Let_def pc_ok_def)
      next
        case 3
        obtain b e' r' where rd': "ReadFull 8 r = (b, e', r')" by (cases "ReadFull 8 r") auto
        show ?thesis using t' rd None 3 rd' ReadFull_shorter [OF rd']
          by (auto simp: st_command_def Let_def pc_ok_def split: option.splits prod.splits)
      next
        case 4
        obtain b e' r' where rd': "ReadFull 8 r = (b, e', r')" by (cases "ReadFull 8 r") auto
        show ?thesis using t' rd None 4 rd' ReadFull_shorter [OF rd'] pc
          by (auto simp: st_command_def Let_def pc_ok_def st_close_cmd_def split: option.splits)
      next
        case 5
        obtain b e' r' where rd': "ReadFull 10 r = (b, e', r')" by (cases "ReadFull 10 r") auto
        show ?thesis using t' rd None 5 rd' ReadFull_shorter [OF rd'] wr
          by (auto simp: st_command_def Let_def pc_ok_def [of SClean] split: option.splits)
      next
        case 6
        obtain b e' r' where rd': "ReadFull 10 r = (b, e', r')" by (cases "ReadFull 10 r") auto
        show ?thesis
        proof (cases e')
          case None
          then have "t' \<in> set (st_confirm (t\<lparr>st_in := r'\<rparr>) (Uint64 b) (Uint16 (drop 8 b)))"
            using t' rd \<open>e = None\<close> 6 rd' by (simp add: st_command_def Let_def)
          from st_confirm_cases [OF this] show ?thesis
            using ReadFull_shorter [OF rd'] by (auto simp: pc_ok_def)
        qed (use t' rd None 6 rd' ReadFull_shorter [OF rd'] in
            \<open>auto simp: st_command_def Let_def pc_ok_def\<close>)
      qed (use t' rd None pc in \<open>auto simp: st_command_def Let_def pc_ok_def\<close>)
    qed
    then show ?thesis using down small by blast
  qed
qed

lemma st_turn_decreases:
  assumes ok: "pc_ok (st_pc t)" and t': "t' \<in> set (st_turn opts t)"
  shows "server_measure t' < server_measure t \<and> pc_ok (st_pc t')"
proof (cases "st_pc t")
  case SCmd
  then show ?thesis using st_command_decreases t' by (simp add: st_turn_def)
next
  case (SWrite cid sz mx)
  then have t': "t' = st_write_pass t cid sz mx" using t' by (simp add: st_turn_def)
  show ?thesis
  proof (cases "sz = 0")
    case False
    let ?n = "if sz > mx then mx else sz"
    have n: "0 < ?n" using ok SWrite False by (auto simp: pc_ok_def)
    obtain b e r where rd: "ReadFull ?n (st_in t) = (b, e, r)" by (cases "ReadFull ?n (st_in t)") auto
    show ?thesis
    proof (cases e)
      case None
      with rd have rd': "ReadFull ?n (st_in t) = (b, None, r)" by simp
      have "length r < length (st_in t)" using ReadFull_shorter_Some [OF rd'] n by linarith
      moreover have "st_in t' = r \<and> (\<exists>m. st_pc t' = SWrite cid m mx)"
        unfolding t' st_write_pass_def Let_def rd' using False by (auto split: option.splits)
      ultimately show ?thesis
        using ok SWrite n by (auto simp: server_measure_def pc_weight_def pc_ok_def split: if_splits)
    next
      case (Some x)
      then have "t' = t\<lparr>st_in := r, st_pc := SClean\<rparr>"
        unfolding t' st_write_pass_def Let_def rd using False by simp
      then show ?thesis
        using SWrite ReadFull_shorter [OF rd] by (simp add: server_measure_def pc_weight_def pc_ok_def)
    qed
  qed (use SWrite t' in \<open>simp add: st_write_pass_def server_measure_def pc_weight_def pc_ok_def\<close>)
qed (use t' in \<open>auto simp: st_turn_def server_measure_def pc_weight_def pc_ok_def split: if_splits\<close>)

lemma server_step_pc_ok: "server_step opts t t' \<Longrightarrow> pc_ok (st_pc t) \<Longrightarrow> pc_ok (st_pc t')"
  by (induction rule: server_step.induct)
    (auto dest: st_turn_decreases elim!: server_local.cases simp: st_delete_def st_send_closing_def
      split: option.splits if_splits)

lemma server_reachable_pc_ok: "server_reachable opts win inp t \<Longrightarrow> pc_ok (st_pc t)"
proof (induction rule: server_reachable.induct)
  case sr_start show ?case by (simp add: newServerTransport_def pc_ok_def)
qed (blast intro: server_step_pc_ok)

definition server_turn :: "server_options \<Rightarrow> server_transport \<Rightarrow> server_transport \<Rightarrow> bool" where
  "server_turn opts t t' \<longleftrightarrow> t' \<in> set (st_turn opts t)"

lemma server_turns_bounded:
  "(server_turn opts ^^ k) t t' \<Longrightarrow> pc_ok (st_pc t) \<Longrightarrow>
    k + server_measure t' \<le> server_measure t \<and> pc_ok (st_pc t')"
proof (induction k arbitrary: t')
  case (Suc k)
  from Suc(2) obtain u where "(server_turn opts ^^ k) t u" "server_turn opts u t'"
    by (rule relpowp_Suc_E)
  then have u: "(server_turn opts ^^ k) t u" "t' \<in> set (st_turn opts u)"
    by (simp_all add: server_turn_def)
  with Suc st_turn_decreases [of u t' opts] show ?case by fastforce
qed simp

lemma st_confirm_returns:
  "table_ok (st_keys t) (st_heap t) (st_next t) \<Longrightarrow> st_confirm t cid v \<noteq> []"
  using table_okE [of "st_keys t" "st_heap t" "st_next t" cid]
  by (fastforce simp: st_confirm_def Confirm_returns split: option.splits)

lemma st_command_returns:
  "table_ok (st_keys t) (st_heap t) (st_next t) \<Longrightarrow> st_command opts t \<noteq> []"
  by (auto simp: st_command_def Let_def onPong_returns st_confirm_returns
      split: prod.splits option.splits)

lemma st_turn_blocks:
  assumes "server_inv opts t"
  shows "st_turn opts t = [] \<longleftrightarrow> st_pc t = SDone
    \<or> (\<exists>cid. st_pc t = SSendClose cid) \<and> \<not> bt_done (st_base t) \<and> length (bt_ch (st_base t)) \<ge> ch_capacity"
  using assms st_command_returns [of t opts] postWrite_returns sendClose_blocks
  by (cases "st_pc t") (auto simp: st_turn_def server_inv_def)

text \<open>
  C21: the read loop cannot spin or hang on its input: from every reachable state a run of its
  turns is at most twice as long as the bytes still to arrive, plus three, and it can only
  be blocked at the end or on a close frame for which the queue has no room.
\<close>

theorem server_loop_ends:
  assumes "server_reachable opts win inp t"
  shows "(\<forall>k t'. (server_turn opts ^^ k) t t' \<longrightarrow> k \<le> 2 * length (st_in t) + 3)
    \<and> (st_turn opts t = [] \<longleftrightarrow> st_pc t = SDone
        \<or> (\<exists>cid. st_pc t = SSendClose cid) \<and> \<not> bt_done (st_base t)
           \<and> length (bt_ch (st_base t)) \<ge> ch_capacity)"
proof -
  have "server_measure t \<le> 2 * length (st_in t) + 3"
    by (simp add: server_measure_def pc_weight_def split: server_pc.split)
  then show ?thesis
    using server_turns_bounded [OF _ server_reachable_pc_ok [OF assms]]
      st_turn_blocks [OF server_reachable_inv [OF assms]]
    by (meson add_leD1 le_trans)
qed

theorem server_loop_ends_witness:
  "st_turn defaultServerOptions (newServerTransport 8 []) \<noteq> []
   \<and> \<not> (\<exists>t'. (server_turn defaultServerOptions ^^ 4) (newServerTransport 8 []) t')"
  using server_loop_ends [OF sr_start [of defaultServerOptions 8 "[]"]]
  by (fastforce simp: newServerTransport_def)

text \<open>
  When the loop is over, the connection is closed and so is every channel that was still
  registered.
\<close>

theorem server_cleanup:
  assumes "server_reachable opts win inp t" "st_pc t = SDone"
  shows "bt_conn_closed (st_base t)
    \<and> (\<forall>i a c. st_keys t i = Some a \<and> st_heap t a = Some c \<longrightarrow> c_closed c)"
  using server_reachable_inv [OF assms(1)] assms(2) by (auto simp: server_inv_def ran_def)

definition ended_server :: server_transport where
  "ended_server =
     (newServerTransport 8 [])\<lparr>st_base := bt_Close (new_base_transport 8), st_pc := SDone\<rparr>"

lemma ended_server_reachable: "server_reachable defaultServerOptions 8 [] ended_server"
proof -
  let ?o = defaultServerOptions and ?t0 = "newServerTransport 8 []"
  have "server_step ?o ?t0 (?t0\<lparr>st_pc := SClean\<rparr>)"
    by (rule ss_turn) (simp add: st_turn_def st_command_def newServerTransport_def ReadFull_def)
  then have 1: "server_reachable ?o 8 [] (?t0\<lparr>st_pc := SClean\<rparr>)" by (rule sr_step [OF sr_start])
  have "server_step ?o (?t0\<lparr>st_pc := SClean\<rparr>) ended_server"
    by (rule ss_turn) (auto simp: st_turn_def ended_server_def newServerTransport_def close_all_def)
  then show ?thesis by (rule sr_step [OF 1])
qed

theorem server_cleanup_witness:
  "server_reachable defaultServerOptions 8 [] ended_server \<and> bt_conn_closed (st_base ended_server)"
  using server_cleanup [OF ended_server_reachable] ended_server_reachable
  by (simp add: ended_server_def)

theorem server_table_bounded_witness:
  "server_reachable defaultServerOptions 8 [] ended_server
   \<and> st_handled ended_server = [0..<st_next ended_server]"
  using server_table_bounded [OF ended_server_reachable] ended_server_reachable by simp

section \<open>Data frames\<close>

lemma store_update_twice [simp]:
  "store_update (store_update h a f) a g = store_update h a (\<lambda>c. g (f c))"
  by (simp add: store_update_def option.map_comp comp_def)

lemma store_update_id [simp]: "store_update h a (\<lambda>c. c) = h"
  by (simp add: store_update_def option.map_ident)

text \<open>What the pieces \<open>ps\<close> of a payload make of the store, for a registered or an unknown channel.\<close>

definition pipe_pieces :: "nat option \<Rightarrow> bytes list \<Rightarrow> store \<Rightarrow> store" where
  "pipe_pieces a ps h = (case a of None \<Rightarrow> h | Some a \<Rightarrow> store_update h a (\<lambda>c. foldl ch_Pipe c ps))"

lemma pipe_pieces_simps [simp]:
  "pipe_pieces None ps h = h"
  "pipe_pieces (Some a) ps h = store_update h a (\<lambda>c. foldl ch_Pipe c ps)"
  by (simp_all add: pipe_pieces_def)

lemma pipe_pieces_Cons: "pipe_pieces a ps (pipe_pieces a [b] h) = pipe_pieces a (b # ps) h"
  by (cases a) simp_all

text \<open>The payload loop reads the whole payload and pipes it in pieces.\<close>

lemma write_run:
  assumes "st_pc t = SWrite cid (length p) mx" "length p \<noteq> 0 \<longrightarrow> mx \<noteq> 0" "st_in t = p @ r"
  shows "\<exists>k ps. (server_turn opts ^^ k) t
      (t\<lparr>st_in := r, st_pc := SCmd, st_heap := pipe_pieces (st_keys t cid) ps (st_heap t)\<rparr>) \<and> concat ps = p"
  using assms
proof (induction "length p" arbitrary: t p rule: less_induct)
  case less
  show ?case
  proof (cases "p = []")
    case True
    then have "st_turn opts t = [t\<lparr>st_in := r, st_pc := SCmd, st_heap := pipe_pieces (st_keys t cid) [] (st_heap t)\<rparr>]"
      using less by (cases "st_keys t cid") (simp_all add: st_turn_def st_write_pass_def)
    then have "(server_turn opts ^^ 1) t
        (t\<lparr>st_in := r, st_pc := SCmd, st_heap := pipe_pieces (st_keys t cid) [] (st_heap t)\<rparr>)"
      unfolding relpowp_1 by (simp add: server_turn_def)
    then show ?thesis using True by (metis concat.simps(1))
  next
    case False
    define n where "n = (if length p > mx then mx else length p)"
    have n: "0 < n" "n \<le> length p" using less False by (auto simp: n_def)
    let ?u = "t\<lparr>st_in := drop n p @ r, st_pc := SWrite cid (length (drop n p)) mx,
      st_heap := pipe_pieces (st_keys t cid) [take n p] (st_heap t)\<rparr>"
    have rd: "ReadFull n (st_in t) = (take n p, None, drop n p @ r)"
      using n less ReadFull_append [of "take n p" n "drop n p @ r"] by (simp flip: append_assoc)
    have "st_turn opts t = [?u]"
      using less False rd
      by (cases "st_keys t cid") (simp_all add: st_turn_def st_write_pass_def n_def [symmetric] Let_def)
    then have step: "server_turn opts t ?u" by (simp add: server_turn_def)
    have "\<exists>k ps. (server_turn opts ^^ k) ?u
        (?u\<lparr>st_in := r, st_pc := SCmd, st_heap := pipe_pieces (st_keys ?u cid) ps (st_heap ?u)\<rparr>)
        \<and> concat ps = drop n p"
      using n less.prems by (intro less.hyps) auto
    then obtain k ps where run: "(server_turn opts ^^ k) ?u
        (t\<lparr>st_in := r, st_pc := SCmd, st_heap := pipe_pieces (st_keys t cid) (take n p # ps) (st_heap t)\<rparr>)"
        "concat ps = drop n p"
      using pipe_pieces_Cons [of "st_keys t cid" _ "take n p" "st_heap t"] by auto
    from relpowp_Suc_I2 [OF step run(1)] show ?thesis
      using run(2) by (metis append_take_drop_id concat.simps(2))
  qed
qed

lemma ch_Pipes_room:
  assumes "has_room c (length (concat ps))"
  shows "ch_held (foldl ch_Pipe c ps) = ch_held c @ concat ps \<and> c_closed (foldl ch_Pipe c ps) = c_closed c"
  using assms
proof (induction ps arbitrary: c)
  case (Cons b ps)
  then show ?case using ch_Pipe_room [of c b "length (concat ps)"] by simp
qed simp

lemma write_passes:
  assumes "st_pc t = SWrite cid (length p) mx" "length p \<noteq> 0 \<longrightarrow> mx \<noteq> 0" "st_in t = p @ r"
    and "st_keys t cid = Some a" "st_heap t a = Some c" "has_room c (length p)"
  shows "\<exists>k t' c'. (server_turn opts ^^ k) t t' \<and> st_pc t' = SCmd \<and> st_in t' = r
    \<and> st_keys t' = st_keys t \<and> st_base t' = st_base t \<and> st_heap t' = (st_heap t)(a \<mapsto> c')
    \<and> ch_held c' = ch_held c @ p \<and> c_closed c' = c_closed c"
proof -
  obtain k ps where "(server_turn opts ^^ k) t
      (t\<lparr>st_in := r, st_pc := SCmd, st_heap := pipe_pieces (st_keys t cid) ps (st_heap t)\<rparr>)" "concat ps = p"
    using write_run [OF assms(1-3)] by blast
  moreover have "pipe_pieces (st_keys t cid) ps (st_heap t) = (st_heap t)(a \<mapsto> foldl ch_Pipe c ps)"
    using assms(4,5) by (simp add: store_update_def)
  ultimately show ?thesis using ch_Pipes_room [of c ps] assms(6) by fastforce
qed

text \<open>
  A data frame for a registered channel with room goes into that channel's pipe byte for
  byte, in pieces of at most the read buffer, and nothing else changes: not the table, not
  the other channels, and the input continues behind the frame.
\<close>

theorem server_data_routed:
  assumes "st_pc t = SCmd" "st_in t = write_frame cid p @ r" "length p \<le> MaxUint16"
    and "st_keys t cid = Some a" "st_heap t a = Some c" "has_room c (length p)"
  shows "\<exists>k t' c'. (server_turn opts ^^ k) t t' \<and> st_pc t' = SCmd \<and> st_in t' = r
    \<and> st_keys t' = st_keys t \<and> st_base t' = st_base t \<and> st_heap t' = (st_heap t)(a \<mapsto> c')
    \<and> ch_held c' = ch_held c @ p \<and> c_closed c' = c_closed c"
proof -
  let ?u = "t\<lparr>st_in := p @ r, st_pc := SWrite cid (length p) (write_max (length p))\<rparr>"
  have rd: "ReadFull 10 (PutUint64 cid @ PutUint16 w @ p @ r)
      = (PutUint64 cid @ PutUint16 w, None, p @ r)" for w
    by (rule ReadFull_append2) simp
  have "st_turn opts t = [?u]"
    using assms(1,2,3) rd
    by (simp add: st_turn_def st_command_def write_frame_def Let_def unat_of_nat_16)
  then have step: "server_turn opts t ?u" by (simp add: server_turn_def)
  have "length p \<noteq> 0 \<longrightarrow> write_max (length p) \<noteq> 0" by (simp add: write_max_def)
  then obtain k t' c' where run: "(server_turn opts ^^ k) ?u t'" "st_pc t' = SCmd" "st_in t' = r"
      "st_keys t' = st_keys ?u" "st_base t' = st_base ?u" "st_heap t' = (st_heap ?u)(a \<mapsto> c')"
      "ch_held c' = ch_held c @ p" "c_closed c' = c_closed c"
    using write_passes [of ?u cid p "write_max (length p)" r a c opts] assms(4,5,6) by auto
  have "(server_turn opts ^^ Suc k) t t'" using relpowp_Suc_I2 [OF step run(1)] .
  then show ?thesis using run by (intro exI [of _ "Suc k"] exI [of _ t'] exI [of _ c']) simp
qed

definition one_channel :: server_transport where
  "one_channel =
     (newServerTransport 8 (write_frame 5 [1, 2, 3] @ [1]))\<lparr>st_keys := [5 \<mapsto> 0],
       st_heap := [0 \<mapsto> newIOChannel 5 8 8], st_next := 1, st_handled := [0]\<rparr>"

theorem server_data_routed_witness:
  "\<exists>k t' c'. (server_turn defaultServerOptions ^^ k) one_channel t' \<and> st_pc t' = SCmd
     \<and> st_in t' = [1] \<and> st_heap t' 0 = Some c' \<and> ch_held c' = [1, 2, 3]"
proof -
  have c: "has_room (newIOChannel 5 8 8) (length ([1, 2, 3] :: bytes))" "ch_held (newIOChannel 5 8 8) = []"
    by (simp_all add: has_room_def newIOChannel_def NewPipeReader_def rw_new rw_capacity_new
        NewReadWriter_def rw_inv_def rw_contents_def)
  have t: "st_pc one_channel = SCmd" "st_in one_channel = write_frame 5 [1, 2, 3] @ [1]"
      "length ([1, 2, 3] :: bytes) \<le> MaxUint16"
      "st_keys one_channel 5 = Some 0" "st_heap one_channel 0 = Some (newIOChannel 5 8 8)"
    by (simp_all add: one_channel_def newServerTransport_def)
  obtain k t' c' where "(server_turn defaultServerOptions ^^ k) one_channel t'"
      "st_pc t' = SCmd" "st_in t' = [1]" "st_heap t' = (st_heap one_channel)(0 \<mapsto> c')"
      "ch_held c' = [] @ [1, 2, 3]"
    using server_data_routed [OF t c(1)] unfolding c(2) by blast
  then show ?thesis by (intro exI [of _ k] exI [of _ t'] exI [of _ c']) simp
qed

section \<open>Order of the create reply\<close>

text \<open>
  The channel and its handler are running before the reply to the create request is
  queued, so a frame of the new channel can overtake the reply: for every payload of a frame there
  is a run that queues the data frame first.
\<close>

theorem server_data_before_reply:
  assumes "b \<noteq> []" "length b \<le> MaxUint16"
  shows "\<exists>t. server_reachable defaultServerOptions 8 (create_request 5) t
     \<and> bt_ch (st_base t) = [write_frame 5 b, create_reply 5 0]"
proof -
  let ?o = defaultServerOptions and ?t0 = "newServerTransport 8 (create_request 5)"
  obtain t1 where 1: "st_turn ?o ?t0 = [t1]" "st_pc t1 = SReply (create_reply 5 0)"
      "st_keys t1 = [5 \<mapsto> 0]" "st_base t1 = new_base_transport 8"
    using ReadFull_8_put [of 5 "[]"]
    by (simp add: st_turn_def st_command_def create_request_def st_create_def Let_def
        newServerTransport_def defaultServerOptions_def)
  have r1: "server_reachable ?o 8 (create_request 5) t1"
    by (rule sr_step [OF sr_start ss_turn]) (simp add: 1)
  obtain c where c: "st_heap t1 0 = Some c" "c_id c = 5"
    using server_reachable_inv [OF r1] 1(3) table_okE [of "st_keys t1" _ _ 5 0]
    by (auto simp: server_inv_def)
  let ?t2 = "t1\<lparr>st_base := (st_base t1)\<lparr>bt_ch := [write_frame 5 b]\<rparr>\<rparr>"
  have r2: "server_reachable ?o 8 (create_request 5) ?t2"
    by (rule sr_step [OF r1 ss_local [OF sl_frame [OF c(1), of "write_frame 5 b"]]])
      (use assms in \<open>auto simp: channel_frame_def c 1 ch_send_def new_base_transport_def ch_capacity_def\<close>)
  let ?t3 = "?t2\<lparr>st_base := (st_base ?t2)\<lparr>bt_ch := [write_frame 5 b, create_reply 5 0]\<rparr>, st_pc := SCmd\<rparr>"
  have "server_reachable ?o 8 (create_request 5) ?t3"
    by (rule sr_step [OF r2 ss_turn])
      (simp add: 1 st_turn_def postWrite_def on_done_def ch_send_def new_base_transport_def
        ch_capacity_def Let_def)
  then show ?thesis by (intro exI [of _ ?t3]) simp
qed

end
