(* ===== verification/Framing.thy ===== *)
theory Framing
  imports Prelude
begin

text \<open>
  What every message format of the program promises to whoever reads a stream of its messages: a
  message that was written is read back whole, and the reader leaves what follows it.  Sequences
  of messages are treated here once; the handshake, the requests and answers, and the web
  socket messages interpret the locale in their theories.
\<close>

section \<open>Reading several messages\<close>

fun dec_all :: "(bytes \<Rightarrow> ('r \<times> bytes) option) \<Rightarrow> nat \<Rightarrow> bytes \<Rightarrow> ('r list \<times> bytes) option" where
  "dec_all dec 0 s = Some ([], s)"
| "dec_all dec (Suc n) s =
     (case dec s of
        None \<Rightarrow> None
      | Some (r, s) \<Rightarrow> (case dec_all dec n s of None \<Rightarrow> None | Some (rs, s) \<Rightarrow> Some (r # rs, s)))"

section \<open>The contract\<close>

locale stream_codec =
  fixes ok :: "'m \<Rightarrow> bool"
    and enc :: "'m \<Rightarrow> bytes"
    and dec :: "bytes \<Rightarrow> ('r \<times> bytes) option"
    and meaning :: "'m \<Rightarrow> 'r"
  assumes dec_enc: "ok m \<Longrightarrow> dec (enc m @ s) = Some (meaning m, s)"
begin

lemma dec_enc_all:
  "\<forall>m \<in> set ms. ok m \<Longrightarrow> dec_all dec (length ms) (concat (map enc ms) @ s) = Some (map meaning ms, s)"
  by (induction ms) (simp_all add: dec_enc)

text \<open>Two streams that are equal start with the same message.\<close>

lemma prefix_free:
  "ok m \<Longrightarrow> ok n \<Longrightarrow> enc m @ s = enc n @ t \<Longrightarrow> meaning m = meaning n \<and> s = t"
  using dec_enc [of m s] dec_enc [of n t] by simp

lemma not_a_prefix: "ok m \<Longrightarrow> ok n \<Longrightarrow> enc n = enc m @ s \<Longrightarrow> s = []"
  using prefix_free [of m n s "[]"] by simp

end

end
