(* ===== verification/HelloMsg.thy ===== *)
theory HelloMsg
  imports Protocol Framing
begin

text \<open>
  \<open>core/hello.go\<close>: the two hello messages, their verification and encoding, and the two
  readers.  A reader is given the stream, the length and the capacity of the buffer it may
  use, and returns what the Go function returns, with the rest of the stream; the slice
  bounds it takes are checked where it takes them, so that a bound out of range is
  \<open>Panic\<close>.
\<close>

section \<open>Client hello\<close>

record client_hello =
  ch_Window :: "32 word"
  ch_Version :: "string list"

definition zero_client_hello :: client_hello where
  "zero_client_hello = \<lparr>ch_Window = 0, ch_Version = []\<rparr>"

definition ClientHello_verify :: "client_hello \<Rightarrow> gerr + nat" where
  "ClientHello_verify m =
     (if ch_Window m = 0 then Inl (HelloError HelloInvalidWindow)
      else
        let vs = length (ch_Version m) in
        if vs = 0 then Inl (HelloError HelloInvalidVersion)
        else
          let vs = (if vs = 1 then 0 else vs - 1);
              vs = vs + sum_list (map length (ch_Version m))
          in Inr (length Flag + 6 + vs))"

text \<open>
  \<open>marshalTo\<close> fills the buffer it is given from the front; the callers give it one of the
  sz that \<open>verify\<close> computed.  The error leaves the buffer partly written.
\<close>

definition ClientHello_marshalTo :: "client_hello \<Rightarrow> bytes \<Rightarrow> bytes \<times> gerr option" where
  "ClientHello_marshalTo m b =
     (let b = fst (go_copy b 0 (StringToBytes Flag));
          b = fst (go_copy b 11 (PutUint32 (ch_Window m)));
          vs = Join (CHR '','') (ch_Version m)
      in if length vs > MaxUint16 then (b, Some (HelloError HelloInvalidVersion))
         else
           let b = fst (go_copy b 15 (PutUint16 (of_nat (length vs))));
               b = fst (go_copy b 17 (StringToBytes vs))
           in (b, None))"

definition ClientHello_Marshal :: "client_hello \<Rightarrow> gerr + bytes" where
  "ClientHello_Marshal m =
     (case ClientHello_verify m of
        Inl e \<Rightarrow> Inl e
      | Inr sz \<Rightarrow>
          (case ClientHello_marshalTo m (replicate sz 0) of
             (_, Some e) \<Rightarrow> Inl e
           | (buf, None) \<Rightarrow> Inr buf))"

definition ClientHello_MarshalTo :: "client_hello \<Rightarrow> bytes \<Rightarrow> gerr + bytes" where
  "ClientHello_MarshalTo m b =
     (case ClientHello_verify m of
        Inl e \<Rightarrow> Inl e
      | Inr sz \<Rightarrow>
          if length b < sz then Inl ErrShortBuffer
          else
            (case ClientHello_marshalTo m (take sz b) of
               (_, Some e) \<Rightarrow> Inl e
             | (buf, None) \<Rightarrow> Inr buf))"

text \<open>
  \<open>ReadClientHello\<close>: the hello, its code, the bytes read when the flag did not match, and
  the error.  \<open>n\<close> and \<open>c\<close> are the length and the capacity of the caller's buffer, with
  \<open>n = 0\<close> for a buffer of its own.
\<close>

type_synonym read_client_hello = "client_hello \<times> hello_code \<times> bytes \<times> gerr option"

definition ReadClientHello ::
    "bytes \<Rightarrow> nat \<Rightarrow> nat \<Rightarrow> (read_client_hello \<times> bytes) outcome" where
  "ReadClientHello r n c =
     (let z = zero_client_hello; flagsize = length Flag; autobuf = (n = 0);
          bufsize = (if autobuf then 128 else n); bufcap = (if autobuf then 128 else c)
      in
      if bufsize < flagsize then Done ((z, 0, [], Some ErrShortBuffer), r)
      else
        case ReadFull flagsize r of
          (_, Some e, r) \<Rightarrow> Done ((z, 0, [], Some e), r)
        | (flag, None, r) \<Rightarrow>
            if BytesToString flag \<noteq> Flag
            then Done ((z, HelloInvalidProtocol, flag, None), r)
            else
              let len = bufsize - flagsize; cap = bufcap - flagsize in
              if cap < 6 then Panic
              else
                (case ReadFull 6 r of
                   (_, Some e, r) \<Rightarrow> Done ((z, 0, [], Some e), r)
                 | (hd6, None, r) \<Rightarrow>
                     if len < 4 then Panic
                     else if Uint32 hd6 < 1 then Done ((z, HelloInvalidWindow, [], None), r)
                     else if len < 6 then Panic
                     else
                       let vs = unat (Uint16 (drop 4 hd6)) in
                       if vs < 1 then Done ((z, HelloInvalidVersion, [], None), r)
                       else if bufsize < vs \<and> \<not> autobuf
                       then Done ((z, 0, [], Some ErrShortBuffer), r)
                       else if (if bufsize < vs then vs else cap) < vs then Panic
                       else
                         (case ReadFull vs r of
                            (_, Some e, r) \<Rightarrow> Done ((z, 0, [], Some e), r)
                          | (v, None, r) \<Rightarrow>
                              Done ((\<lparr>ch_Window = Uint32 hd6,
                                      ch_Version = Split (CHR '','') (BytesToString v)\<rparr>,
                                     0, [], None), r))))"

section \<open>Server hello\<close>

record server_hello =
  sh_Code :: hello_code
  sh_Window :: "32 word"
  sh_Message :: string

definition zero_server_hello :: server_hello where
  "zero_server_hello = \<lparr>sh_Code = 0, sh_Window = 0, sh_Message = []\<rparr>"

definition ServerHello_verify :: "server_hello \<Rightarrow> gerr + nat" where
  "ServerHello_verify m =
     (if sh_Window m = 0 then Inl (HelloError HelloInvalidWindow)
      else if sh_Code m = HelloOk \<and> sh_Message m = [] then Inl (HelloError HelloInvalidVersion)
      else if length (sh_Message m) > MaxUint16 then Inl (ErrText ''invalid message'')
      else Inr (length Flag + 7 + length (sh_Message m)))"

definition ServerHello_marshalTo :: "server_hello \<Rightarrow> bytes \<Rightarrow> bytes" where
  "ServerHello_marshalTo m b =
     (let b = fst (go_copy b 0 (StringToBytes Flag));
          b = fst (go_copy b 11 [sh_Code m]);
          b = fst (go_copy b 12 (PutUint32 (sh_Window m)));
          sz = length (sh_Message m);
          b = fst (go_copy b 16 (PutUint16 (of_nat sz)))
      in if sz > 0 then fst (go_copy b 18 (StringToBytes (sh_Message m))) else b)"

definition ServerHello_Marshal :: "server_hello \<Rightarrow> gerr + bytes" where
  "ServerHello_Marshal m =
     (case ServerHello_verify m of
        Inl e \<Rightarrow> Inl e
      | Inr sz \<Rightarrow> Inr (ServerHello_marshalTo m (replicate sz 0)))"

definition ServerHello_MarshalTo :: "server_hello \<Rightarrow> bytes \<Rightarrow> gerr + bytes" where
  "ServerHello_MarshalTo m b =
     (case ServerHello_verify m of
        Inl e \<Rightarrow> Inl e
      | Inr sz \<Rightarrow>
          if length b < sz then Inl ErrShortBuffer
          else Inr (ServerHello_marshalTo m (take sz b)))"

definition ReadServerHello ::
    "bytes \<Rightarrow> nat \<Rightarrow> nat \<Rightarrow> ((server_hello \<times> gerr option) \<times> bytes) outcome" where
  "ReadServerHello r n c =
     (let z = zero_server_hello; flagsize = length Flag; autobuf = (n = 0);
          bufsize = (if autobuf then 128 else n); bufcap = (if autobuf then 128 else c)
      in
      if bufsize < flagsize then Done ((z, Some ErrShortBuffer), r)
      else
        case ReadFull flagsize r of
          (_, Some e, r) \<Rightarrow> Done ((z, Some e), r)
        | (flag, None, r) \<Rightarrow>
            if BytesToString flag \<noteq> Flag then Done ((z, Some ErrUnknowProtocol), r)
            else if bufcap < 7 then Panic
            else
              (case ReadFull 7 r of
                 (_, Some e, r) \<Rightarrow> Done ((z, Some e), r)
               | (hd7, None, r) \<Rightarrow>
                   let code = hd hd7; window = Uint32 (drop 1 hd7) in
                   if window < 1 then Done ((z, Some (HelloError HelloInvalidWindow)), r)
                   else
                     let msglen = unat (Uint16 (drop 5 hd7)) in
                     if bufsize < msglen \<and> \<not> autobuf then Done ((z, Some ErrShortBuffer), r)
                     else
                       (case (if msglen > 0 then ReadFull msglen r else ([], None, r)) of
                          (_, Some e, r) \<Rightarrow> Done ((z, Some e), r)
                        | (msg, None, r) \<Rightarrow>
                            if code = HelloOk \<and> BytesToString msg = []
                            then Done ((z, Some (HelloError HelloInvalidVersion)), r)
                            else Done ((\<lparr>sh_Code = code, sh_Window = window,
                                         sh_Message = BytesToString msg\<rparr>, None), r))))"

section \<open>What the encoders write\<close>


definition client_hello_wire :: "client_hello \<Rightarrow> bytes" where
  "client_hello_wire m =
     StringToBytes Flag @ PutUint32 (ch_Window m)
       @ PutUint16 (of_nat (length (Join (CHR '','') (ch_Version m))))
       @ StringToBytes (Join (CHR '','') (ch_Version m))"

lemma length_client_hello_wire [simp]:
  "length (client_hello_wire m) = 17 + length (Join (CHR '','') (ch_Version m))"
  by (simp add: client_hello_wire_def)

lemma ClientHello_marshalTo_wire:
  assumes "length b = 17 + length (Join (CHR '','') (ch_Version m))"
    and "length (Join (CHR '','') (ch_Version m)) \<le> MaxUint16"
  shows "ClientHello_marshalTo m b = (client_hello_wire m, None)"
proof -
  let ?v = "Join (CHR '','') (ch_Version m)"
  have 1: "fst (go_copy b 0 (StringToBytes Flag)) = StringToBytes Flag @ drop 11 b"
    using go_copy_at [of "[]" 0 "StringToBytes Flag" b] assms by simp
  have 2: "fst (go_copy (StringToBytes Flag @ drop 11 b) 11 (PutUint32 (ch_Window m)))
      = (StringToBytes Flag @ PutUint32 (ch_Window m)) @ drop 15 b"
    using assms by (subst go_copy_at) simp_all
  have 3: "fst (go_copy ((StringToBytes Flag @ PutUint32 (ch_Window m)) @ drop 15 b) 15 
       (PutUint16 (of_nat (length ?v))))
      = (StringToBytes Flag @ PutUint32 (ch_Window m) @ PutUint16 (of_nat (length ?v))) @ drop 17 b"
    using assms by (subst go_copy_at) simp_all
  have 4: "fst (go_copy ((StringToBytes Flag @ PutUint32 (ch_Window m)
        @ PutUint16 (of_nat (length ?v))) @ drop 17 b) 17 (StringToBytes ?v))
      = client_hello_wire m"
    using assms by (subst go_copy_at) (simp_all add: client_hello_wire_def)
  show ?thesis
    using assms(2) by (simp only: ClientHello_marshalTo_def Let_def 1 2 3 4) simp
qed

lemma ClientHello_verify_Inr:
  assumes "ch_Window m \<noteq> 0" "ch_Version m \<noteq> []"
  shows "ClientHello_verify m = Inr (17 + length (Join (CHR '','') (ch_Version m)))"
proof (cases "length (ch_Version m) = 1")
  case True
  with assms show ?thesis by (simp add: ClientHello_verify_def length_Join Let_def)
next
  case False
  with assms show ?thesis
    by (cases "ch_Version m") (auto simp: ClientHello_verify_def length_Join Let_def)
qed

lemma ClientHello_Marshal_spec:
  "ClientHello_Marshal m =
     (if ch_Window m = 0 then Inl (HelloError HelloInvalidWindow)
      else if ch_Version m = [] \<or> length (Join (CHR '','') (ch_Version m)) > MaxUint16
      then Inl (HelloError HelloInvalidVersion)
      else Inr (client_hello_wire m))"
proof -
  consider "ch_Window m = 0" | "ch_Window m \<noteq> 0" "ch_Version m = []"
    | "ch_Window m \<noteq> 0" "ch_Version m \<noteq> []" "length (Join (CHR '','') (ch_Version m)) > MaxUint16"
    | "ch_Window m \<noteq> 0" "ch_Version m \<noteq> []" "length (Join (CHR '','') (ch_Version m)) \<le> MaxUint16"
    by linarith
  then show ?thesis
  proof cases
    case 4
    then show ?thesis
      by (simp add: ClientHello_Marshal_def ClientHello_verify_Inr ClientHello_marshalTo_wire)
  next
    case 3
    then show ?thesis
      by (simp add: ClientHello_Marshal_def ClientHello_verify_Inr ClientHello_marshalTo_def Let_def)
  qed (simp_all add: ClientHello_Marshal_def ClientHello_verify_def Let_def)
qed

lemma ClientHello_MarshalTo_spec:
  "ClientHello_MarshalTo m b =
     (if ch_Window m = 0 then Inl (HelloError HelloInvalidWindow)
      else if ch_Version m = [] then Inl (HelloError HelloInvalidVersion)
      else if length b < length (client_hello_wire m) then Inl ErrShortBuffer
      else if length (Join (CHR '','') (ch_Version m)) > MaxUint16
      then Inl (HelloError HelloInvalidVersion)
      else Inr (client_hello_wire m))"
proof -
  consider "ch_Window m = 0" | "ch_Window m \<noteq> 0" "ch_Version m = []"
    | "ch_Window m \<noteq> 0" "ch_Version m \<noteq> []" "length (Join (CHR '','') (ch_Version m)) > MaxUint16"
    | "ch_Window m \<noteq> 0" "ch_Version m \<noteq> []" "length (Join (CHR '','') (ch_Version m)) \<le> MaxUint16"
    by linarith
  then show ?thesis
  proof cases
    case 4
    then show ?thesis
      by (simp add: ClientHello_MarshalTo_def ClientHello_verify_Inr ClientHello_marshalTo_wire)
  next
    case 3
    then show ?thesis
      by (simp add: ClientHello_MarshalTo_def ClientHello_verify_Inr ClientHello_marshalTo_def Let_def)
  qed (simp_all add: ClientHello_MarshalTo_def ClientHello_verify_def Let_def)
qed

definition server_hello_wire :: "server_hello \<Rightarrow> bytes" where
  "server_hello_wire m =
     StringToBytes Flag @ [sh_Code m] @ PutUint32 (sh_Window m)
       @ PutUint16 (of_nat (length (sh_Message m))) @ StringToBytes (sh_Message m)"

lemma length_server_hello_wire [simp]:
  "length (server_hello_wire m) = 18 + length (sh_Message m)"
  by (simp add: server_hello_wire_def)

lemma ServerHello_marshalTo_wire:
  assumes "length b = 18 + length (sh_Message m)"
  shows "ServerHello_marshalTo m b = server_hello_wire m"
proof -
  let ?v = "sh_Message m"
  have 1: "fst (go_copy b 0 (StringToBytes Flag)) = StringToBytes Flag @ drop 11 b"
    using go_copy_at [of "[]" 0 "StringToBytes Flag" b] assms by simp
  have 2: "fst (go_copy (StringToBytes Flag @ drop 11 b) 11 [sh_Code m])
      = (StringToBytes Flag @ [sh_Code m]) @ drop 12 b"
    using assms by (subst go_copy_at) simp_all
  have 3: "fst (go_copy ((StringToBytes Flag @ [sh_Code m]) @ drop 12 b) 12 (PutUint32 (sh_Window m)))
      = (StringToBytes Flag @ [sh_Code m] @ PutUint32 (sh_Window m)) @ drop 16 b"
    using assms by (subst go_copy_at) simp_all
  have 4: "fst (go_copy ((StringToBytes Flag @ [sh_Code m] @ PutUint32 (sh_Window m)) @ drop 16 b) 16
       (PutUint16 (of_nat (length ?v))))
      = (StringToBytes Flag @ [sh_Code m] @ PutUint32 (sh_Window m)
         @ PutUint16 (of_nat (length ?v))) @ drop 18 b"
    using assms by (subst go_copy_at) simp_all
  have 5: "fst (go_copy ((StringToBytes Flag @ [sh_Code m] @ PutUint32 (sh_Window m)
         @ PutUint16 (of_nat (length ?v))) @ drop 18 b) 18 (StringToBytes ?v)) = server_hello_wire m"
    using assms by (subst go_copy_at) (simp_all add: server_hello_wire_def)
  have "ServerHello_marshalTo m b = (if length ?v > 0 then server_hello_wire m
      else (StringToBytes Flag @ [sh_Code m] @ PutUint32 (sh_Window m)
         @ PutUint16 (of_nat (length ?v))) @ drop 18 b)"
    by (simp only: ServerHello_marshalTo_def Let_def 1 2 3 4 5)
  then show ?thesis
    using assms by (auto simp: server_hello_wire_def StringToBytes_def)
qed

lemma ServerHello_MarshalTo_spec:
  "ServerHello_MarshalTo m b =
     (if sh_Window m = 0 then Inl (HelloError HelloInvalidWindow)
      else if sh_Code m = HelloOk \<and> sh_Message m = [] then Inl (HelloError HelloInvalidVersion)
      else if length (sh_Message m) > MaxUint16 then Inl (ErrText ''invalid message'')
      else if length b < length (server_hello_wire m) then Inl ErrShortBuffer
      else Inr (server_hello_wire m))"
  by (simp add: ServerHello_MarshalTo_def ServerHello_verify_def ServerHello_marshalTo_wire)

lemma ServerHello_Marshal_spec:
  "ServerHello_Marshal m =
     (if sh_Window m = 0 then Inl (HelloError HelloInvalidWindow)
      else if sh_Code m = HelloOk \<and> sh_Message m = [] then Inl (HelloError HelloInvalidVersion)
      else if length (sh_Message m) > MaxUint16 then Inl (ErrText ''invalid message'')
      else Inr (server_hello_wire m))"
  by (simp add: ServerHello_Marshal_def ServerHello_verify_def ServerHello_marshalTo_wire)

section \<open>Readers\<close>

definition client_hello_fits :: "nat \<Rightarrow> nat \<Rightarrow> nat \<Rightarrow> bool" where
  "client_hello_fits n c vs \<longleftrightarrow>
     (if n = 0 then vs \<le> 117 \<or> 128 < vs else 17 \<le> n \<and> 17 \<le> c \<and> vs \<le> n \<and> vs \<le> c - 11)"

lemma drop4_head: "drop 4 (PutUint32 w @ x) = x"
  using u32.drop_put by simp

lemma ReadClientHello_wire:
  assumes "ch_Window m \<noteq> 0" "ch_Version m \<noteq> []" "\<forall>v \<in> set (ch_Version m). CHR '','' \<notin> set v"
    and "Join (CHR '','') (ch_Version m) \<noteq> []"
    and "length (Join (CHR '','') (ch_Version m)) \<le> MaxUint16"
    and "client_hello_fits n c (length (Join (CHR '','') (ch_Version m)))"
  shows "ReadClientHello (client_hello_wire m @ rest) n c = Done ((m, HelloOk, [], None), rest)"
proof -
  let ?v = "Join (CHR '','') (ch_Version m)"
  have len: "unat (of_nat (length ?v) :: 16 word) = length ?v"
    using assms(5) by (simp add: unat_of_nat_le)
  have "Split (CHR '','') ?v = ch_Version m" using assms(2,3) by (rule Split_Join)
  then show ?thesis
    using assms(1,4,6) len
    by (auto simp: ReadClientHello_def client_hello_wire_def Let_def ReadFull_append2 drop4_head
        client_hello_fits_def word_less_1 Suc_le_eq split: if_splits)
qed


lemma ReadServerHello_wire:
  assumes "sh_Window m \<noteq> 0" "sh_Code m = HelloOk \<longrightarrow> sh_Message m \<noteq> []"
    and "length (sh_Message m) \<le> MaxUint16"
    and "n \<le> c" "n = 0 \<or> 11 \<le> n \<and> length (sh_Message m) \<le> n"
  shows "ReadServerHello (server_hello_wire m @ rest) n c = Done ((m, None), rest)"
proof -
  have len: "unat (of_nat (length (sh_Message m)) :: 16 word) = length (sh_Message m)"
    using assms(3) by (simp add: unat_of_nat_le)
  have grp: "ReadFull 7 (sh_Code m # PutUint32 (sh_Window m) @ PutUint16 x @ s)
     = (sh_Code m # PutUint32 (sh_Window m) @ PutUint16 x, None, s)" for x s
    using ReadFull_append [of "sh_Code m # PutUint32 (sh_Window m) @ PutUint16 x" 7 s] by simp
  show ?thesis
    using assms len
    by (cases "sh_Message m = []")
      (auto simp: ReadServerHello_def server_hello_wire_def Let_def grp drop4_head word_less_1
        split: if_splits)
qed

section \<open>What the handshake messages promise\<close>

text \<open>Both hellos keep the contract of message formats, for any buffer of the reader that is large enough.\<close>

definition client_hello_dec :: "nat \<Rightarrow> bytes \<Rightarrow> (client_hello \<times> bytes) option" where
  "client_hello_dec n s =
     (case ReadClientHello s n n of
        Done ((m, code, flag, None), r) \<Rightarrow> if code = HelloOk then Some (m, r) else None
      | _ \<Rightarrow> None)"

definition client_hello_ok :: "nat \<Rightarrow> client_hello \<Rightarrow> bool" where
  "client_hello_ok n m \<longleftrightarrow> (\<exists>b. ClientHello_Marshal m = Inr b)
     \<and> (\<forall>v \<in> set (ch_Version m). CHR '','' \<notin> set v) \<and> Join (CHR '','') (ch_Version m) \<noteq> []
     \<and> client_hello_fits n n (length (Join (CHR '','') (ch_Version m)))"

interpretation chello: stream_codec "client_hello_ok n" client_hello_wire "client_hello_dec n" "\<lambda>m. m"
  for n
  by unfold_locales
    (auto simp: client_hello_ok_def client_hello_dec_def ClientHello_Marshal_spec ReadClientHello_wire
      split: if_splits)

definition server_hello_dec :: "nat \<Rightarrow> bytes \<Rightarrow> (server_hello \<times> bytes) option" where
  "server_hello_dec n s =
     (case ReadServerHello s n n of Done ((m, None), r) \<Rightarrow> Some (m, r) | _ \<Rightarrow> None)"

definition server_hello_ok :: "nat \<Rightarrow> server_hello \<Rightarrow> bool" where
  "server_hello_ok n m \<longleftrightarrow> (\<exists>b. ServerHello_Marshal m = Inr b) \<and> 11 \<le> n \<and> length (sh_Message m) \<le> n"

interpretation shello: stream_codec "server_hello_ok n" server_hello_wire "server_hello_dec n" "\<lambda>m. m"
  for n
  by unfold_locales
    (auto simp: server_hello_ok_def server_hello_dec_def ServerHello_Marshal_spec ReadServerHello_wire
      split: if_splits)

text \<open>
  C24: what a client marshals, a server reads back: the hello comes out unchanged, and
  the bytes behind it stay in the stream.  The versions must be free of the separator, their
  joined text must not be empty, and the server's buffer must be one that fits it.
\<close>

theorem client_hello_roundtrip:
  assumes "ClientHello_Marshal m = Inr b"
    and "\<forall>v \<in> set (ch_Version m). CHR '','' \<notin> set v" "Join (CHR '','') (ch_Version m) \<noteq> []"
    and "client_hello_fits n c (length (Join (CHR '','') (ch_Version m)))"
  shows "ReadClientHello (b @ rest) n c = Done ((m, HelloOk, [], None), rest)"
  using assms ReadClientHello_wire [of m n c rest]
  by (auto simp: ClientHello_Marshal_spec split: if_splits)

definition sample_client_hello :: client_hello where
  "sample_client_hello = \<lparr>ch_Window = 32768, ch_Version = [ProtocolVersion]\<rparr>"

theorem client_hello_roundtrip_witness:
  "\<exists>b. ClientHello_Marshal sample_client_hello = Inr b
     \<and> ReadClientHello (b @ [9]) 256 256 = Done ((sample_client_hello, HelloOk, [], None), [9])"
proof -
  let ?m = sample_client_hello
  have m: "ClientHello_Marshal ?m = Inr (client_hello_wire ?m)"
    by (simp add: ClientHello_Marshal_spec sample_client_hello_def)
  show ?thesis
    using m client_hello_roundtrip [OF m, of 256 256 "[9]"] ProtocolVersion_no_comma
    by (simp add: sample_client_hello_def client_hello_fits_def ProtocolVersion_def)
qed

text \<open>
  What a server marshals, a client reads back, for every buffer that holds the message.
\<close>

theorem server_hello_roundtrip:
  assumes "ServerHello_Marshal m = Inr b"
    and "n \<le> c" "n = 0 \<or> 11 \<le> n \<and> length (sh_Message m) \<le> n"
  shows "ReadServerHello (b @ rest) n c = Done ((m, None), rest)"
  using assms ReadServerHello_wire [of m n c rest]
  by (auto simp: ServerHello_Marshal_spec split: if_splits)

definition sample_server_hello :: server_hello where
  "sample_server_hello = \<lparr>sh_Code = HelloOk, sh_Window = 32768, sh_Message = ProtocolVersion\<rparr>"

theorem server_hello_roundtrip_witness:
  "\<exists>b. ServerHello_Marshal sample_server_hello = Inr b
     \<and> ReadServerHello (b @ [9]) 128 128 = Done ((sample_server_hello, None), [9])"
proof -
  let ?m = sample_server_hello
  have m: "ServerHello_Marshal ?m = Inr (server_hello_wire ?m)"
    by (simp add: ServerHello_Marshal_spec sample_server_hello_def ProtocolVersion_def)
  show ?thesis
    using m server_hello_roundtrip [OF m, of 128 128 "[9]"]
    by (simp add: sample_server_hello_def ProtocolVersion_def)
qed

text \<open>
  Marshalling into a caller's buffer gives the bytes of the allocating version, exactly
  when these exist and fit; otherwise it fails.
\<close>

theorem hello_MarshalTo_agrees:
  "(ClientHello_MarshalTo m b = Inr data
      \<longleftrightarrow> ClientHello_Marshal m = Inr data \<and> length data \<le> length b)
   \<and> (ServerHello_MarshalTo h b = Inr data
      \<longleftrightarrow> ServerHello_Marshal h = Inr data \<and> length data \<le> length b)"
  by (auto simp: ClientHello_MarshalTo_spec ClientHello_Marshal_spec ServerHello_MarshalTo_spec
      ServerHello_Marshal_spec)

text \<open>
  C33: reading a client's hello into a buffer of \<open>n\<close> bytes panics exactly on the inputs whose
  version text is longer than what the flag leaves of the buffer and no longer than the
  whole buffer: the length check forgets that the slice has moved past the flag.
\<close>

theorem ReadClientHello_panics_iff:
  assumes "17 \<le> n"
  shows "ReadClientHello r n n = Panic \<longleftrightarrow>
    (\<exists>w vs rest. r = StringToBytes Flag @ PutUint32 w @ PutUint16 vs @ rest
       \<and> w \<noteq> 0 \<and> n - 11 < unat vs \<and> unat vs \<le> n)"
proof
  assume "\<exists>w vs rest. r = StringToBytes Flag @ PutUint32 w @ PutUint16 vs @ rest
       \<and> w \<noteq> 0 \<and> n - 11 < unat vs \<and> unat vs \<le> n"
  then show "ReadClientHello r n n = Panic"
    using assms
    by (auto simp: ReadClientHello_def Let_def ReadFull_append2 drop4_head word_less_1 Suc_le_eq)
next
  assume "ReadClientHello r n n = Panic"
  then obtain flag r1 h r2 where
      1: "ReadFull 11 r = (flag, None, r1)" and f: "BytesToString flag = Flag"
    and 2: "ReadFull 6 r1 = (h, None, r2)"
    and w: "Uint32 h \<noteq> 0" and v: "n - 11 < unat (Uint16 (drop 4 h))" "unat (Uint16 (drop 4 h)) \<le> n"
    using assms
    by (auto simp: ReadClientHello_def Let_def word_less_1 split: prod.splits option.splits if_splits)
  from 1 have r: "r = flag @ r1" by (elim ReadFull_NoneE)
  from 2 have r1: "r1 = h @ r2" and lh: "length h = 6" by (auto elim: ReadFull_NoneE)
  have "PutUint32 (Uint32 (take 4 h)) = take 4 h" and "PutUint16 (Uint16 (drop 4 h)) = drop 4 h"
    using lh by (simp_all add: u32.put_get u16.put_get)
  moreover have "Uint32 (take 4 h) = Uint32 h" by (simp add: Uint32_def)
  ultimately have "h = PutUint32 (Uint32 h) @ PutUint16 (Uint16 (drop 4 h))"
    by (metis append_take_drop_id)
  moreover have "flag = StringToBytes Flag" using f by (simp add: BytesToString_eq_iff)
  ultimately show "\<exists>w vs rest. r = StringToBytes Flag @ PutUint32 w @ PutUint16 vs @ rest
       \<and> w \<noteq> 0 \<and> n - 11 < unat vs \<and> unat vs \<le> n"
    using r r1 w v by (metis append.assoc)
qed

theorem ReadClientHello_panics_iff_witness:
  "ReadClientHello (StringToBytes Flag @ PutUint32 1 @ PutUint16 250) 256 256 = Panic"
proof -
  have "\<exists>w vs rest. StringToBytes Flag @ PutUint32 1 @ PutUint16 250
          = StringToBytes Flag @ PutUint32 w @ PutUint16 vs @ rest
       \<and> w \<noteq> 0 \<and> (256::nat) - 11 < unat vs \<and> unat vs \<le> 256"
    by (intro exI [of _ "1::32 word"] exI [of _ "250::16 word"] exI [of _ "[]::bytes"]) simp
  then show ?thesis
    using ReadClientHello_panics_iff [of 256 "StringToBytes Flag @ PutUint32 1 @ PutUint16 250"]
    by simp
qed

text \<open>
  The client's reader of the server's hello never panics, whatever the peer sends.
\<close>

theorem ReadServerHello_no_panic:
  assumes "n \<le> c"
  shows "ReadServerHello r n c \<noteq> Panic"
  using assms
  by (auto simp: ReadServerHello_def Let_def split: prod.splits option.splits if_splits)

theorem ReadServerHello_no_panic_witness:
  "ReadServerHello (StringToBytes Flag @ [0, 0, 0, 0, 1, 255, 255]) 128 128 \<noteq> Panic"
  by (rule ReadServerHello_no_panic) simp

end
