(* ===== verification/Server.thy ===== *)
theory Server
  imports Relay ServerTransport HelloMsg
begin

text \<open>
  \<open>server.go\<close>: accepting connections, the handshake and the choice between the transport, an
  HTTP server on the same port and a backend for foreign protocols.  The read buffer of a
  connection has 256 bytes.
\<close>

section \<open>The server object\<close>

record server =
  sv_opts :: server_options
  sv_done :: bool
  sv_closed :: bool

definition NewServer :: "server_option list \<Rightarrow> server" where
  "NewServer opt = \<lparr>sv_opts = NewServer_opts opt, sv_done = False, sv_closed = False\<rparr>"

definition Server_Close :: "server \<Rightarrow> server \<times> gerr option" where
  "Server_Close s =
     (if \<not> sv_closed s then (s\<lparr>sv_closed := True, sv_done := True\<rparr>, None)
      else (s, Some ErrServerClosed))"

section \<open>The accept loop\<close>

text \<open>
  \<open>Serve\<close> over what \<open>Accept\<close> returns: a connection, an error that is a timeout, or another
  error; the flag of an error says whether the server had been closed then.  The delays are
  in milliseconds.  The result lists the accepted connections, the delays slept and, if the
  loop ended, the error returned.
\<close>

datatype 'c accept_event = AcceptConn 'c | AcceptTimeout bool | AcceptError bool gerr

definition next_delay :: "nat \<Rightarrow> nat" where
  "next_delay tempDelay =
     (let d = (if tempDelay = 0 then 5 else tempDelay * 2) in if d > 1000 then 1000 else d)"

fun accept_loop :: "nat \<Rightarrow> 'c accept_event list \<Rightarrow> 'c list \<times> nat list \<times> gerr option" where
  "accept_loop tempDelay [] = ([], [], None)"
| "accept_loop tempDelay (AcceptConn c # evs) =
     (case accept_loop 0 evs of (cs, ds, e) \<Rightarrow> (c # cs, ds, e))"
| "accept_loop tempDelay (AcceptTimeout closed # evs) =
     (if closed then ([], [], Some ErrServerClosed)
      else
        let d = next_delay tempDelay
        in case accept_loop d evs of (cs, ds, e) \<Rightarrow> (cs, d # ds, e))"
| "accept_loop tempDelay (AcceptError closed err # evs) =
     (if closed then ([], [], Some ErrServerClosed) else ([], [], Some err))"

section \<open>The handshake\<close>

text \<open>The results of \<open>hello\<close>, with the unread input.\<close>

record hello_result =
  hr_backend :: "http_conn option"
  hr_code :: hello_code
  hr_version :: string
  hr_window :: "32 word"
  hr_err :: "gerr option"

definition no_hello :: hello_result where
  "no_hello = \<lparr>hr_backend = None, hr_code = 0, hr_version = [], hr_window = 0, hr_err = None\<rparr>"

definition hello :: "bytes \<Rightarrow> nat \<Rightarrow> (hello_result \<times> bytes) outcome" where
  "hello inp n =
     (case ReadClientHello inp n n of
        Panic \<Rightarrow> Panic
      | Done ((msg, code, flag, e), r) \<Rightarrow>
          if code = HelloInvalidProtocol then
            Done (no_hello\<lparr>hr_backend := Some \<lparr>hc_b = flag, hc_in = r\<rparr>, hr_code := code, hr_err := e\<rparr>, r)
          else
            (case e of
               Some e \<Rightarrow>
                 if e = ErrShortBuffer
                 then Done (no_hello\<lparr>hr_code := HelloInvalidVersion\<rparr>, r)
                 else Done (no_hello\<lparr>hr_code := code, hr_err := Some e\<rparr>, r)
             | None \<Rightarrow>
                 if code \<noteq> HelloOk then Done (no_hello\<lparr>hr_code := code\<rparr>, r)
                 else if ProtocolVersion \<in> set (ch_Version msg)
                 then Done (no_hello\<lparr>hr_code := HelloOk, hr_window := ch_Window msg,
                              hr_version := ProtocolVersion\<rparr>, r)
                 else Done (no_hello\<lparr>hr_code := HelloInvalidVersion\<rparr>, r)))"

text \<open>\<open>sendHello\<close>: the bytes it writes, or the error before it writes.\<close>

definition sendHello :: "server_options \<Rightarrow> nat \<Rightarrow> hello_code \<Rightarrow> string \<Rightarrow> gerr + bytes" where
  "sendHello opts n code version =
     ServerHello_MarshalTo
       \<lparr>sh_Code = code, sh_Window = so_window opts,
        sh_Message = (if code = HelloOk then version else Hello_String code)\<rparr>
       (replicate n 0)"

section \<open>One connection\<close>

text \<open>
  What decides a connection besides its bytes: whether the hello timer fires first, whether
  the backend can be dialled, whether the HTTP server takes the connection before the
  server is closed, and whether the hello can be written.
\<close>

record serve_env =
  se_timed_out :: bool
  se_dial_ok :: bool
  se_http_takes :: bool
  se_write_err :: "gerr option"

datatype serve_result =
    SrvClosed bytes
  | SrvBackend http_conn
  | SrvHTTP http_conn
  | SrvTransport bytes server_transport

definition serve_conn :: "server_options \<Rightarrow> serve_env \<Rightarrow> bytes \<Rightarrow> serve_result outcome" where
  "serve_conn opts env inp =
     (if so_timeout opts > 0 \<and> se_timed_out env then Done (SrvClosed [])
      else
        case hello inp read_buffer_cap of
          Panic \<Rightarrow> Panic
        | Done (h, r) \<Rightarrow>
            if hr_err h \<noteq> None then Done (SrvClosed [])
            else
              (case hr_backend h of
                 Some backend \<Rightarrow>
                   if so_backend opts \<noteq> None then
                     (if se_dial_ok env then Done (SrvBackend backend) else Done (SrvClosed []))
                   else if so_handler opts \<noteq> None then
                     (if se_http_takes env then Done (SrvHTTP backend) else Done (SrvClosed []))
                   else
                     (case sendHello opts read_buffer_cap HelloInvalidProtocol [] of
                        Inl e \<Rightarrow> Done (SrvClosed [])
                      | Inr data \<Rightarrow>
                          Done (SrvClosed (if se_write_err env = None then data else [])))
               | None \<Rightarrow>
                   (case sendHello opts read_buffer_cap (hr_code h) (hr_version h) of
                      Inl e \<Rightarrow> Done (SrvClosed [])
                    | Inr data \<Rightarrow>
                        if se_write_err env \<noteq> None then Done (SrvClosed [])
                        else if hr_code h \<noteq> 0 then Done (SrvClosed data)
                        else Done (SrvTransport data (newServerTransport (hr_window h) r)))))"

section \<open>Facts\<close>

lemma accept_delays:
  "accept_loop d evs = (cs, ds, e) \<Longrightarrow> \<forall>x \<in> set ds. 5 \<le> x \<and> x \<le> 1000"
  if "d = 0 \<or> 5 \<le> d"
  using that
proof (induction d evs arbitrary: cs ds e rule: accept_loop.induct)
  case (3 d closed evs)
  have "5 \<le> next_delay d" "next_delay d \<le> 1000" using 3(3) by (auto simp: next_delay_def Let_def)
  then show ?case using 3 by (fastforce simp: Let_def split: prod.splits if_splits)
qed (fastforce split: prod.splits if_splits)+

text \<open>The delay after \<open>n + 1\<close> failures in a row.\<close>

lemma next_delay_power: "(next_delay ^^ Suc n) 0 = min (5 * 2 ^ n) 1000"
proof (induction n)
  case (Suc n)
  have "(next_delay ^^ Suc (Suc n)) 0 = next_delay ((next_delay ^^ Suc n) 0)" by simp
  also have "\<dots> = next_delay (min (5 * 2 ^ n) 1000)" by (simp only: Suc)
  also have "\<dots> = min (5 * 2 ^ Suc n) 1000" by (auto simp: next_delay_def Let_def min_def)
  finally show ?case .
qed (simp add: next_delay_def)

lemma accept_series:
  "accept_loop ((next_delay ^^ k) 0) (replicate n (AcceptTimeout False) @ evs)
     = (case accept_loop ((next_delay ^^ (k + n)) 0) evs of
          (cs, ds, e) \<Rightarrow> (cs, map (\<lambda>i. (next_delay ^^ Suc (k + i)) 0) [0..<n] @ ds, e))"
proof (induction n arbitrary: k)
  case (Suc n)
  have "map (\<lambda>i. (next_delay ^^ Suc (k + i)) 0) [0..<Suc n]
      = (next_delay ^^ Suc k) 0 # map (\<lambda>i. (next_delay ^^ Suc (Suc k + i)) 0) [0..<n]"
    using map_upt_Suc [of "\<lambda>i. (next_delay ^^ Suc (k + i)) 0" n] by simp
  then show ?case using Suc [of "Suc k"] by (simp add: Let_def split: prod.splits)
qed simp

text \<open>
  While \<open>Accept\<close> keeps timing out, the server waits 5 ms, then twice as long each time up to
  one second, and never gives up; in any run no delay is outside these bounds, and a
  connection starts the series again.
\<close>

theorem accept_backoff:
  assumes "accept_loop 0 evs = (cs, ds, e)" "d \<in> set ds"
  shows "5 \<le> d \<and> d \<le> 1000
    \<and> accept_loop 0 (replicate n (AcceptTimeout False) @ AcceptConn c # evs)
        = (c # cs, map (\<lambda>i. min (5 * 2 ^ i) 1000) [0..<n] @ ds, e)"
  using accept_delays [OF _ assms(1)] assms(2) accept_series [of 0 n "AcceptConn c # evs"] assms(1)
  unfolding next_delay_power by simp

theorem accept_backoff_witness:
  "accept_loop 0 (replicate 9 (AcceptTimeout False) @ AcceptConn 0 # [AcceptTimeout False :: nat accept_event])
    = ([0], map (\<lambda>i. min (5 * 2 ^ i) 1000) [0..<9] @ [5], None)"
  using accept_backoff [of "[AcceptTimeout False]" "[]" "[5]" None 5 9 0]
  by (simp add: next_delay_def)

end
