(* ===== verification/ClientTransport.thy ===== *)
theory ClientTransport
  imports ChannelTable ServerOptions HelloMsg
begin

text \<open>
  \<open>client_transport.go\<close>: the transport of one connection on the client.  The read loop is given
  turn by turn, as on the server.  The calls of \<open>Create\<close> are numbered in the order in which they
  took their ids; each is a small state machine between its \<open>select\<close> statements.  A
  dereference of a nil pointer is the place \<open>CPanic\<close>: it ends the process.
\<close>

section \<open>State\<close>

text \<open>
  \<open>keyClientChannel\<close> with the address of its channel and the call that waits for it, \<open>None\<close>
  being nil; the call number stands for \<open>keyClientChannelRW\<close>, its context and its Go channel.
\<close>

record key_channel =
  kc_channel :: "nat option"
  kc_rw :: "nat option"

datatype call_state = CallNew | CallSend | CallWait | CallRet "gerr + nat"

datatype client_pc =
    CCmd
  | CResult nat byte "nat option"
  | CWrite "64 word" nat nat
  | CSendClose "64 word"
  | CClean
  | CDone
  | CPanic

record client_transport =
  ct_base :: base_transport
  ct_used :: "64 word"
  ct_id :: "64 word"
  ct_window :: "32 word"
  ct_keys :: "64 word \<rightharpoonup> key_channel"
  ct_heap :: store
  ct_next :: nat
  ct_calls :: "call_state list"
  ct_cancelled :: "nat \<Rightarrow> bool"
  ct_late :: "(nat \<times> byte \<times> nat option) list"
  ct_closing :: "64 word list"
  ct_in :: bytes
  ct_pc :: client_pc

text \<open>\<open>ct_window\<close> is the window of the options; the window of the peer is in the base part.\<close>

definition start_client :: "32 word \<Rightarrow> 32 word \<Rightarrow> bytes \<Rightarrow> client_transport" where
  "start_client window remoteWindow inp =
     \<lparr>ct_base = new_base_transport remoteWindow, ct_used = 1, ct_id = 0, ct_window = window,
      ct_keys = Map.empty, ct_heap = Map.empty, ct_next = 0, ct_calls = [],
      ct_cancelled = (\<lambda>_. False), ct_late = [], ct_closing = [], ct_in = inp, ct_pc = CCmd\<rparr>"

section \<open>The handshake\<close>

text \<open>
  \<open>newClientTransport\<close> over a buffer of \<open>n\<close> bytes: the bytes written, and an error or the new
  transport.  \<open>werr\<close> is the error of the write, if it fails.
\<close>

definition newClientTransport ::
    "client_options \<Rightarrow> nat \<Rightarrow> gerr option \<Rightarrow> bytes \<Rightarrow> (bytes \<times> (gerr + client_transport)) outcome" where
  "newClientTransport opts n werr inp =
     (case ClientHello_MarshalTo \<lparr>ch_Window = co_window opts, ch_Version = [ProtocolVersion]\<rparr>
             (replicate n 0) of
        Inl e \<Rightarrow> Done ([], Inl e)
      | Inr data \<Rightarrow>
          (case werr of
             Some e \<Rightarrow> Done ([], Inl e)
           | None \<Rightarrow>
               (case ReadServerHello inp n n of
                  Panic \<Rightarrow> Panic
                | Done ((_, Some e), _) \<Rightarrow> Done (data, Inl e)
                | Done ((resp, None), rest) \<Rightarrow>
                    if sh_Code resp = HelloOk then
                      (if sh_Message resp \<noteq> ProtocolVersion
                       then Done (data, Inl (HelloError HelloInvalidVersion))
                       else Done (data, Inr (start_client (co_window opts) (sh_Window resp) rest)))
                    else Done (data, Inl (ErrText (Hello_String (sh_Code resp) @ '' '' @ sh_Message resp))))))"

section \<open>The read loop\<close>

text \<open>
  \<open>CommandCreate\<close>: the reply to a create request.  The branch for a cancelled call uses
  \<open>val.channel\<close>, which is nil there; a key whose reply came before has no \<open>rw\<close>.
\<close>

definition ct_create_cmd :: "client_transport \<Rightarrow> 64 word \<Rightarrow> byte \<Rightarrow> client_transport" where
  "ct_create_cmd t cid code =
     (case ct_keys t cid of
        None \<Rightarrow> t\<lparr>ct_pc := CSendClose cid\<rparr>
      | Some val \<Rightarrow>
          (case kc_channel val of
             Some a \<Rightarrow>
               t\<lparr>ct_keys := (ct_keys t)(cid := None),
                 ct_heap := store_update (ct_heap t) a (\<lambda>c. fst (ch_Close c)),
                 ct_pc := CSendClose cid\<rparr>
           | None \<Rightarrow>
               (case kc_rw val of
                  None \<Rightarrow> t\<lparr>ct_pc := CPanic\<rparr>
                | Some call \<Rightarrow>
                    if ct_cancelled t call
                    then t\<lparr>ct_keys := (ct_keys t)(cid := None), ct_pc := CPanic\<rparr>
                    else if code = 0 then
                      t\<lparr>ct_keys := (ct_keys t)(cid \<mapsto> \<lparr>kc_channel = Some (ct_next t), kc_rw = None\<rparr>),
                        ct_heap := (ct_heap t)(ct_next t \<mapsto>
                          newIOChannel cid (unat (ct_window t)) (unat (bt_window (ct_base t)))),
                        ct_next := Suc (ct_next t), ct_pc := CResult call code (Some (ct_next t))\<rparr>
                    else
                      t\<lparr>ct_keys := (ct_keys t)(cid \<mapsto> val\<lparr>kc_rw := None\<rparr>),
                        ct_pc := CResult call code None\<rparr>)))"

definition ct_close_cmd :: "client_transport \<Rightarrow> 64 word \<Rightarrow> client_transport" where
  "ct_close_cmd t cid =
     (case ct_keys t cid of
        None \<Rightarrow> t
      | Some val \<Rightarrow>
          (let t = (case kc_channel val of
                      None \<Rightarrow> t
                    | Some a \<Rightarrow> t\<lparr>ct_heap := store_update (ct_heap t) a (\<lambda>c. fst (ch_Close c))\<rparr>)
           in t\<lparr>ct_keys := (ct_keys t)(cid := None)\<rparr>))"

definition ct_write_max :: "nat \<Rightarrow> nat" where
  "ct_write_max sz = (if sz < 128 then sz else if sz > 32 * 1024 then 32 * 1024 else sz)"

definition ct_write_pass :: "client_transport \<Rightarrow> 64 word \<Rightarrow> nat \<Rightarrow> nat \<Rightarrow> client_transport" where
  "ct_write_pass t cid sz mx =
     (if sz = 0 then t\<lparr>ct_pc := CCmd\<rparr>
      else
        let n = (if sz > mx then mx else sz) in
        case ReadFull n (ct_in t) of
          (_, Some e, r) \<Rightarrow> t\<lparr>ct_in := r, ct_pc := CClean\<rparr>
        | (b, None, r) \<Rightarrow>
            let t = t\<lparr>ct_in := r, ct_pc := CWrite cid (sz - n) mx\<rparr> in
            (case ct_keys t cid of
               None \<Rightarrow> t
             | Some val \<Rightarrow>
                 (case kc_channel val of
                    None \<Rightarrow> t
                  | Some a \<Rightarrow> t\<lparr>ct_heap := store_update (ct_heap t) a (\<lambda>c. ch_Pipe c b)\<rparr>)))"

text \<open>Unlike the server, the client closes its channel when it reports an overflow.\<close>

definition ct_confirm :: "client_transport \<Rightarrow> 64 word \<Rightarrow> 16 word \<Rightarrow> client_transport list" where
  "ct_confirm t cid val =
     (case ct_keys t cid of
        None \<Rightarrow> [t\<lparr>ct_pc := CSendClose cid\<rparr>]
      | Some key \<Rightarrow>
          (case kc_channel key of
             None \<Rightarrow> [t\<lparr>ct_pc := CSendClose cid\<rparr>]
           | Some a \<Rightarrow>
               (case ct_heap t a of
                  None \<Rightarrow> []
                | Some c \<Rightarrow>
                    map (\<lambda>(c', overflow).
                       if overflow
                       then t\<lparr>ct_heap := (ct_heap t)(a \<mapsto> fst (ch_Close c')), ct_pc := CSendClose cid\<rparr>
                       else t\<lparr>ct_heap := (ct_heap t)(a \<mapsto> c'), ct_pc := CCmd\<rparr>)
                      (Confirm (bt_done (ct_base t)) c (ucast val)))))"

definition ct_command :: "client_transport \<Rightarrow> client_transport list" where
  "ct_command t =
     (case ReadFull 1 (ct_in t) of
        (_, Some e, r) \<Rightarrow> [t\<lparr>ct_in := r, ct_pc := CClean\<rparr>]
      | (c, None, r) \<Rightarrow>
          let cmd = hd c; t = t\<lparr>ct_in := r\<rparr> in
          if cmd = CommandPing then [t]
          else if cmd = CommandPong then
            map (\<lambda>(base, r, exit).
                t\<lparr>ct_base := base, ct_in := r, ct_pc := (if exit then CClean else CCmd)\<rparr>)
              (onPong (ct_base t) r)
          else if cmd = CommandCreate then
            (case ReadFull 9 r of
               (_, Some e, r) \<Rightarrow> [t\<lparr>ct_in := r, ct_pc := CClean\<rparr>]
             | (b, None, r) \<Rightarrow> [ct_create_cmd (t\<lparr>ct_in := r\<rparr>) (Uint64 b) (b ! 8)])
          else if cmd = CommandClose then
            (case ReadFull 8 r of
               (_, Some e, r) \<Rightarrow> [t\<lparr>ct_in := r, ct_pc := CClean\<rparr>]
             | (b, None, r) \<Rightarrow> [ct_close_cmd (t\<lparr>ct_in := r\<rparr>) (Uint64 b)])
          else if cmd = CommandWrite then
            (case ReadFull 10 r of
               (_, Some e, r) \<Rightarrow> [t\<lparr>ct_in := r, ct_pc := CClean\<rparr>]
             | (b, None, r) \<Rightarrow>
                 let sz = unat (Uint16 (drop 8 b))
                 in [t\<lparr>ct_in := r, ct_pc := CWrite (Uint64 b) sz (ct_write_max sz)\<rparr>])
          else if cmd = CommandConfirm then
            (case ReadFull 10 r of
               (_, Some e, r) \<Rightarrow> [t\<lparr>ct_in := r, ct_pc := CClean\<rparr>]
             | (b, None, r) \<Rightarrow> ct_confirm (t\<lparr>ct_in := r\<rparr>) (Uint64 b) (Uint16 (drop 8 b)))
          else [t\<lparr>ct_pc := CClean\<rparr>])"

section \<open>Create and its result\<close>

definition call_id :: "nat \<Rightarrow> 64 word" where
  "call_id n = of_nat (Suc n)"

definition FormatInt :: "int \<Rightarrow> string" where
  "FormatInt i = (if i < 0 then ''-'' @ Itoa (nat (- i)) else Itoa (nat i))"

text \<open>What \<open>Create\<close> makes of the value it receives.\<close>

definition create_value :: "64 word \<Rightarrow> byte \<Rightarrow> nat option \<Rightarrow> gerr + nat" where
  "create_value cid code v =
     (if code = 0 then Inr (the v)
      else if code = 1 then Inl (ErrText (''code=1 id already exists: '' @ FormatInt (sint cid)))
      else if code = 2 then Inl (ErrText ''code=2 too many channels'')
      else Inl (ErrText (''unknow error('' @ Itoa (unat code) @ '')'')))"

text \<open>
  The three cases of \<open>createResult\<close> that both of its \<open>select\<close> statements have, with the id to
  send a close frame for: the caller's context has ended, the transport is closed (the
  last component), the caller takes the result.
\<close>

definition result_cases ::
    "client_transport \<Rightarrow> nat \<Rightarrow> byte \<Rightarrow> nat option \<Rightarrow> (client_transport \<times> 64 word option \<times> bool) list" where
  "result_cases t n code v =
     (if ct_cancelled t n then
        (case v of
           Some a \<Rightarrow>
             if code = 0
             then [(t\<lparr>ct_heap := store_update (ct_heap t) a (\<lambda>c. fst (ch_Close c))\<rparr>,
                    map_option c_id (ct_heap t a), False)]
             else [(t, None, False)]
         | None \<Rightarrow> [(t, None, False)])
      else [])
     @ (if bt_done (ct_base t) then [(t, None, True)] else [])
     @ (if n < length (ct_calls t) \<and> ct_calls t ! n = CallWait
        then [(t\<lparr>ct_calls := (ct_calls t)[n := CallRet (create_value (call_id n) code v)]\<rparr>, None, False)]
        else [])"

definition createResult :: "client_transport \<Rightarrow> nat \<Rightarrow> byte \<Rightarrow> nat option \<Rightarrow> client_transport list" where
  "createResult t n code v =
     (let now = result_cases t n code v in
      if now = [] then [t\<lparr>ct_late := ct_late t @ [(n, code, v)], ct_pc := CCmd\<rparr>]
      else map (\<lambda>(t, i, exit).
        t\<lparr>ct_pc := (if exit then CClean else case i of None \<Rightarrow> CCmd | Some cid \<Rightarrow> CSendClose cid)\<rparr>) now)"

text \<open>The goroutine that \<open>createResult\<close> starts when nobody is ready.\<close>

definition late_result :: "client_transport \<Rightarrow> nat \<Rightarrow> client_transport list" where
  "late_result t i =
     (if i < length (ct_late t) then
        (case ct_late t ! i of (n, code, v) \<Rightarrow>
          map (\<lambda>(t, cid, _). t\<lparr>ct_closing := ct_closing t @ (case cid of None \<Rightarrow> [] | Some j \<Rightarrow> [j])\<rparr>)
            (result_cases (t\<lparr>ct_late := take i (ct_late t) @ drop (Suc i) (ct_late t)\<rparr>) n code v))
      else [])"

text \<open>The steps of \<open>Create\<close>: take an id, register, send the request, give up waiting.\<close>

definition create_start :: "client_transport \<Rightarrow> client_transport" where
  "create_start t = t\<lparr>ct_id := ct_id t + 1, ct_calls := ct_calls t @ [CallNew]\<rparr>"

definition create_register :: "client_transport \<Rightarrow> nat \<Rightarrow> client_transport" where
  "create_register t n =
     (if ct_cancelled t n then t\<lparr>ct_calls := (ct_calls t)[n := CallRet (Inl Canceled)]\<rparr>
      else t\<lparr>ct_keys := (ct_keys t)(call_id n \<mapsto> \<lparr>kc_channel = None, kc_rw = Some n\<rparr>),
             ct_calls := (ct_calls t)[n := CallSend]\<rparr>)"

definition create_give_up :: "client_transport \<Rightarrow> nat \<Rightarrow> client_transport list" where
  "create_give_up t n =
     (if ct_cancelled t n then [t\<lparr>ct_calls := (ct_calls t)[n := CallRet (Inl Canceled)]\<rparr>] else [])
     @ (if bt_done (ct_base t) then [t\<lparr>ct_calls := (ct_calls t)[n := CallRet (Inl ErrClientClosed)]\<rparr>]
        else [])"

definition create_send :: "client_transport \<Rightarrow> nat \<Rightarrow> client_transport list" where
  "create_send t n =
     create_give_up t n
     @ map (\<lambda>base. t\<lparr>ct_base := base, ct_calls := (ct_calls t)[n := CallWait]\<rparr>)
         (ch_send (ct_base t) (create_request (call_id n)))"

section \<open>Turns and goroutines\<close>

definition ct_turn :: "client_transport \<Rightarrow> client_transport list" where
  "ct_turn t =
     (case ct_pc t of
        CCmd \<Rightarrow> ct_command t
      | CResult n code v \<Rightarrow> createResult t n code v
      | CWrite cid sz mx \<Rightarrow> [ct_write_pass t cid sz mx]
      | CSendClose cid \<Rightarrow>
          map (\<lambda>base. t\<lparr>ct_base := base, ct_pc := CCmd\<rparr>) (sendClose (ct_base t) cid)
      | CClean \<Rightarrow>
          [t\<lparr>ct_heap := close_all (\<lambda>i. Option.bind (ct_keys t i) kc_channel) (ct_heap t),
             ct_base := bt_Close (ct_base t), ct_pc := CDone\<rparr>]
      | CDone \<Rightarrow> []
      | CPanic \<Rightarrow> [])"

definition ct_delete :: "client_transport \<Rightarrow> nat \<Rightarrow> client_transport" where
  "ct_delete t a =
     (case ct_heap t a of
        None \<Rightarrow> t
      | Some c \<Rightarrow>
          if Option.bind (ct_keys t (c_id c)) kc_channel = Some a
          then t\<lparr>ct_keys := (ct_keys t)(c_id c := None), ct_closing := ct_closing t @ [c_id c]\<rparr>
          else t)"

definition ct_send_closing :: "client_transport \<Rightarrow> nat \<Rightarrow> client_transport list" where
  "ct_send_closing t i =
     (if i < length (ct_closing t) then
        map (\<lambda>base. t\<lparr>ct_base := base, ct_closing := take i (ct_closing t) @ drop (Suc i) (ct_closing t)\<rparr>)
          (sendClose (ct_base t) (ct_closing t ! i))
      else [])"

text \<open>
  What the goroutines beside the read loop do: calls of \<open>Create\<close> with their contexts, delayed results, the
  users and goroutines of the channels, as on the server, and \<open>Close\<close>.  \<open>ct_cancelled\<close> says whose
  context has ended; nothing undoes that.
\<close>

inductive client_local :: "client_transport \<Rightarrow> client_transport \<Rightarrow> bool" where
  cl_start: "client_local t (create_start t)"
| cl_register: "n < length (ct_calls t) \<Longrightarrow> ct_calls t ! n = CallNew \<Longrightarrow> client_local t (create_register t n)"
| cl_send: "n < length (ct_calls t) \<Longrightarrow> ct_calls t ! n = CallSend \<Longrightarrow> t' \<in> set (create_send t n) \<Longrightarrow>
     client_local t t'"
| cl_give_up: "n < length (ct_calls t) \<Longrightarrow> ct_calls t ! n = CallWait \<Longrightarrow> t' \<in> set (create_give_up t n) \<Longrightarrow>
     client_local t t'"
| cl_cancel: "client_local t (t\<lparr>ct_cancelled := (ct_cancelled t)(n := True)\<rparr>)"
| cl_late_result: "t' \<in> set (late_result t i) \<Longrightarrow> client_local t t'"
| cl_user: "ct_heap t a = Some c \<Longrightarrow> c_id c' = c_id c \<Longrightarrow> (c_closed c \<Longrightarrow> c_closed c') \<Longrightarrow>
     client_local t (t\<lparr>ct_heap := (ct_heap t)(a \<mapsto> c')\<rparr>)"
| cl_exit: "ct_heap t a = Some c \<Longrightarrow>
     client_local t (ct_delete (t\<lparr>ct_heap := store_update (ct_heap t) a (\<lambda>c. fst (ch_Close c))\<rparr>) a)"
| cl_frame: "ct_heap t a = Some c \<Longrightarrow> channel_frame c f \<Longrightarrow>
     base \<in> set (ch_send (ct_base t) f) \<Longrightarrow> client_local t (t\<lparr>ct_base := base\<rparr>)"
| cl_ping: "base \<in> set (ch_send (ct_base t) [CommandPing]) \<Longrightarrow> client_local t (t\<lparr>ct_base := base\<rparr>)"
| cl_closing: "t' \<in> set (ct_send_closing t i) \<Longrightarrow> client_local t t'"
| cl_late_write: "base \<in> set (late_write (ct_base t) i) \<Longrightarrow> client_local t (t\<lparr>ct_base := base\<rparr>)"
| cl_shutdown: "client_local t (t\<lparr>ct_base := bt_Close (ct_base t)\<rparr>)"

text \<open>After a panic nothing runs.  The writer takes frames from the queue.\<close>

inductive client_step :: "client_transport \<Rightarrow> client_transport \<Rightarrow> bool" where
  cs_turn: "t' \<in> set (ct_turn t) \<Longrightarrow> client_step t t'"
| cs_local: "ct_pc t \<noteq> CPanic \<Longrightarrow> client_local t t' \<Longrightarrow> client_step t t'"
| cs_taken: "ct_pc t \<noteq> CPanic \<Longrightarrow> bt_ch (ct_base t) = f # fs \<Longrightarrow>
     client_step t (t\<lparr>ct_base := (ct_base t)\<lparr>bt_ch := fs\<rparr>\<rparr>)"

inductive client_reachable :: "32 word \<Rightarrow> 32 word \<Rightarrow> bytes \<Rightarrow> client_transport \<Rightarrow> bool"
    for window rwindow inp where
  cr_start: "client_reachable window rwindow inp (start_client window rwindow inp)"
| cr_step: "client_reachable window rwindow inp t \<Longrightarrow> client_step t t' \<Longrightarrow>
     client_reachable window rwindow inp t'"

section \<open>The invariant\<close>

definition ct_chans :: "client_transport \<Rightarrow> 64 word \<Rightarrow> nat option" where
  "ct_chans t = (\<lambda>i. Option.bind (ct_keys t i) kc_channel)"

lemma ct_chans_simps [simp]:
  "ct_chans (t\<lparr>ct_keys := (ct_keys t)(i := k)\<rparr>) = (ct_chans t)(i := Option.bind k kc_channel)"
  "ct_chans (t\<lparr>ct_heap := h\<rparr>) = ct_chans t" "ct_chans (t\<lparr>ct_pc := p\<rparr>) = ct_chans t"
  "ct_chans (t\<lparr>ct_in := r\<rparr>) = ct_chans t" "ct_chans (t\<lparr>ct_base := b\<rparr>) = ct_chans t"
  "ct_chans (t\<lparr>ct_calls := cl\<rparr>) = ct_chans t" "ct_chans (t\<lparr>ct_late := l\<rparr>) = ct_chans t"
  "ct_chans (t\<lparr>ct_closing := cs\<rparr>) = ct_chans t" "ct_chans (t\<lparr>ct_next := nx\<rparr>) = ct_chans t"
  "ct_chans (t\<lparr>ct_id := cid\<rparr>) = ct_chans t" "ct_chans (t\<lparr>ct_cancelled := ca\<rparr>) = ct_chans t"
  by (auto simp: ct_chans_def)

lemma c_id_newIOChannel [simp]: "c_id (newIOChannel i w rw) = i"
  by (simp add: newIOChannel_def)

text \<open>The channel at \<open>a\<close> is the one that was opened for call \<open>n\<close>.\<close>

definition owns :: "store \<Rightarrow> nat \<Rightarrow> nat \<Rightarrow> bool" where
  "owns h n a \<longleftrightarrow> (\<exists>c. h a = Some c \<and> c_id c = call_id n)"

definition result_ok :: "client_transport \<Rightarrow> nat \<Rightarrow> byte \<Rightarrow> nat option \<Rightarrow> bool" where
  "result_ok t n code v \<longleftrightarrow>
     n < length (ct_calls t) \<and> (code = 0 \<longrightarrow> (\<exists>a. v = Some a \<and> owns (ct_heap t) n a))"

definition core_inv :: "client_transport \<Rightarrow> bool" where
  "core_inv t \<longleftrightarrow>
     table_ok (ct_chans t) (ct_heap t) (ct_next t)
     \<and> ct_id t = of_nat (length (ct_calls t))
     \<and> (\<forall>i k n. ct_keys t i = Some k \<and> kc_rw k = Some n \<longrightarrow>
          n < length (ct_calls t) \<and> i = call_id n \<and> kc_channel k = None)
     \<and> (\<forall>n a. n < length (ct_calls t) \<and> ct_calls t ! n = CallRet (Inr a) \<longrightarrow> owns (ct_heap t) n a)
     \<and> (\<forall>(n, code, v) \<in> set (ct_late t). result_ok t n code v)
     \<and> base_ok (ct_base t)"

definition place_inv :: "client_transport \<Rightarrow> bool" where
  "place_inv t \<longleftrightarrow>
     (case ct_pc t of
        CResult n code v \<Rightarrow> result_ok t n code v
      | CDone \<Rightarrow> bt_conn_closed (ct_base t)
          \<and> (\<forall>a \<in> ran (ct_chans t). \<forall>c. ct_heap t a = Some c \<longrightarrow> c_closed c)
      | _ \<Rightarrow> True)"

lemma core_inv_simps [simp]:
  "core_inv (t\<lparr>ct_pc := p\<rparr>) = core_inv t" "core_inv (t\<lparr>ct_in := r\<rparr>) = core_inv t"
  "core_inv (t\<lparr>ct_closing := cs\<rparr>) = core_inv t" "core_inv (t\<lparr>ct_cancelled := ca\<rparr>) = core_inv t"
  by (simp_all add: core_inv_def result_ok_def)

lemma core_inv_base: "core_inv t \<Longrightarrow> base_ok b \<Longrightarrow> core_inv (t\<lparr>ct_base := b\<rparr>)"
  by (auto simp: core_inv_def result_ok_def)

lemma core_inv_base_ok: "core_inv t \<Longrightarrow> base_ok (ct_base t)"
  by (simp add: core_inv_def)

lemma core_inv_start: "core_inv (start_client window rwindow inp)"
  by (simp add: core_inv_def start_client_def table_ok_def ct_chans_def)

lemma owns_mono:
  "owns h n a \<Longrightarrow> (\<And>c. h a = Some c \<Longrightarrow> \<exists>c'. h' a = Some c' \<and> c_id c' = c_id c) \<Longrightarrow> owns h' n a"
  by (fastforce simp: owns_def)

lemma owns_update: "(\<And>c. c_id (f c) = c_id c) \<Longrightarrow> owns h n a \<Longrightarrow> owns (store_update h b f) n a"
  by (auto simp: owns_def store_update_def)

lemma core_inv_heap:
  assumes "core_inv t" "\<And>c. c_id (f c) = c_id c"
  shows "core_inv (t\<lparr>ct_heap := store_update (ct_heap t) a f\<rparr>)"
  using assms table_ok_update [of "ct_chans t" "ct_heap t" "ct_next t" f a] owns_update [of f]
  by (fastforce simp: core_inv_def result_ok_def)

lemma core_inv_remove:
  assumes "core_inv t"
  shows "core_inv (t\<lparr>ct_keys := (ct_keys t)(cid := None)\<rparr>)"
  using assms table_ok_delete [of "ct_chans t" "ct_heap t" "ct_next t" cid]
  by (auto simp: core_inv_def result_ok_def)

lemma core_inv_new_channel:
  assumes inv: "core_inv t"
  shows "core_inv (t\<lparr>ct_keys := (ct_keys t)(cid \<mapsto> \<lparr>kc_channel = Some (ct_next t), kc_rw = None\<rparr>),
    ct_heap := (ct_heap t)(ct_next t \<mapsto> newIOChannel cid w rw), ct_next := Suc (ct_next t)\<rparr>)"
    (is "core_inv ?t")
proof -
  have tab: "table_ok (ct_chans t) (ct_heap t) (ct_next t)" using inv by (simp add: core_inv_def)
  have fresh: "ct_heap t (ct_next t) = None" using table_ok_fresh [OF tab] .
  have keep: "owns (ct_heap ?t) n a" if "owns (ct_heap t) n a" for n a
    using that fresh by (auto simp: owns_def)
  have "ct_chans ?t = (ct_chans t)(cid \<mapsto> ct_next t)" by (auto simp: ct_chans_def)
  then have "table_ok (ct_chans ?t) (ct_heap ?t) (ct_next ?t)"
    using table_ok_insert [OF tab, of "newIOChannel cid w rw" cid] by simp
  then show ?thesis
    using inv keep unfolding core_inv_def result_ok_def by (auto; fastforce)
qed

lemma core_inv_no_rw:
  assumes inv: "core_inv t" and k: "ct_keys t cid = Some val"
  shows "core_inv (t\<lparr>ct_keys := (ct_keys t)(cid \<mapsto> val\<lparr>kc_rw := None\<rparr>)\<rparr>)"
proof -
  have "(ct_chans t)(cid := kc_channel val) = ct_chans t"
    using k by (auto simp: ct_chans_def)
  then show ?thesis using inv by (auto simp: core_inv_def result_ok_def)
qed

lemma core_inv_call:
  assumes inv: "core_inv t" and n: "n < length (ct_calls t)"
    and r: "\<And>a. st = CallRet (Inr a) \<Longrightarrow> owns (ct_heap t) n a"
  shows "core_inv (t\<lparr>ct_calls := (ct_calls t)[n := st]\<rparr>)"
  using inv n r unfolding core_inv_def result_ok_def by (auto simp: nth_list_update)

lemma result_ok_simps [simp]:
  "result_ok (t\<lparr>ct_pc := p\<rparr>) n code v = result_ok t n code v"
  "result_ok (t\<lparr>ct_in := r\<rparr>) n code v = result_ok t n code v"
  "result_ok (t\<lparr>ct_base := b\<rparr>) n code v = result_ok t n code v"
  "result_ok (t\<lparr>ct_closing := cs\<rparr>) n code v = result_ok t n code v"
  "result_ok (t\<lparr>ct_late := l\<rparr>) n code v = result_ok t n code v"
  by (simp_all add: result_ok_def)

lemma core_inv_late:
  "core_inv t \<Longrightarrow> (\<And>n code v. (n, code, v) \<in> set l \<Longrightarrow> result_ok t n code v) \<Longrightarrow>
    core_inv (t\<lparr>ct_late := l\<rparr>)"
  by (auto simp: core_inv_def)

lemma core_inv_lateD: "core_inv t \<Longrightarrow> (n, code, v) \<in> set (ct_late t) \<Longrightarrow> result_ok t n code v"
  by (auto simp: core_inv_def)

lemma create_value_owns:
  "result_ok t n code v \<Longrightarrow> create_value cid code v = Inr a \<Longrightarrow> owns (ct_heap t) n a"
  by (auto simp: result_ok_def create_value_def split: if_splits)

lemma result_cases_inv:
  assumes inv: "core_inv t" and ok: "result_ok t n code v"
    and t': "(t', i, exit) \<in> set (result_cases t n code v)"
  shows "core_inv t'"
proof -
  have cl: "core_inv (t\<lparr>ct_heap := store_update (ct_heap t) a (\<lambda>c. fst (ch_Close c))\<rparr>)" for a
    using inv by (rule core_inv_heap) simp
  have call: "core_inv (t\<lparr>ct_calls := (ct_calls t)[n := CallRet (create_value (call_id n) code v)]\<rparr>)"
  proof (rule core_inv_call [OF inv])
    show "n < length (ct_calls t)" using ok by (simp add: result_ok_def)
  qed (use create_value_owns [OF ok] in simp)
  show ?thesis
    using t' inv cl call by (auto simp: result_cases_def split: option.splits if_splits)
qed

lemma createResult_inv:
  assumes inv: "core_inv t" and ok: "result_ok t n code v" and t': "t' \<in> set (createResult t n code v)"
  shows "core_inv t' \<and> place_inv t'"
proof (cases "result_cases t n code v = []")
  case True
  then have "t' = t\<lparr>ct_late := ct_late t @ [(n, code, v)], ct_pc := CCmd\<rparr>"
    using t' by (simp add: createResult_def)
  moreover have "core_inv (t\<lparr>ct_late := ct_late t @ [(n, code, v)]\<rparr>)"
    using inv by (rule core_inv_late) (use inv ok in \<open>auto simp: core_inv_def\<close>)
  ultimately show ?thesis by (simp add: place_inv_def)
next
  case False
  then obtain u i exit where "(u, i, exit) \<in> set (result_cases t n code v)"
      "t' = u\<lparr>ct_pc := (if exit then CClean else case i of None \<Rightarrow> CCmd | Some cid \<Rightarrow> CSendClose cid)\<rparr>"
    using t' by (auto simp: createResult_def Let_def)
  then show ?thesis
    using result_cases_inv [OF inv ok] by (auto simp: place_inv_def split: option.splits)
qed

lemma set_without: "x \<in> set (take i xs @ drop (Suc i) xs) \<Longrightarrow> x \<in> set xs"
  using set_take_subset [of i xs] set_drop_subset [of "Suc i" xs] by auto

lemma late_result_inv:
  assumes inv: "core_inv t" and t': "t' \<in> set (late_result t i)"
  shows "core_inv t' \<and> ct_pc t' = ct_pc t"
proof -
  have "i < length (ct_late t)"
    using t' by (cases "i < length (ct_late t)") (simp_all add: late_result_def)
  moreover obtain n code v where "ct_late t ! i = (n, code, v)" by (rule prod_cases3)
  ultimately have late: "i < length (ct_late t)" "ct_late t ! i = (n, code, v)" by simp_all
  let ?u = "t\<lparr>ct_late := take i (ct_late t) @ drop (Suc i) (ct_late t)\<rparr>"
  have "core_inv ?u"
    using inv by (rule core_inv_late) (blast intro: core_inv_lateD [OF inv] dest: set_without)
  moreover have "(n, code, v) \<in> set (ct_late t)" using late by (metis nth_mem)
  then have "result_ok ?u n code v" using core_inv_lateD [OF inv] by simp
  moreover obtain w cid ex where w: "(w, cid, ex) \<in> set (result_cases ?u n code v)"
      "t' = w\<lparr>ct_closing := ct_closing w @ (case cid of None \<Rightarrow> [] | Some j \<Rightarrow> [j])\<rparr>"
    using t' late by (auto simp: late_result_def)
  moreover have "ct_pc w = ct_pc t"
    using w(1) by (auto simp: result_cases_def split: option.splits if_splits)
  ultimately show ?thesis using result_cases_inv by simp
qed

lemma ct_create_cmd_inv:
  assumes inv: "core_inv t"
  shows "core_inv (ct_create_cmd t cid code) \<and> place_inv (ct_create_cmd t cid code)"
proof (cases "ct_keys t cid")
  case None
  then show ?thesis using inv by (simp add: ct_create_cmd_def place_inv_def)
next
  case (Some val)
  show ?thesis
  proof (cases "kc_channel val")
    case (Some a)
    have "core_inv (t\<lparr>ct_keys := (ct_keys t)(cid := None),
        ct_heap := store_update (ct_heap t) a (\<lambda>c. fst (ch_Close c))\<rparr>)"
      using core_inv_heap [OF core_inv_remove [OF inv, of cid], of "\<lambda>c. fst (ch_Close c)" a] by simp
    then show ?thesis
      using \<open>ct_keys t cid = Some val\<close> Some by (simp add: ct_create_cmd_def place_inv_def)
  next
    case None
    show ?thesis
    proof (cases "kc_rw val")
      case (Some call)
      then have own: "call < length (ct_calls t)" "cid = call_id call"
        using inv \<open>ct_keys t cid = Some val\<close> by (auto simp: core_inv_def)
      show ?thesis
        using core_inv_remove [OF inv, of cid] core_inv_new_channel [OF inv, of cid]
          core_inv_no_rw [OF inv \<open>ct_keys t cid = Some val\<close>] own
          \<open>ct_keys t cid = Some val\<close> None Some
        by (auto simp: ct_create_cmd_def place_inv_def result_ok_def owns_def)
    qed (use inv \<open>ct_keys t cid = Some val\<close> None in \<open>simp add: ct_create_cmd_def place_inv_def\<close>)
  qed
qed

lemma ct_close_cmd_inv:
  assumes "core_inv t"
  shows "core_inv (ct_close_cmd t cid)"
  using core_inv_remove [OF assms, of cid]
    core_inv_remove [OF core_inv_heap [OF assms, of "\<lambda>c. fst (ch_Close c)"], of _ cid] assms
  by (auto simp: ct_close_cmd_def Let_def split: option.splits)

lemma ct_write_pass_inv:
  assumes inv: "core_inv t"
  shows "core_inv (ct_write_pass t cid sz mx) \<and> place_inv (ct_write_pass t cid sz mx)"
proof -
  obtain b e r where rd: "ReadFull (if sz > mx then mx else sz) (ct_in t) = (b, e, r)"
    by (cases "ReadFull (if sz > mx then mx else sz) (ct_in t)") auto
  have "core_inv (t\<lparr>ct_in := r', ct_pc := p, ct_heap := store_update (ct_heap t) a (\<lambda>c. ch_Pipe c b)\<rparr>)"
    for a r' p
    using core_inv_heap [of "t\<lparr>ct_in := r', ct_pc := p\<rparr>" "\<lambda>c. ch_Pipe c b" a] inv by simp
  then show ?thesis
    using rd inv by (auto simp: ct_write_pass_def Let_def place_inv_def split: option.splits)
qed

lemma core_inv_set_channel:
  assumes "core_inv t" "ct_heap t a = Some c" "c_id c' = c_id c"
  shows "core_inv (t\<lparr>ct_heap := (ct_heap t)(a \<mapsto> c')\<rparr>)"
proof -
  have "core_inv (t\<lparr>ct_heap := store_update (ct_heap t) a (\<lambda>x. c'\<lparr>c_id := c_id x\<rparr>)\<rparr>)"
    using assms(1) by (rule core_inv_heap) simp
  moreover have "c'\<lparr>c_id := c_id c\<rparr> = c'" using assms(3) by (metis io_channel.surjective io_channel.update_convs(1))
  ultimately show ?thesis using assms(2) by (simp add: store_update_def)
qed

lemma ct_confirm_inv:
  assumes inv: "core_inv t" and t': "t' \<in> set (ct_confirm t cid v)"
  shows "core_inv t' \<and> place_inv t'"
proof (cases "Option.bind (ct_keys t cid) kc_channel")
  case None
  then show ?thesis
    using inv t' by (cases "ct_keys t cid") (auto simp: ct_confirm_def place_inv_def)
next
  case (Some a)
  then obtain key where key: "ct_keys t cid = Some key" "kc_channel key = Some a"
    by (auto simp: bind_eq_Some_conv)
  then obtain c where h: "ct_heap t a = Some c"
    using t' by (cases "ct_heap t a") (simp_all add: ct_confirm_def)
  obtain c' ovf where c: "(c', ovf) \<in> set (Confirm (bt_done (ct_base t)) c (ucast v))"
      "t' = (if ovf then t\<lparr>ct_heap := (ct_heap t)(a \<mapsto> fst (ch_Close c')), ct_pc := CSendClose cid\<rparr>
             else t\<lparr>ct_heap := (ct_heap t)(a \<mapsto> c'), ct_pc := CCmd\<rparr>)"
  proof -
    have "t' \<in> (\<lambda>(c', ovf). if ovf
          then t\<lparr>ct_heap := (ct_heap t)(a \<mapsto> fst (ch_Close c')), ct_pc := CSendClose cid\<rparr>
          else t\<lparr>ct_heap := (ct_heap t)(a \<mapsto> c'), ct_pc := CCmd\<rparr>)
        ` set (Confirm (bt_done (ct_base t)) c (ucast v))"
      using t' key h by (simp add: ct_confirm_def)
    then show thesis using that by auto
  qed
  have "core_inv (t\<lparr>ct_heap := (ct_heap t)(a \<mapsto> c')\<rparr>)"
    "core_inv (t\<lparr>ct_heap := (ct_heap t)(a \<mapsto> fst (ch_Close c'))\<rparr>)"
    using core_inv_set_channel [OF inv h] c_id_Confirm [OF c(1)] by simp_all
  then show ?thesis using c(2) by (simp add: place_inv_def)
qed

lemma ct_command_inv:
  assumes inv: "core_inv t" and pc: "ct_pc t = CCmd" and t': "t' \<in> set (ct_command t)"
  shows "core_inv t' \<and> place_inv t'"
proof -
  obtain c e r where rd: "ReadFull 1 (ct_in t) = (c, e, r)" by (cases "ReadFull 1 (ct_in t)") auto
  have inv0: "core_inv (t\<lparr>ct_in := r\<rparr>)" for r using inv by simp
  show ?thesis
  proof (cases e)
    case (Some x)
    then show ?thesis using t' rd inv by (auto simp: ct_command_def place_inv_def)
  next
    case None
    consider "hd c = CommandPing" | "hd c = CommandPong" | "hd c = CommandCreate"
      | "hd c = CommandClose" | "hd c = CommandWrite" | "hd c = CommandConfirm"
      | "hd c \<notin> {1, 2, 3, 4, 5, 6}"
      by blast
    then show ?thesis
    proof cases
      case 2
      then obtain base r' exit where "(base, r', exit) \<in> set (onPong (ct_base t) r)"
          "t' = t\<lparr>ct_base := base, ct_in := r', ct_pc := (if exit then CClean else CCmd)\<rparr>"
        using t' rd None by (auto simp: ct_command_def Let_def)
      then show ?thesis
        using core_inv_base [OF inv] base_ok_sends(5) [OF core_inv_base_ok [OF inv]]
        by (simp add: place_inv_def)
    next
      case 3
      obtain b e' r' where "ReadFull 9 r = (b, e', r')" by (cases "ReadFull 9 r") auto
      then show ?thesis using t' rd None 3 inv ct_create_cmd_inv [OF inv0]
        by (cases e') (auto simp: ct_command_def Let_def place_inv_def)
    next
      case 4
      obtain b e' r' where rd': "ReadFull 8 r = (b, e', r')" by (cases "ReadFull 8 r") auto
      have "ct_pc (ct_close_cmd (t\<lparr>ct_in := r'\<rparr>) (Uint64 b)) = CCmd"
        using pc by (auto simp: ct_close_cmd_def Let_def split: option.splits)
      then show ?thesis using t' rd None 4 rd' inv ct_close_cmd_inv [OF inv0]
        by (cases e') (auto simp: ct_command_def Let_def place_inv_def)
    next
      case 5
      obtain b e' r' where "ReadFull 10 r = (b, e', r')" by (cases "ReadFull 10 r") auto
      then show ?thesis using t' rd None 5 inv
        by (cases e') (auto simp: ct_command_def Let_def place_inv_def)
    next
      case 6
      obtain b e' r' where rd': "ReadFull 10 r = (b, e', r')" by (cases "ReadFull 10 r") auto
      show ?thesis
      proof (cases e')
        case None
        then have "t' \<in> set (ct_confirm (t\<lparr>ct_in := r'\<rparr>) (Uint64 b) (Uint16 (drop 8 b)))"
          using t' rd \<open>e = None\<close> 6 rd' by (simp add: ct_command_def Let_def)
        then show ?thesis by (rule ct_confirm_inv [OF inv0])
      qed (use t' rd None 6 rd' inv in \<open>auto simp: ct_command_def Let_def place_inv_def\<close>)
    qed (use t' rd None inv pc in \<open>auto simp: ct_command_def Let_def place_inv_def\<close>)
  qed
qed

lemma ct_turn_inv:
  assumes inv: "core_inv t" and pl: "place_inv t" and t': "t' \<in> set (ct_turn t)"
  shows "core_inv t' \<and> place_inv t'"
proof (cases "ct_pc t")
  case CCmd
  then show ?thesis using t' ct_command_inv [OF inv] by (simp add: ct_turn_def)
next
  case (CResult n code v)
  then show ?thesis
    using t' pl createResult_inv [OF inv, of n code v] by (simp add: ct_turn_def place_inv_def)
next
  case (CWrite cid sz mx)
  then show ?thesis using t' ct_write_pass_inv [OF inv] by (simp add: ct_turn_def)
next
  case (CSendClose cid)
  then obtain base where "base \<in> set (sendClose (ct_base t) cid)" "t' = t\<lparr>ct_base := base, ct_pc := CCmd\<rparr>"
    using t' by (auto simp: ct_turn_def)
  then show ?thesis
    using core_inv_base [OF inv] base_ok_sends(2) [OF core_inv_base_ok [OF inv]]
    by (simp add: place_inv_def)
next
  case CClean
  then have t'_eq: "t' = t\<lparr>ct_heap := close_all (ct_chans t) (ct_heap t),
      ct_base := bt_Close (ct_base t), ct_pc := CDone\<rparr>"
    using t' by (simp add: ct_turn_def ct_chans_def)
  have own: "owns (close_all (ct_chans t) (ct_heap t)) n a" if "owns (ct_heap t) n a" for n a
    using that by (auto simp: owns_def close_all_def)
  have "core_inv (t\<lparr>ct_heap := close_all (ct_chans t) (ct_heap t)\<rparr>)"
    using inv own by (fastforce simp: core_inv_def result_ok_def table_ok_close_all)
  then have "core_inv t'"
    using core_inv_base base_ok_Close [OF core_inv_base_ok [OF inv]] unfolding t'_eq by fastforce
  moreover have "c_closed c" if "a \<in> ran (ct_chans t)" "close_all (ct_chans t) (ct_heap t) a = Some c" for a c
    using that close_all_closed by (auto simp: ran_def)
  ultimately show ?thesis
    using base_ok_Close [OF core_inv_base_ok [OF inv]] by (simp add: t'_eq place_inv_def)
qed (use t' in \<open>simp_all add: ct_turn_def\<close>)

text \<open>What another goroutine may do while the read loop stays where it is.\<close>

lemma place_inv_frame:
  assumes "place_inv t" "ct_pc t' = ct_pc t" "length (ct_calls t) \<le> length (ct_calls t')"
    and "\<And>n a. owns (ct_heap t) n a \<Longrightarrow> owns (ct_heap t') n a"
    and "ran (ct_chans t') \<subseteq> ran (ct_chans t)" "bt_conn_closed (ct_base t) \<Longrightarrow> bt_conn_closed (ct_base t')"
    and "\<And>a c'. ct_heap t' a = Some c' \<Longrightarrow> \<exists>c. ct_heap t a = Some c \<and> (c_closed c \<longrightarrow> c_closed c')"
  shows "place_inv t'"
proof (cases "ct_pc t")
  case (CResult n code v)
  then show ?thesis using assms(1-4) by (fastforce simp: place_inv_def result_ok_def)
next
  case CDone
  have "c_closed c'" if "a \<in> ran (ct_chans t')" "ct_heap t' a = Some c'" for a c'
    using assms(1,5,7) that CDone by (fastforce simp: place_inv_def)
  then show ?thesis using assms(1,2,6) CDone by (simp add: place_inv_def)
qed (use assms in \<open>simp_all add: place_inv_def\<close>)

lemma place_inv_calls:
  assumes "place_inv t" "length (ct_calls t) \<le> length cl"
  shows "place_inv (t\<lparr>ct_calls := cl\<rparr>)" "place_inv (t\<lparr>ct_id := j, ct_calls := cl\<rparr>)"
  by (rule place_inv_frame [OF assms(1)]; use assms(2) in simp)+

lemma place_inv_base:
  assumes "place_inv t" "bt_conn_closed (ct_base t) \<Longrightarrow> bt_conn_closed b"
  shows "place_inv (t\<lparr>ct_base := b\<rparr>)"
  by (rule place_inv_frame [OF assms(1)]; use assms(2) in simp)

lemma place_inv_closing [simp]: "place_inv (t\<lparr>ct_closing := cs\<rparr>) = place_inv t"
  by (cases "ct_pc t") (simp_all add: place_inv_def)

lemma place_inv_close:
  assumes "place_inv t"
  shows "place_inv (t\<lparr>ct_heap := store_update (ct_heap t) a (\<lambda>c. fst (ch_Close c))\<rparr>)"
proof (rule place_inv_frame [OF assms])
  fix b c'
  assume "ct_heap (t\<lparr>ct_heap := store_update (ct_heap t) a (\<lambda>c. fst (ch_Close c))\<rparr>) b = Some c'"
  then show "\<exists>c. ct_heap t b = Some c \<and> (c_closed c \<longrightarrow> c_closed c')"
    by (cases "b = a") (auto simp: ch_Close_closed)
qed (auto intro: owns_update)

lemma place_inv_remove:
  assumes "place_inv t"
  shows "place_inv (t\<lparr>ct_keys := (ct_keys t)(i := None)\<rparr>)"
  by (rule place_inv_frame [OF assms]) (auto simp: ran_def)

definition client_inv :: "client_transport \<Rightarrow> bool" where
  "client_inv t \<longleftrightarrow> core_inv t \<and> place_inv t"

lemma create_start_inv: "client_inv t \<Longrightarrow> client_inv (create_start t)"
  using place_inv_calls(2) [of t "ct_calls t @ [CallNew]" "ct_id t + 1"]
  by (auto simp: client_inv_def core_inv_def create_start_def result_ok_def nth_append less_Suc_eq
      split: if_splits)

lemma create_register_inv:
  assumes inv: "client_inv t" and n: "n < length (ct_calls t)"
  shows "client_inv (create_register t n)"
proof -
  have c: "core_inv t" and p: "place_inv t" using inv by (simp_all add: client_inv_def)
  let ?k = "\<lparr>kc_channel = None, kc_rw = Some n\<rparr>"
  let ?u = "t\<lparr>ct_keys := (ct_keys t)(call_id n \<mapsto> ?k)\<rparr>"
  have "core_inv ?u"
    using c n table_ok_delete [of "ct_chans t" "ct_heap t" "ct_next t" "call_id n"]
    by (auto simp: core_inv_def result_ok_def)
  then have "core_inv (?u\<lparr>ct_calls := (ct_calls t)[n := CallSend]\<rparr>)"
    using n core_inv_call [of ?u n CallSend] by simp
  moreover have "place_inv (?u\<lparr>ct_calls := (ct_calls t)[n := CallSend]\<rparr>)"
    by (rule place_inv_frame [OF p]) (auto simp: ran_def)
  moreover have "client_inv (t\<lparr>ct_calls := (ct_calls t)[n := CallRet (Inl Canceled)]\<rparr>)"
    using core_inv_call [OF c n, of "CallRet (Inl Canceled)"] place_inv_calls(1) [OF p]
    by (simp add: client_inv_def)
  ultimately show ?thesis by (simp add: create_register_def client_inv_def)
qed

lemma create_give_up_inv:
  assumes inv: "client_inv t" and n: "n < length (ct_calls t)" and t': "t' \<in> set (create_give_up t n)"
  shows "client_inv t'"
  using t' core_inv_call [of t n] place_inv_calls(1) [of t] inv n
  by (auto simp: create_give_up_def client_inv_def split: if_splits)

lemma create_send_inv:
  assumes inv: "client_inv t" and n: "n < length (ct_calls t)" and t': "t' \<in> set (create_send t n)"
  shows "client_inv t'"
proof (cases "t' \<in> set (create_give_up t n)")
  case False
  then obtain b where b: "b \<in> set (ch_send (ct_base t) (create_request (call_id n)))"
      "t' = t\<lparr>ct_base := b, ct_calls := (ct_calls t)[n := CallWait]\<rparr>"
    using t' by (auto simp: create_send_def)
  have "core_inv (t\<lparr>ct_base := b\<rparr>)" "place_inv (t\<lparr>ct_base := b\<rparr>)"
    using inv core_inv_base base_ok_sends(1) [OF core_inv_base_ok b(1)] place_inv_base
      ch_send_frame [OF b(1)]
    by (simp_all add: client_inv_def)
  then show ?thesis
    using b(2) n core_inv_call [of "t\<lparr>ct_base := b\<rparr>" n CallWait]
      place_inv_calls(1) [of "t\<lparr>ct_base := b\<rparr>" "(ct_calls t)[n := CallWait]"]
    by (simp add: client_inv_def)
qed (use create_give_up_inv [OF inv n] in blast)

lemma ct_delete_inv: "client_inv t \<Longrightarrow> client_inv (ct_delete t a)"
  using core_inv_remove [of t] place_inv_remove [of t]
  by (auto simp: ct_delete_def client_inv_def place_inv_def split: option.splits client_pc.splits)

lemma close_inv:
  "client_inv t \<Longrightarrow> client_inv (t\<lparr>ct_heap := store_update (ct_heap t) a (\<lambda>c. fst (ch_Close c))\<rparr>)"
  using core_inv_heap [of t "\<lambda>c. fst (ch_Close c)"] place_inv_close by (simp add: client_inv_def)

lemma late_result_place:
  assumes "place_inv t" "t' \<in> set (late_result t i)"
  shows "place_inv t'"
proof -
  have i: "i < length (ct_late t)"
    using assms(2) by (cases "i < length (ct_late t)") (simp_all add: late_result_def)
  obtain n code v where l: "ct_late t ! i = (n, code, v)" by (rule prod_cases3)
  let ?u = "t\<lparr>ct_late := take i (ct_late t) @ drop (Suc i) (ct_late t)\<rparr>"
  obtain w cid ex where w: "(w, cid, ex) \<in> set (result_cases ?u n code v)"
      "t' = w\<lparr>ct_closing := ct_closing w @ (case cid of None \<Rightarrow> [] | Some j \<Rightarrow> [j])\<rparr>"
    using assms(2) i l by (auto simp: late_result_def)
  have u: "place_inv ?u" by (rule place_inv_frame [OF assms(1)]) simp_all
  have "place_inv w"
    using w(1) u place_inv_close [OF u] place_inv_calls(1) [OF u]
    by (auto simp: result_cases_def split: option.splits if_splits)
  then show ?thesis unfolding w(2) by (rule place_inv_frame) simp_all
qed

lemma client_local_inv: "client_local t t' \<Longrightarrow> client_inv t \<Longrightarrow> client_inv t'"
proof (induction rule: client_local.induct)
  case cl_start then show ?case by (blast intro: create_start_inv)
next
  case cl_register then show ?case by (blast intro: create_register_inv)
next
  case cl_send then show ?case by (blast intro: create_send_inv)
next
  case cl_give_up then show ?case by (blast intro: create_give_up_inv)
next
  case (cl_cancel t n)
  have "place_inv (t\<lparr>ct_cancelled := (ct_cancelled t)(n := True)\<rparr>)"
    by (rule place_inv_frame) (use cl_cancel in \<open>auto simp: client_inv_def\<close>)
  then show ?case using cl_cancel by (simp add: client_inv_def)
next
  case (cl_late_result t' t i)
  then show ?case using late_result_inv [of t t' i] late_result_place [of t t' i]
    by (simp add: client_inv_def)
next
  case (cl_user t a c c')
  have "place_inv (t\<lparr>ct_heap := (ct_heap t)(a \<mapsto> c')\<rparr>)"
    by (rule place_inv_frame) (use cl_user in \<open>auto simp: client_inv_def owns_def split: if_splits\<close>)
  then show ?case using cl_user core_inv_set_channel by (simp add: client_inv_def)
next
  case cl_exit then show ?case by (blast intro: close_inv ct_delete_inv)
next
  case (cl_frame t a c f base)
  then show ?case
    using core_inv_base [of t base] base_ok_sends(1) [OF core_inv_base_ok, of t base f]
      place_inv_base [of t base] ch_send_frame [of base "ct_base t" f]
    by (simp add: client_inv_def)
next
  case (cl_ping base t)
  then show ?case
    using core_inv_base [of t base] base_ok_sends(1) [OF core_inv_base_ok, of t base "[CommandPing]"]
      place_inv_base [of t base] ch_send_frame [of base "ct_base t" "[CommandPing]"]
    by (simp add: client_inv_def)
next
  case (cl_closing t' t i)
  then obtain base where b: "base \<in> set (sendClose (ct_base t) (ct_closing t ! i))"
      "t' = t\<lparr>ct_base := base, ct_closing := take i (ct_closing t) @ drop (Suc i) (ct_closing t)\<rparr>"
    by (auto simp: ct_send_closing_def split: if_splits)
  have "bt_conn_closed base = bt_conn_closed (ct_base t)" using sendClose_cases [OF b(1)] by auto
  then have "place_inv t'"
    unfolding b(2) using cl_closing place_inv_base [of t base] by (simp add: client_inv_def)
  moreover have "core_inv t'"
    unfolding b(2) using cl_closing core_inv_base [of t base] base_ok_sends(2) [OF core_inv_base_ok b(1)]
    by (simp add: client_inv_def)
  ultimately show ?case by (simp add: client_inv_def)
next
  case (cl_late_write base t i)
  then show ?case
    using core_inv_base [of t base] base_ok_sends(4) [OF core_inv_base_ok, of t base i]
      place_inv_base [of t base] late_write_conn [of base "ct_base t" i]
    by (simp add: client_inv_def)
next
  case (cl_shutdown t)
  then show ?case
    using core_inv_base [of t "bt_Close (ct_base t)"] place_inv_base [of t "bt_Close (ct_base t)"]
      base_ok_Close [of "ct_base t"] core_inv_base_ok [of t]
    by (simp add: client_inv_def)
qed

lemma client_step_inv: "client_step t t' \<Longrightarrow> client_inv t \<Longrightarrow> client_inv t'"
proof (induction rule: client_step.induct)
  case (cs_turn t' t)
  then show ?case using ct_turn_inv [of t t'] by (simp add: client_inv_def)
next
  case cs_local then show ?case by (blast intro: client_local_inv)
next
  case (cs_taken t f fs)
  let ?b = "(ct_base t)\<lparr>bt_ch := fs\<rparr>"
  show ?case
    using cs_taken core_inv_base [of t ?b] place_inv_base [of t ?b] core_inv_base_ok [of t]
    by (simp add: client_inv_def)
qed

lemma client_reachable_inv: "client_reachable window rwindow inp t \<Longrightarrow> client_inv t"
proof (induction rule: client_reachable.induct)
  case cr_start
  show ?case using core_inv_start by (simp add: client_inv_def place_inv_def start_client_def)
qed (blast intro: client_step_inv)

section \<open>The interface to the channels\<close>

definition ct_chan_id :: "client_transport \<Rightarrow> nat \<Rightarrow> 64 word option" where
  "ct_chan_id t a = map_option c_id (ct_heap t a)"

interpretation cl: io_transport ct_chans ct_chan_id ct_delete ct_closing
  by unfold_locales
    (auto simp: ct_chan_id_def ct_chans_def ct_delete_def fun_eq_iff split: option.splits)

text \<open>
  The same for the client: an ending channel takes only its own entry out of the table,
  not one of a call that waits for its reply or of a newer channel, and does so once.
\<close>

theorem client_delete_own_only:
  assumes "ct_heap t a = Some c"
  shows "(Option.bind (ct_keys t (c_id c)) kc_channel \<noteq> Some a \<longrightarrow> ct_delete t a = t)
    \<and> ct_delete (ct_delete t a) a = ct_delete t a"
proof -
  have "ct_chan_id t a = Some (c_id c)" using assms by (simp add: ct_chan_id_def)
  then show ?thesis using cl.delete_other cl.delete_twice by (simp add: ct_chans_def)
qed

theorem client_delete_own_only_witness:
  "ct_delete ((start_client 8 8 [])\<lparr>ct_heap := [0 \<mapsto> newIOChannel 5 8 8]\<rparr>) 0
     = (start_client 8 8 [])\<lparr>ct_heap := [0 \<mapsto> newIOChannel 5 8 8]\<rparr>"
  using client_delete_own_only
      [of "(start_client 8 8 [])\<lparr>ct_heap := [0 \<mapsto> newIOChannel 5 8 8]\<rparr>" 0 "newIOChannel 5 8 8"]
  by (simp add: start_client_def)

section \<open>Create\<close>

lemma unat_call_id: "Suc n < 2 ^ 64 \<Longrightarrow> unat (call_id n) = Suc n"
  unfolding call_id_def by (rule unat_of_nat_le) simp

lemma call_id_inj: "Suc n < 2 ^ 64 \<Longrightarrow> Suc m < 2 ^ 64 \<Longrightarrow> call_id n = call_id m \<Longrightarrow> n = m"
  by (metis unat_call_id Suc_inject)

lemma client_result_owned:
  assumes "client_reachable window rwindow inp t" "m < length (ct_calls t)" "ct_calls t ! m = CallRet (Inr b)"
  shows "owns (ct_heap t) m b"
  using client_reachable_inv [OF assms(1)] assms(2,3) by (simp add: client_inv_def core_inv_def)

lemma client_result_unique:
  assumes "client_reachable window rwindow inp t" "length (ct_calls t) < 2 ^ 64"
    and "n < length (ct_calls t)" "ct_calls t ! n = CallRet (Inr a)"
    and "m < length (ct_calls t)" "ct_calls t ! m = CallRet (Inr a)"
  shows "m = n"
proof -
  have "call_id m = call_id n"
    using client_result_owned [OF assms(1,3,4)] client_result_owned [OF assms(1,5,6)] by (auto simp: owns_def)
  moreover have "Suc m < 2 ^ 64" "Suc n < 2 ^ 64" using assms(2,3,5) by linarith+
  ultimately show ?thesis using call_id_inj by blast
qed

text \<open>
  C17: a call of \<open>Create\<close> that succeeds returns the channel that was opened for its own id,
  whatever the order of replies, cancellations and closings, and two calls never share a
  channel while the ids have not gone round.
\<close>

theorem client_create_own_channel:
  assumes "client_reachable window rwindow inp t" "length (ct_calls t) < 2 ^ 64"
    and "n < length (ct_calls t)" "ct_calls t ! n = CallRet (Inr a)"
  shows "(\<exists>c. ct_heap t a = Some c \<and> c_id c = call_id n)
    \<and> (\<forall>m < length (ct_calls t). m \<noteq> n \<longrightarrow> ct_calls t ! m \<noteq> CallRet (Inr a))"
proof -
  have "\<exists>c. ct_heap t a = Some c \<and> c_id c = call_id n"
    using client_result_owned [OF assms(1,3,4)] by (auto simp: owns_def)
  then show ?thesis using client_result_unique [OF assms] by blast
qed


text \<open>The states after a registered and sent first call, its reply still to be read.\<close>

definition asked :: "bool \<Rightarrow> client_transport" where
  "asked cancelled =
     (start_client 8 8 (create_reply 1 0))\<lparr>ct_id := 1,
       ct_keys := [1 \<mapsto> \<lparr>kc_channel = None, kc_rw = Some 0\<rparr>], ct_calls := [CallWait],
       ct_base := (new_base_transport 8)\<lparr>bt_ch := [create_request 1]\<rparr>,
       ct_cancelled := (\<lambda>_. False)(0 := cancelled)\<rparr>"

lemma call_id_0: "call_id 0 = 1"
  by (simp add: call_id_def)

lemma asked_reachable: "client_reachable 8 8 (create_reply 1 0) (asked cancelled)"
proof -
  let ?i = "create_reply 1 0"
  let ?t0 = "start_client 8 8 ?i"
  let ?t1 = "create_start ?t0"
  let ?t2 = "create_register ?t1 0"
  let ?t3 = "?t2\<lparr>ct_base := (new_base_transport 8)\<lparr>bt_ch := [create_request 1]\<rparr>, ct_calls := [CallWait]\<rparr>"
  have t1: "ct_calls ?t1 = [CallNew]" "ct_pc ?t1 = CCmd"
    by (simp_all add: create_start_def start_client_def)
  have t2: "ct_calls ?t2 = [CallSend]" "ct_pc ?t2 = CCmd" "ct_base ?t2 = new_base_transport 8"
    by (simp_all add: create_register_def create_start_def start_client_def)
  have 1: "client_reachable 8 8 ?i ?t1"
    by (rule cr_step [OF cr_start cs_local [OF _ cl_start]]) (simp add: start_client_def)
  have 2: "client_reachable 8 8 ?i ?t2"
    by (rule cr_step [OF 1 cs_local [OF _ cl_register]]) (simp_all add: t1)
  have 3: "client_reachable 8 8 ?i ?t3"
    by (rule cr_step [OF 2 cs_local [OF _ cl_send [where n = 0]]])
      (simp_all add: t2 create_send_def ch_send_def call_id_0 ch_capacity_def new_base_transport_def)
  have f: "?t3 = asked False"
    by (simp add: asked_def create_register_def create_start_def start_client_def call_id_0 fun_upd_idem)
  then have no: "client_reachable 8 8 ?i (asked False)" using 3 by simp
  have "client_reachable 8 8 ?i ((asked False)\<lparr>ct_cancelled := (ct_cancelled (asked False))(0 := True)\<rparr>)"
    by (rule cr_step [OF no cs_local [OF _ cl_cancel]]) (simp add: asked_def start_client_def)
  then have "client_reachable 8 8 ?i (asked True)" by (simp add: asked_def)
  with no show ?thesis by (cases cancelled) simp_all
qed


definition answered :: client_transport where
  "answered =
     (asked False)\<lparr>ct_in := [], ct_keys := [1 \<mapsto> \<lparr>kc_channel = Some 0, kc_rw = None\<rparr>],
       ct_heap := [0 \<mapsto> newIOChannel 1 8 8], ct_next := 1, ct_calls := [CallRet (Inr 0)]\<rparr>"

lemma answered_reachable: "client_reachable 8 8 (create_reply 1 0) answered"
proof -
  let ?t4 = "(asked False)\<lparr>ct_in := [], ct_keys := [1 \<mapsto> \<lparr>kc_channel = Some 0, kc_rw = None\<rparr>],
       ct_heap := [0 \<mapsto> newIOChannel 1 8 8], ct_next := 1, ct_pc := CResult 0 0 (Some 0)\<rparr>"
  have rd: "ReadFull 9 (PutUint64 1 @ [0]) = (PutUint64 1 @ [0], None, [])"
    using ReadFull_append2 [of "PutUint64 1" "[0]" 9 "[]"] by simp
  have g: "Uint64 (PutUint64 1 @ [0]) = 1" "(PutUint64 1 @ [0]) ! 8 = (0 :: byte)"
    using u64.get_put [of 1 "[0]"] by (simp_all add: nth_append)
  have "?t4 \<in> set (ct_turn (asked False))"
    using rd g by (simp add: ct_turn_def ct_command_def create_reply_def asked_def start_client_def
        ct_create_cmd_def Let_def new_base_transport_def)
  then have 4: "client_reachable 8 8 (create_reply 1 0) ?t4"
    by (rule cr_step [OF asked_reachable cs_turn])
  have "answered \<in> set (ct_turn ?t4)"
    by (simp add: ct_turn_def createResult_def result_cases_def answered_def asked_def
        start_client_def create_value_def new_base_transport_def Let_def)
  then show ?thesis by (rule cr_step [OF 4 cs_turn])
qed

theorem client_create_own_channel_witness:
  "client_reachable 8 8 (create_reply 1 0) answered
   \<and> (\<exists>c. ct_heap answered 0 = Some c \<and> c_id c = call_id 0)"
  using client_create_own_channel [OF answered_reachable, of 0 0] answered_reachable
  by (simp add: answered_def)

end
