(* ===== verification/Handshake.thy ===== *)
theory Handshake
  imports Server ClientTransport
begin

text \<open>
  The handshake across both ends: \<open>newClientTransport\<close> of \<open>client_transport.go\<close> against
  \<open>serve\<close> and \<open>hello\<close> of \<open>server.go\<close>, with the messages of \<open>core/hello.go\<close> between them.
\<close>


definition http_server_options :: server_options where
  "http_server_options = NewServer_opts [ServerHTTP (Some 0)]"

definition ready_env :: serve_env where
  "ready_env = \<lparr>se_timed_out = False, se_dial_ok = True, se_http_takes = True, se_write_err = None\<rparr>"


lemma sendHello_writes:
  assumes "so_window opts \<noteq> 0"
  shows "sendHello opts 256 HelloOk ProtocolVersion =
    Inr (server_hello_wire \<lparr>sh_Code = HelloOk, sh_Window = so_window opts, sh_Message = ProtocolVersion\<rparr>)"
  using assms ProtocolVersion_nonempty length_ProtocolVersion
  by (simp add: sendHello_def ServerHello_MarshalTo_spec)

text \<open>
  C19: the two ends agree.  For all windows in the options, what a client writes makes the
  server start its transport, what the server answers makes the client start its own, each
  knows the other's window, and the bytes behind the two messages are still to be read.
\<close>

theorem handshake_agrees:
  assumes "so_window sopts \<noteq> 0" "co_window copts \<noteq> 0"
    and "\<not> se_timed_out env" "se_write_err env = None"
  shows "\<exists>req resp.
    (\<exists>e. newClientTransport copts 128 None [] = Done (req, Inl e))
    \<and> serve_conn sopts env (req @ early) = Done (SrvTransport resp (newServerTransport (co_window copts) early))
    \<and> newClientTransport copts 128 None (resp @ tail)
        = Done (req, Inr (start_client (co_window copts) (so_window sopts) tail))"
proof -
  let ?m = "\<lparr>ch_Window = co_window copts, ch_Version = [ProtocolVersion]\<rparr>"
  let ?s = "\<lparr>sh_Code = HelloOk, sh_Window = so_window sopts, sh_Message = ProtocolVersion\<rparr>"
  have req: "ClientHello_MarshalTo ?m (replicate 128 0) = Inr (client_hello_wire ?m)"
    using assms(2) by (simp add: ClientHello_MarshalTo_spec length_ProtocolVersion)
  have rd: "ReadClientHello (client_hello_wire ?m @ early) 256 256 = Done ((?m, HelloOk, [], None), early)"
    using assms(2) ProtocolVersion_no_comma ProtocolVersion_nonempty
    by (intro ReadClientHello_wire) (simp_all add: client_hello_fits_def length_ProtocolVersion)
  have srv: "serve_conn sopts env (client_hello_wire ?m @ early)
      = Done (SrvTransport (server_hello_wire ?s) (newServerTransport (co_window copts) early))"
    using assms rd sendHello_writes [of sopts]
    by (simp add: serve_conn_def hello_def read_buffer_cap_def no_hello_def)
  have answer: "ReadServerHello (server_hello_wire ?s @ tail) 128 128 = Done ((?s, None), tail)"
    using assms(1) ProtocolVersion_nonempty
    by (intro ReadServerHello_wire) (simp_all add: length_ProtocolVersion)
  have "ReadServerHello [] 128 128 = Done ((zero_server_hello, Some EOF), [])"
    by (simp add: ReadServerHello_def ReadFull_def Let_def)
  then show ?thesis
    using req srv answer
    by (intro exI [of _ "client_hello_wire ?m"] exI [of _ "server_hello_wire ?s"])
      (simp add: newClientTransport_def)
qed

theorem handshake_agrees_witness:
  "\<exists>req resp.
    serve_conn defaultServerOptions ready_env (req @ [1])
      = Done (SrvTransport resp (newServerTransport 32768 [1]))
    \<and> newClientTransport defaultClientOptions 128 None (resp @ [])
      = Done (req, Inr (start_client 32768 32768 []))"
  using handshake_agrees [of defaultServerOptions defaultClientOptions ready_env "[1]" "[]"]
  by (auto simp: defaultServerOptions_def defaultClientOptions_def ready_env_def)

text \<open>
  The server takes a client exactly when its protocol version is among those the client
  offers; otherwise it answers with the code for an invalid version and closes.
\<close>

theorem server_version_choice:
  assumes "ClientHello_Marshal m = Inr b" "length (Join (CHR '','') (ch_Version m)) \<le> 245"
    and "\<forall>v \<in> set (ch_Version m). CHR '','' \<notin> set v" "Join (CHR '','') (ch_Version m) \<noteq> []"
    and "so_window opts \<noteq> 0" "\<not> se_timed_out env" "se_write_err env = None"
  shows "\<exists>resp. serve_conn opts env (b @ rest) =
      Done (if ProtocolVersion \<in> set (ch_Version m)
            then SrvTransport resp (newServerTransport (ch_Window m) rest) else SrvClosed resp)
    \<and> ReadServerHello resp 128 128 =
        Done ((\<lparr>sh_Code = (if ProtocolVersion \<in> set (ch_Version m) then HelloOk else HelloInvalidVersion),
               sh_Window = so_window opts,
               sh_Message = (if ProtocolVersion \<in> set (ch_Version m) then ProtocolVersion
                             else Hello_String HelloInvalidVersion)\<rparr>, None), [])"
proof -
  have b: "b = client_hello_wire m" "ch_Window m \<noteq> 0" "ch_Version m \<noteq> []"
    using assms(1) by (auto simp: ClientHello_Marshal_spec split: if_splits)
  have rd: "ReadClientHello (b @ rest) 256 256 = Done ((m, HelloOk, [], None), rest)"
    unfolding b(1) by (rule ReadClientHello_wire) (use assms b in \<open>simp_all add: client_hello_fits_def\<close>)
  let ?s = "\<lambda>code msg. \<lparr>sh_Code = code, sh_Window = so_window opts, sh_Message = msg\<rparr>"
  have msg: "Hello_String HelloInvalidVersion \<noteq> []" "length (Hello_String HelloInvalidVersion) = 15"
    by (simp_all add: Hello_String_def)
  have bad: "sendHello opts 256 HelloInvalidVersion [] =
      Inr (server_hello_wire (?s HelloInvalidVersion (Hello_String HelloInvalidVersion)))"
    using assms(5) msg by (simp add: sendHello_def ServerHello_MarshalTo_spec)
  have back1: "ReadServerHello (server_hello_wire (?s HelloOk ProtocolVersion) @ []) 128 128
      = Done ((?s HelloOk ProtocolVersion, None), [])"
    using assms(5) ProtocolVersion_nonempty
    by (intro ReadServerHello_wire) (simp_all add: length_ProtocolVersion)
  have back2: "ReadServerHello (server_hello_wire
        (?s HelloInvalidVersion (Hello_String HelloInvalidVersion)) @ []) 128 128
      = Done ((?s HelloInvalidVersion (Hello_String HelloInvalidVersion), None), [])"
    using assms(5) msg by (intro ReadServerHello_wire) simp_all
  show ?thesis
  proof (cases "ProtocolVersion \<in> set (ch_Version m)")
    case True
    then show ?thesis
      using rd assms(6,7) sendHello_writes [OF assms(5)] back1
      by (simp add: serve_conn_def hello_def read_buffer_cap_def no_hello_def)
  next
    case False
    then show ?thesis
      using rd assms(6,7) bad back2
      by (simp add: serve_conn_def hello_def read_buffer_cap_def no_hello_def)
  qed
qed

definition old_client_hello :: client_hello where
  "old_client_hello = \<lparr>ch_Window = 8, ch_Version = [''0.9'', ''0.8'']\<rparr>"

theorem server_version_choice_witness:
  "\<exists>b resp. ClientHello_Marshal old_client_hello = Inr b
     \<and> serve_conn defaultServerOptions ready_env (b @ [7]) = Done (SrvClosed resp)"
proof -
  have b: "ClientHello_Marshal old_client_hello = Inr (client_hello_wire old_client_hello)"
    by (simp add: ClientHello_Marshal_spec old_client_hello_def)
  show ?thesis
    using b server_version_choice [OF b, of defaultServerOptions ready_env "[7]"]
    by (auto simp: old_client_hello_def defaultServerOptions_def ready_env_def ProtocolVersion_def)
qed

end
