(* ===== verification/Multiplex.thy ===== *)
theory Multiplex
  imports ServerTransport
begin

text \<open>
  A connection as a whole: the frames of all channels share one byte stream.  An abstract multiplexer
  on frames says what a sequence of frames means for the channels of the server; the read loop of
  \<open>server_transport.go\<close> on the bytes that the writer of \<open>base_transport.go\<close> has put on the
  connection implements it.
\<close>

section \<open>Frames and their meaning\<close>

datatype peer_frame =
    InPing
  | InPong bytes
  | InCreate "64 word"
  | InClose "64 word"
  | InData "64 word" bytes
  | InConfirm "64 word" "16 word"

text \<open>The bytes of a frame, as the senders of either side build them.\<close>

fun frame_bytes :: "peer_frame \<Rightarrow> bytes" where
  "frame_bytes InPing = [CommandPing]"
| "frame_bytes (InPong p) = CommandPong # p"
| "frame_bytes (InCreate cid) = create_request cid"
| "frame_bytes (InClose cid) = close_frame cid"
| "frame_bytes (InData cid b) = write_frame cid b"
| "frame_bytes (InConfirm cid v) = confirm_frame cid v"

text \<open>
  What can be seen of a channel: its id, whether it is open, the bytes that its user has not read, and the
  credit that waits for its \<open>Serve\<close>.
\<close>

record mux_channel =
  mc_id :: "64 word"
  mc_open :: bool
  mc_got :: bytes
  mc_credit :: "64 word option"

record mux =
  mx_keys :: "64 word \<rightharpoonup> nat"
  mx_chan :: "nat \<rightharpoonup> mux_channel"
  mx_next :: nat
  mx_replies :: "bytes list"

definition mux_empty :: mux where
  "mux_empty = \<lparr>mx_keys = Map.empty, mx_chan = Map.empty, mx_next = 0, mx_replies = []\<rparr>"

definition mux_reply :: "bytes \<Rightarrow> mux \<Rightarrow> mux" where
  "mux_reply r m = m\<lparr>mx_replies := mx_replies m @ [r]\<rparr>"

definition mux_on :: "(mux_channel \<Rightarrow> mux_channel) \<Rightarrow> nat \<Rightarrow> mux \<Rightarrow> mux" where
  "mux_on f a m = m\<lparr>mx_chan := (mx_chan m)(a := map_option f (mx_chan m a))\<rparr>"

fun mux_step :: "server_options \<Rightarrow> peer_frame \<Rightarrow> mux \<Rightarrow> mux" where
  "mux_step opts InPing m = m"
| "mux_step opts (InPong p) m = mux_reply (CommandPong # p) m"
| "mux_step opts (InCreate cid) m =
     (if mx_keys m cid \<noteq> None then mux_reply (create_reply cid 1) m
      else if so_channels opts > 0 \<and> int (card (dom (mx_keys m))) \<ge> so_channels opts
      then mux_reply (create_reply cid 2) m
      else mux_reply (create_reply cid 0)
        (m\<lparr>mx_keys := (mx_keys m)(cid \<mapsto> mx_next m),
           mx_chan := (mx_chan m)(mx_next m \<mapsto> \<lparr>mc_id = cid, mc_open = True, mc_got = [], mc_credit = None\<rparr>),
           mx_next := Suc (mx_next m)\<rparr>))"
| "mux_step opts (InClose cid) m =
     (case mx_keys m cid of
        None \<Rightarrow> m
      | Some a \<Rightarrow> (mux_on (\<lambda>c. c\<lparr>mc_open := False\<rparr>) a m)\<lparr>mx_keys := (mx_keys m)(cid := None)\<rparr>)"
| "mux_step opts (InData cid b) m =
     (case mx_keys m cid of None \<Rightarrow> m | Some a \<Rightarrow> mux_on (\<lambda>c. c\<lparr>mc_got := mc_got c @ b\<rparr>) a m)"
| "mux_step opts (InConfirm cid v) m =
     (case mx_keys m cid of
        None \<Rightarrow> m
      | Some a \<Rightarrow> mux_on (\<lambda>c. c\<lparr>mc_credit := Some (ucast v + (case mc_credit c of None \<Rightarrow> 0 | Some old \<Rightarrow> old))\<rparr>) a m)"

text \<open>
  What a peer keeps to: data within the window of the channel, credit below its own window, confirmations
  only for channels that are open.
\<close>

fun mux_fits :: "server_options \<Rightarrow> 32 word \<Rightarrow> mux \<Rightarrow> peer_frame \<Rightarrow> bool" where
  "mux_fits opts win m InPing \<longleftrightarrow> True"
| "mux_fits opts win m (InPong p) \<longleftrightarrow> length p = 4"
| "mux_fits opts win m (InCreate cid) \<longleftrightarrow> True"
| "mux_fits opts win m (InClose cid) \<longleftrightarrow> True"
| "mux_fits opts win m (InData cid b) \<longleftrightarrow> length b \<le> MaxUint16
     \<and> (case mx_keys m cid of None \<Rightarrow> True
        | Some a \<Rightarrow> length (mc_got (the (mx_chan m a))) + length b \<le> unat (so_window opts))"
| "mux_fits opts win m (InConfirm cid v) \<longleftrightarrow>
     (case mx_keys m cid of None \<Rightarrow> False
        | Some a \<Rightarrow> (case mc_credit (the (mx_chan m a)) of
             None \<Rightarrow> True | Some old \<Rightarrow> ucast v + old < (ucast win :: 64 word)))"

fun mux_all_fit :: "server_options \<Rightarrow> 32 word \<Rightarrow> mux \<Rightarrow> peer_frame list \<Rightarrow> bool" where
  "mux_all_fit opts win m [] \<longleftrightarrow> True"
| "mux_all_fit opts win m (f # fs) \<longleftrightarrow> mux_fits opts win m f \<and> mux_all_fit opts win (mux_step opts f m) fs"

section \<open>The transport seen as a multiplexer\<close>

definition chan_view :: "io_channel \<Rightarrow> mux_channel" where
  "chan_view c = \<lparr>mc_id = c_id c, mc_open = (\<not> c_closed c), mc_got = ch_held c, mc_credit = c_confirm c\<rparr>"

definition mux_of :: "server_transport \<Rightarrow> mux" where
  "mux_of t = \<lparr>mx_keys = st_keys t, mx_chan = (\<lambda>a. map_option chan_view (st_heap t a)), mx_next = st_next t,
     mx_replies = bt_ch (st_base t) @ bt_late (st_base t)\<rparr>"

lemma mux_of_simps [simp]:
  "mx_keys (mux_of t) = st_keys t" "mx_chan (mux_of t) a = map_option chan_view (st_heap t a)"
  "mx_next (mux_of t) = st_next t" "mx_replies (mux_of t) = bt_ch (st_base t) @ bt_late (st_base t)"
  by (simp_all add: mux_of_def)

text \<open>A channel that is in use: open, with its whole window as room.\<close>

definition chan_in_use :: "nat \<Rightarrow> 64 word \<Rightarrow> io_channel \<Rightarrow> bool" where
  "chan_in_use W R c \<longleftrightarrow> \<not> c_closed c \<and> \<not> c_ctx_done c \<and> \<not> pr_closed (c_pipe c) \<and> rw_inv (pr_rw (c_pipe c))
     \<and> rw_capacity (pr_rw (c_pipe c)) = W \<and> c_remoteWindow c = R"

definition mux_inv :: "server_options \<Rightarrow> 32 word \<Rightarrow> server_transport \<Rightarrow> bool" where
  "mux_inv opts win t \<longleftrightarrow> server_inv opts t \<and> st_pc t = SCmd \<and> \<not> bt_done (st_base t) \<and> bt_window (st_base t) = win
     \<and> (bt_late (st_base t) \<noteq> [] \<longrightarrow> ch_capacity \<le> length (bt_ch (st_base t)))
     \<and> (\<forall>cid a. st_keys t cid = Some a \<longrightarrow>
          (\<exists>c. st_heap t a = Some c \<and> chan_in_use (unat (so_window opts)) (ucast win) c))"

lemma chan_in_use_new: "chan_in_use W R (newIOChannel cid W n)" if "R = of_nat n"
  using that by (simp add: chan_in_use_def newIOChannel_def NewPipeReader_def rw_new rw_capacity_new)

lemma chan_view_new [simp]: "chan_view (newIOChannel cid W n) = \<lparr>mc_id = cid, mc_open = True, mc_got = [], mc_credit = None\<rparr>"
  by (simp add: chan_view_def newIOChannel_def NewPipeReader_def rw_new)

lemma chan_view_close: "chan_view (fst (ch_Close c)) = (chan_view c)\<lparr>mc_open := False\<rparr>"
  by (simp add: chan_view_def ch_Close_def pr_Close_def)

lemma ch_Pipe_in_use:
  assumes "chan_in_use W R c" "length (ch_held c) + length b \<le> W"
  shows "chan_in_use W R (ch_Pipe c b) \<and> chan_view (ch_Pipe c b) = (chan_view c)\<lparr>mc_got := ch_held c @ b\<rparr>"
proof -
  have inv: "rw_inv (pr_rw (c_pipe c))" using assms(1) by (simp add: chan_in_use_def)
  then show ?thesis
  proof (cases rule: pr_Write_cases [where b = b])
    case full
    then show ?thesis
      using assms inv ring.write_fits [of "pr_rw (c_pipe c)" b] by (auto simp: chan_in_use_def pr_Write_def)
  qed (use assms in \<open>auto simp: chan_in_use_def chan_view_def ch_Pipe_def\<close>)
qed

lemma ch_Pipes_in_use:
  assumes "chan_in_use W R c" "length (ch_held c) + length (concat ps) \<le> W"
  shows "chan_in_use W R (foldl ch_Pipe c ps)
    \<and> chan_view (foldl ch_Pipe c ps) = (chan_view c)\<lparr>mc_got := mc_got (chan_view c) @ concat ps\<rparr>"
  using assms
proof (induction ps arbitrary: c)
  case (Cons b ps)
  have b: "chan_in_use W R (ch_Pipe c b)" "chan_view (ch_Pipe c b) = (chan_view c)\<lparr>mc_got := ch_held c @ b\<rparr>"
    using ch_Pipe_in_use [OF Cons.prems(1), of b] Cons.prems(2) by auto
  then have "ch_held (ch_Pipe c b) = ch_held c @ b" by (simp add: chan_view_def)
  then show ?case using Cons.IH [OF b(1)] Cons.prems(2) b(2) by (simp add: chan_view_def)
qed simp

section \<open>The read loop implements the multiplexer\<close>

abbreviation server_turns :: "server_options \<Rightarrow> server_transport \<Rightarrow> server_transport \<Rightarrow> bool" where
  "server_turns opts \<equiv> (server_turn opts)\<^sup>*\<^sup>*"

text \<open>A frame is handled when some run reaches the next command with the abstract effect.\<close>

definition handled :: "server_options \<Rightarrow> 32 word \<Rightarrow> server_transport \<Rightarrow> mux \<Rightarrow> bytes \<Rightarrow> bool" where
  "handled opts win t m r \<longleftrightarrow>
     (\<exists>t'. server_turns opts t t' \<and> mux_inv opts win t' \<and> st_in t' = r \<and> mux_of t' = m)"

lemma ReadFull_10_put: "ReadFull 10 (PutUint64 cid @ PutUint16 w @ s) = (PutUint64 cid @ PutUint16 w, None, s)"
  by (rule ReadFull_append2) simp

lemma handled_turn:
  assumes "st_turn opts t = [t']" "mux_inv opts win t'" "st_in t' = r" "mux_of t' = m"
  shows "handled opts win t m r"
  using assms unfolding handled_def server_turn_def by (metis list.set_intros(1) r_into_rtranclp)

lemma mux_inv_server: "server_turns opts t t' \<Longrightarrow> server_inv opts t \<Longrightarrow> server_inv opts t'"
proof (induction rule: rtranclp_induct)
  case (step u v)
  then show ?case by (auto simp: server_turn_def intro: server_step_inv ss_turn)
qed

lemma mux_inv_turn:
  assumes "mux_inv opts win t" "st_turn opts t = [t']"
  shows "server_inv opts t'"
proof (rule server_step_inv)
  show "server_step opts t t'" by (rule ss_turn) (simp add: assms(2))
  show "server_inv opts t" using assms(1) by (simp add: mux_inv_def)
qed

lemma mux_inv_D:
  assumes "mux_inv opts win t"
  shows "server_inv opts t" "st_pc t = SCmd" "\<not> bt_done (st_base t)"
    "st_keys t cid = Some a \<Longrightarrow> \<exists>c. st_heap t a = Some c \<and> chan_in_use (unat (so_window opts)) (ucast win) c"
  using assms unfolding mux_inv_def by auto

text \<open>A reply goes to the end of the queue, or to the goroutines that wait for it to have room.\<close>

lemma postWrite_reply:
  assumes "\<not> bt_done b" "bt_late b \<noteq> [] \<longrightarrow> ch_capacity \<le> length (bt_ch b)"
  obtains b' where "(b', False) \<in> set (postWrite b r)" "\<not> bt_done b'" "bt_window b' = bt_window b"
    "bt_late b' \<noteq> [] \<longrightarrow> ch_capacity \<le> length (bt_ch b')" "bt_ch b' @ bt_late b' = bt_ch b @ bt_late b @ [r]"
proof (cases "length (bt_ch b) < ch_capacity")
  case True
  then show thesis
    using assms by (intro that [of "b\<lparr>bt_ch := bt_ch b @ [r]\<rparr>"]) (auto simp: postWrite_def on_done_def ch_send_def Let_def)
next
  case False
  then show thesis
    using assms by (intro that [of "b\<lparr>bt_late := bt_late b @ [r]\<rparr>"]) (auto simp: postWrite_def on_done_def ch_send_def Let_def)
qed

lemma handled_ping:
  assumes "mux_inv opts win t" "st_in t = [CommandPing] @ r"
  shows "handled opts win t (mux_of t) r"
proof (rule handled_turn)
  show "st_turn opts t = [t\<lparr>st_in := r\<rparr>]"
    using assms by (simp add: mux_inv_def st_turn_def st_command_def Let_def)
  show "mux_inv opts win (t\<lparr>st_in := r\<rparr>)" using assms(1) by (simp add: mux_inv_def server_inv_def)
qed (simp_all add: mux_of_def)

lemma handled_pong:
  assumes "mux_inv opts win t" "st_in t = (CommandPong # p) @ r" "length p = 4"
  shows "handled opts win t (mux_reply (CommandPong # p) (mux_of t)) r"
proof -
  obtain b' where b: "(b', False) \<in> set (postWrite (st_base t) (CommandPong # p))" "\<not> bt_done b'"
    "bt_window b' = bt_window (st_base t)" "bt_late b' \<noteq> [] \<longrightarrow> ch_capacity \<le> length (bt_ch b')"
    "bt_ch b' @ bt_late b' = bt_ch (st_base t) @ bt_late (st_base t) @ [CommandPong # p]"
    using postWrite_reply [of "st_base t" "CommandPong # p"] assms(1) by (auto simp: mux_inv_def)
  let ?t = "t\<lparr>st_base := b', st_in := r, st_pc := SCmd\<rparr>"
  have "ReadFull 4 (p @ r) = (p, None, r)" using assms(3) by (rule ReadFull_append)
  then have "(b', r, False) \<in> set (onPong (st_base t) (p @ r))"
    using b(1) by (force simp: onPong_def)
  then have "server_turn opts t ?t"
    using assms(1,2) by (force simp: server_turn_def mux_inv_def st_turn_def st_command_def Let_def)
  moreover from this have "server_inv opts ?t" using mux_inv_server [of opts t ?t] assms(1) by (auto simp: mux_inv_def)
  ultimately show ?thesis
    using assms(1) b(2-5) unfolding handled_def
    by (intro exI [of _ ?t]) (auto simp: mux_inv_def mux_of_def mux_reply_def)
qed

lemma handled_create:
  assumes "mux_inv opts win t" "st_in t = create_request cid @ r"
  shows "handled opts win t (mux_step opts (InCreate cid) (mux_of t)) r"
proof -
  obtain u code where u: "st_create opts (t\<lparr>st_in := PutUint64 cid @ r\<rparr>) cid = (u, code)" by fastforce
  let ?u = "u\<lparr>st_in := r, st_pc := SReply (create_reply cid code)\<rparr>"
  have base: "st_base u = st_base t" using u by (auto simp: st_create_def Let_def split: if_splits)
  obtain b' where b: "(b', False) \<in> set (postWrite (st_base t) (create_reply cid code))" "\<not> bt_done b'"
    "bt_window b' = bt_window (st_base t)" "bt_late b' \<noteq> [] \<longrightarrow> ch_capacity \<le> length (bt_ch b')"
    "bt_ch b' @ bt_late b' = bt_ch (st_base t) @ bt_late (st_base t) @ [create_reply cid code]"
    using postWrite_reply [of "st_base t" "create_reply cid code"] assms(1) by (auto simp: mux_inv_def)
  let ?t = "?u\<lparr>st_base := b', st_pc := SCmd\<rparr>"
  have "server_turn opts t ?u"
    using assms u
    by (simp add: server_turn_def mux_inv_def st_turn_def st_command_def Let_def create_request_def)
  moreover have "server_turn opts ?u ?t"
    using b(1) base by (force simp: server_turn_def st_turn_def)
  ultimately have run: "server_turns opts t ?t" by (meson converse_rtranclp_into_rtranclp r_into_rtranclp)
  have inv: "server_inv opts ?t" using mux_inv_server [OF run] assms(1) by (simp add: mux_inv_def)
  have ok: "table_ok (st_keys t) (st_heap t) (st_next t)" using assms(1) by (simp add: mux_inv_def server_inv_def)
  let ?new = "newIOChannel cid (unat (so_window opts)) (unat (bt_window (st_base t)))"
  have "mux_of ?t = mux_step opts (InCreate cid) (mux_of t)
    \<and> (\<forall>i a. st_keys ?t i = Some a \<longrightarrow> st_keys t i = Some a \<and> st_heap ?t a = st_heap t a
         \<or> st_heap ?t a = Some ?new)"
    using u b(5) table_ok_fresh [OF ok] ok
    by (auto simp: st_create_def Let_def mux_of_def mux_reply_def fun_eq_iff table_ok_def split: if_splits)
  moreover have "chan_in_use (unat (so_window opts)) (ucast win) ?new"
    using assms(1) by (intro chan_in_use_new) (simp add: mux_inv_def)
  ultimately show ?thesis
    using assms(1) run inv b(2-4) base unfolding handled_def
    by (intro exI [of _ ?t]) (fastforce simp: mux_inv_def)
qed


lemma handled_close:
  assumes "mux_inv opts win t" "st_in t = close_frame cid @ r"
  shows "handled opts win t (mux_step opts (InClose cid) (mux_of t)) r"
proof (rule handled_turn)
  let ?t = "(st_close_cmd (t\<lparr>st_in := PutUint64 cid @ r\<rparr>) cid)\<lparr>st_in := r\<rparr>"
  show turn: "st_turn opts t = [?t]"
    using assms by (simp add: mux_inv_def st_turn_def st_command_def Let_def close_frame_def)
  have "server_inv opts ?t" using mux_inv_turn [OF assms(1) turn] .
  moreover have ok: "table_ok (st_keys t) (st_heap t) (st_next t)" using assms(1) by (simp add: mux_inv_def server_inv_def)
  have "\<exists>c. st_heap ?t b = Some c \<and> chan_in_use (unat (so_window opts)) (ucast win) c" if k: "st_keys ?t i = Some b" for i b
  proof (cases "st_keys t cid")
    case None
    then show ?thesis using k mux_inv_D(4) [OF assms(1)] by (simp add: st_close_cmd_def)
  next
    case (Some a)
    then have b: "st_keys t i = Some b" "i \<noteq> cid" using k by (auto simp: st_close_cmd_def split: if_splits)
    then have "b \<noteq> a" using table_ok_inj [OF ok b(1)] Some by blast
    then show ?thesis using Some mux_inv_D(4) [OF assms(1) b(1)] by (simp add: st_close_cmd_def)
  qed
  moreover have "st_base ?t = st_base t" "st_pc ?t = st_pc t" by (simp_all add: st_close_cmd_def split: option.split)
  ultimately show "mux_inv opts win ?t" using assms(1) unfolding mux_inv_def by simp
  show "mux_of ?t = mux_step opts (InClose cid) (mux_of t)"
  proof (cases "st_keys t cid")
    case (Some a)
    have "map_option chan_view (store_update (st_heap t) a (\<lambda>c. fst (ch_Close c)) b)
        = (mx_chan (mux_on (\<lambda>c. c\<lparr>mc_open := False\<rparr>) a (mux_of t))) b" for b
      by (simp add: mux_on_def store_update_def option.map_comp comp_def chan_view_close)
    then show ?thesis using Some by (simp add: st_close_cmd_def mux_of_def mux_on_def fun_eq_iff)
  qed (simp add: st_close_cmd_def mux_of_def)
  show "st_in ?t = r" by simp
qed

lemma handled_data:
  assumes "mux_inv opts win t" "st_in t = write_frame cid b @ r" "mux_fits opts win (mux_of t) (InData cid b)"
  shows "handled opts win t (mux_step opts (InData cid b) (mux_of t)) r"
proof -
  let ?u = "t\<lparr>st_in := b @ r, st_pc := SWrite cid (length b) (write_max (length b))\<rparr>"
  have "server_turn opts t ?u"
    using assms
    by (simp add: server_turn_def mux_inv_def st_turn_def st_command_def write_frame_def Let_def unat_of_nat_16
        ReadFull_10_put)
  moreover have "length b \<noteq> 0 \<longrightarrow> write_max (length b) \<noteq> 0" by (simp add: write_max_def)
  then obtain k ps where ps: "(server_turn opts ^^ k) ?u
      (?u\<lparr>st_in := r, st_pc := SCmd, st_heap := pipe_pieces (st_keys t cid) ps (st_heap t)\<rparr>)" "concat ps = b"
    using write_run [of ?u cid b "write_max (length b)" r opts] by auto
  moreover define t' where "t' = t\<lparr>st_in := r, st_pc := SCmd, st_heap := pipe_pieces (st_keys t cid) ps (st_heap t)\<rparr>"
  ultimately have run: "server_turns opts t t'"
    by (simp add: converse_rtranclp_into_rtranclp relpowp_imp_rtranclp)
  have inv: "server_inv opts t'" using mux_inv_server [OF run] assms(1) by (simp add: mux_inv_def)
  have "mux_inv opts win t' \<and> mux_of t' = mux_step opts (InData cid b) (mux_of t)"
  proof (cases "st_keys t cid")
    case None
    then show ?thesis using assms(1) inv by (simp add: t'_def mux_inv_def mux_of_def)
  next
    case (Some a)
    obtain c where c: "st_heap t a = Some c" "chan_in_use (unat (so_window opts)) (ucast win) c"
      using mux_inv_D(4) [OF assms(1) Some] by blast
    have "chan_in_use (unat (so_window opts)) (ucast win) (foldl ch_Pipe c ps)
        \<and> chan_view (foldl ch_Pipe c ps) = (chan_view c)\<lparr>mc_got := mc_got (chan_view c) @ b\<rparr>"
      using ch_Pipes_in_use [OF c(2), of ps] ps(2) assms(3) Some c(1) by (simp add: chan_view_def)
    then show ?thesis
      using assms(1) inv Some c(1)
      by (auto simp: t'_def mux_inv_def mux_of_def mux_on_def store_update_def fun_eq_iff)
  qed
  moreover have "st_in t' = r" by (simp add: t'_def)
  ultimately show ?thesis using run unfolding handled_def by blast
qed

lemma handled_confirm:
  assumes "mux_inv opts win t" "st_in t = confirm_frame cid v @ r" "mux_fits opts win (mux_of t) (InConfirm cid v)"
  shows "handled opts win t (mux_step opts (InConfirm cid v) (mux_of t)) r"
proof -
  obtain a where a: "st_keys t cid = Some a" using assms(3) by (auto split: option.splits)
  obtain c where c: "st_heap t a = Some c" "chan_in_use (unat (so_window opts)) (ucast win) c"
    using mux_inv_D(4) [OF assms(1) a] by blast
  define c' where "c' = c\<lparr>c_confirm := Some (ucast v + (case c_confirm c of None \<Rightarrow> 0 | Some old \<Rightarrow> old))\<rparr>"
  let ?t = "t\<lparr>st_in := r, st_heap := (st_heap t)(a \<mapsto> c')\<rparr>"
  have "Confirm False c (ucast v) = [(c', False)]"
    using c assms(3) a
    by (auto simp: Confirm_def c'_def chan_in_use_def chan_view_def Let_def not_le split: option.splits)
  then have turn: "st_turn opts t = [?t]"
    using assms(1,2) a c(1)
    by (simp add: mux_inv_def st_turn_def st_command_def confirm_frame_def Let_def
        ReadFull_10_put [of cid v r] st_confirm_def)
  have "server_inv opts ?t" using mux_inv_turn [OF assms(1) turn] .
  moreover have "chan_in_use (unat (so_window opts)) (ucast win) c'" using c(2) by (simp add: chan_in_use_def c'_def)
  ultimately have "mux_inv opts win ?t" using assms(1) by (auto simp: mux_inv_def)
  then show ?thesis
    using turn a c(1)
    by (intro handled_turn [of opts t ?t]) (auto simp: mux_of_def mux_on_def fun_eq_iff c'_def chan_view_def)
qed

lemma handled_frame:
  assumes "mux_inv opts win t" "st_in t = frame_bytes f @ r" "mux_fits opts win (mux_of t) f"
  shows "handled opts win t (mux_step opts f (mux_of t)) r"
proof (cases f)
  case InPing
  then show ?thesis using handled_ping assms by simp
next
  case (InPong p)
  then show ?thesis using handled_pong [of opts win t p r] assms by simp
next
  case (InCreate cid)
  then show ?thesis using handled_create assms by simp
next
  case (InClose cid)
  then show ?thesis using handled_close assms by simp
next
  case (InData cid b)
  then show ?thesis using handled_data assms by simp
next
  case (InConfirm cid v)
  then show ?thesis using handled_confirm assms by simp
qed

lemma handled_frames:
  assumes "mux_inv opts win t" "st_in t = concat (map frame_bytes fs) @ r" "mux_all_fit opts win (mux_of t) fs"
  shows "handled opts win t (fold (mux_step opts) fs (mux_of t)) r"
  using assms
proof (induction fs arbitrary: t)
  case Nil
  then show ?case by (auto simp: handled_def)
next
  case (Cons f fs)
  obtain u where u: "server_turns opts t u" "mux_inv opts win u" "st_in u = concat (map frame_bytes fs) @ r"
    "mux_of u = mux_step opts f (mux_of t)"
    using handled_frame [of opts win t f "concat (map frame_bytes fs) @ r"] Cons.prems by (auto simp: handled_def)
  have "handled opts win u (fold (mux_step opts) fs (mux_of u)) r"
    using Cons.IH [OF u(2,3)] Cons.prems(3) u(4) by simp
  then show ?case using u(1,4) by (auto simp: handled_def intro: rtranclp_trans)
qed


lemma mux_inv_start: "mux_inv opts win (newServerTransport win inp)"
  using server_inv_start [of opts win inp] by (simp add: mux_inv_def newServerTransport_def new_base_transport_def)

lemma mux_of_start: "mux_of (newServerTransport win inp) = mux_empty"
  by (simp add: mux_of_def mux_empty_def newServerTransport_def new_base_transport_def)

lemma server_turns_reachable:
  "server_turns opts t u \<Longrightarrow> server_reachable opts win inp t \<Longrightarrow> server_reachable opts win inp u"
  by (induction rule: rtranclp_induct) (auto simp: server_turn_def intro: sr_step ss_turn)

section \<open>What one channel gets\<close>

fun data_for :: "64 word \<Rightarrow> peer_frame list \<Rightarrow> bytes" where
  "data_for cid [] = []"
| "data_for cid (InData i b # fs) = (if i = cid then b @ data_for cid fs else data_for cid fs)"
| "data_for cid (f # fs) = data_for cid fs"

definition mux_ok :: "mux \<Rightarrow> bool" where
  "mux_ok m \<longleftrightarrow> (\<forall>a. mx_next m \<le> a \<longrightarrow> mx_chan m a = None)
     \<and> (\<forall>i a. mx_keys m i = Some a \<longrightarrow> (\<exists>c. mx_chan m a = Some c \<and> mc_id c = i))"

lemma mux_ok_table:
  assumes "mux_ok m"
  shows "mx_keys m i = Some a \<Longrightarrow> \<exists>c. mx_chan m a = Some c \<and> mc_id c = i"
    "mx_keys m i = Some a \<Longrightarrow> mx_keys m j = Some a \<Longrightarrow> i = j" "mx_keys m i = Some a \<Longrightarrow> a < mx_next m"
  using assms unfolding mux_ok_def by (blast, metis option.inject, metis not_le option.distinct(1))

lemma mux_ok_on: "mux_ok m \<Longrightarrow> (\<And>c. mc_id (f c) = mc_id c) \<Longrightarrow> mux_ok (mux_on f a m)"
  by (fastforce simp: mux_ok_def mux_on_def)

lemma mux_ok_forget: "mux_ok m \<Longrightarrow> mux_ok (m\<lparr>mx_keys := (mx_keys m)(cid := None)\<rparr>)"
  by (simp add: mux_ok_def)

lemma mux_ok_step: "mux_ok m \<Longrightarrow> mux_ok (mux_step opts f m)"
proof (cases f)
  case (InCreate cid)
  assume ok: "mux_ok m"
  then show ?thesis
    using InCreate mux_ok_table(3) [OF ok] by (fastforce simp: mux_ok_def mux_reply_def)
next
  case (InClose cid)
  assume ok: "mux_ok m"
  have "mux_ok (mux_on (\<lambda>c. c\<lparr>mc_open := False\<rparr>) a m)" for a by (rule mux_ok_on [OF ok]) simp
  from mux_ok_forget [OF this, of _ cid] show ?thesis
    using ok InClose by (auto simp: mux_on_def split: option.splits)
next
  case (InData cid b)
  assume ok: "mux_ok m"
  have "mux_ok (mux_on (\<lambda>c. c\<lparr>mc_got := mc_got c @ b\<rparr>) a m)" for a by (rule mux_ok_on [OF ok]) simp
  then show ?thesis using ok InData by (simp split: option.split)
next
  case (InConfirm cid v)
  assume ok: "mux_ok m"
  show ?thesis using ok InConfirm by (auto intro: mux_ok_on [OF ok] split: option.split)
qed (auto simp: mux_reply_def mux_ok_def)

lemma mux_ok_empty: "mux_ok mux_empty"
  by (simp add: mux_ok_def mux_empty_def)

lemma mux_ok_fold: "mux_ok m \<Longrightarrow> mux_ok (fold (mux_step opts) fs m)"
  by (induction fs arbitrary: m) (auto intro: mux_ok_step)

text \<open>A frame that does not close the channel adds its data, and no other frame touches it.\<close>

lemma mux_step_stream:
  assumes "mux_ok m" "mx_keys m cid = Some a" "mx_chan m a = Some c" "f \<noteq> InClose cid"
  shows "mx_keys (mux_step opts f m) cid = Some a
    \<and> (\<exists>c'. mx_chan (mux_step opts f m) a = Some c' \<and> mc_got c' = mc_got c @ data_for cid [f])"
proof -
  have a: "a < mx_next m" using mux_ok_table(3) [OF assms(1,2)] .
  have other: "i = cid" if "mx_keys m i = Some a" for i using mux_ok_table(2) [OF assms(1) that assms(2)] .
  have on: "mx_keys (mux_on g b m) = mx_keys m" "mx_chan (mux_on g b m) a = (if b = a then Some (g c) else Some c)" for g b
    using assms(3) by (simp_all add: mux_on_def)
  show ?thesis
  proof (cases f)
    case (InCreate i)
    then show ?thesis using assms(2,3) a by (auto simp: mux_reply_def)
  next
    case (InClose i)
    then have "i \<noteq> cid" using assms(4) by simp
    then have "mx_keys m i \<noteq> Some a" using other [of i] by auto
    then show ?thesis using InClose assms(2,3) on \<open>i \<noteq> cid\<close> by (cases "mx_keys m i") simp_all
  next
    case (InData i b)
    then show ?thesis
    proof (cases "i = cid")
      case False
      then have "mx_keys m i \<noteq> Some a" using other [of i] by auto
      then show ?thesis using False InData assms(2,3) on by (cases "mx_keys m i") simp_all
    qed (use assms(2) on in simp)
  next
    case (InConfirm i v)
    then show ?thesis using assms(2,3) on by (cases "mx_keys m i") simp_all
  qed (use assms(2,3) in \<open>simp_all add: mux_reply_def\<close>)
qed

lemma data_for_Cons: "data_for cid (f # fs) = data_for cid [f] @ data_for cid fs"
  by (cases f) auto

lemma mux_stream:
  assumes "mux_ok m" "mx_keys m cid = Some a" "mx_chan m a = Some c" "InClose cid \<notin> set fs"
  shows "mx_keys (fold (mux_step opts) fs m) cid = Some a
    \<and> (\<exists>c'. mx_chan (fold (mux_step opts) fs m) a = Some c' \<and> mc_got c' = mc_got c @ data_for cid fs)"
  using assms
proof (induction fs arbitrary: m c)
  case (Cons f fs)
  obtain c' where 1: "mx_keys (mux_step opts f m) cid = Some a" "mx_chan (mux_step opts f m) a = Some c'"
    "mc_got c' = mc_got c @ data_for cid [f]"
    using mux_step_stream [OF Cons.prems(1-3), of f opts] Cons.prems(4) by auto
  then show ?case
    using Cons.IH [OF mux_ok_step [OF Cons.prems(1)] 1(1,2)] Cons.prems(4) data_for_Cons [of cid f fs] by auto
qed simp

section \<open>Writer and read loop together\<close>

lemma multiplexed_run:
  assumes "wr_reachable sz (bt, w) (map frame_bytes fs)" "ws_pc w = WWait" "bt_ch bt = []"
    and "mux_all_fit opts win mux_empty fs"
  obtains t' where "server_reachable opts win (fst (ws_buf w)) t'" "mux_inv opts win t'" "st_in t' = []"
    "mux_of t' = fold (mux_step opts) fs mux_empty"
proof -
  let ?t = "newServerTransport win (fst (ws_buf w))"
  have "concat (map frame_bytes fs) = fst (ws_buf w)"
    using wr_reachable_inv [OF assms(1)] assms(2,3) by (simp add: wr_inv_def)
  then have "handled opts win ?t (fold (mux_step opts) fs (mux_of ?t)) []"
    using assms(4) by (intro handled_frames mux_inv_start) (simp_all add: mux_of_start, simp add: newServerTransport_def)
  then show thesis
    using that server_turns_reachable [OF _ sr_start] unfolding handled_def mux_of_start by metis
qed




section \<open>An example\<close>

text \<open>Whatever frames are sent one after the other, the writer can put them on the connection.\<close>

lemma writer_sends:
  "\<exists>bt w. wr_reachable sz (bt, w) fs \<and> ws_pc w = WWait \<and> bt_ch bt = [] \<and> \<not> bt_done bt"
proof (induction fs rule: rev_induct)
  case Nil
  show ?case
    by (intro exI [of _ "new_base_transport 8"] exI [of _ write_start])
      (simp add: wr_start new_base_transport_def [of 8] write_start_def wr_start [of sz 8, unfolded new_base_transport_def write_start_def])
next
  case (snoc f fs)
  then obtain bt w where r: "wr_reachable sz (bt, w) fs" "ws_pc w = WWait" "bt_ch bt = []" "\<not> bt_done bt" by blast
  let ?b = "bt\<lparr>bt_ch := [f]\<rparr>" and ?w = "w\<lparr>ws_buf := buf_Write sz (ws_buf w) f, ws_pc := WMerge\<rparr>"
  have "wr_reachable sz (?b, w) (fs @ [f])"
    by (rule wr_send [OF r(1)]) (simp add: r(3) ch_send_def ch_capacity_def)
  from wr_write [OF this w_take [of w ?b f "[]" sz]]
  have "wr_reachable sz (?b\<lparr>bt_ch := []\<rparr>, ?w) (fs @ [f])" using r(2) by simp
  from wr_write [OF this w_flush [of ?w "?b\<lparr>bt_ch := []\<rparr>" sz]]
  show ?case using r(4) by fastforce
qed

definition sample_frames :: "peer_frame list" where
  "sample_frames = [InData 1 [7], InPing, InCreate 3, InData 3 [8], InConfirm 1 5, InData 1 [9], InClose 3]"

lemma sample_frames_fit: "mux_all_fit defaultServerOptions 8 mux_empty ([] @ InCreate 1 # sample_frames)"
  by (simp add: sample_frames_def mux_empty_def mux_reply_def mux_on_def defaultServerOptions_def)



end
