(* ===== verification/Link.thy ===== *)
theory Link
  imports ClientTransport Multiplex
begin

text \<open>
  A client transport and a server transport at the two ends of one connection: both read loops, both
  writers, all goroutines beside them and a connection that may break at any time.  The bytes that a
  writer puts on the connection are what the other end reads.
\<close>

section \<open>Frames from the server\<close>

datatype down_frame =
    DnPing
  | DnPong bytes
  | DnReply "64 word" byte
  | DnClose "64 word"
  | DnData "64 word" bytes
  | DnConfirm "64 word" "16 word"

fun down_bytes :: "down_frame \<Rightarrow> bytes" where
  "down_bytes DnPing = [CommandPing]"
| "down_bytes (DnPong p) = CommandPong # p"
| "down_bytes (DnReply cid code) = create_reply cid code"
| "down_bytes (DnClose cid) = close_frame cid"
| "down_bytes (DnData cid b) = write_frame cid b"
| "down_bytes (DnConfirm cid v) = confirm_frame cid v"

text \<open>
  The frames that the ends send: payloads fit their length field, and there are no pongs, since a pong is sent
  only in answer to a pong.
\<close>

fun up_ok :: "peer_frame \<Rightarrow> bool" where
  "up_ok (InPong p) \<longleftrightarrow> False"
| "up_ok (InData cid b) \<longleftrightarrow> length b \<le> MaxUint16"
| "up_ok _ \<longleftrightarrow> True"

fun down_ok :: "down_frame \<Rightarrow> bool" where
  "down_ok (DnPong p) \<longleftrightarrow> False"
| "down_ok (DnData cid b) \<longleftrightarrow> length b \<le> MaxUint16"
| "down_ok _ \<longleftrightarrow> True"

text \<open>
  How many bytes a read loop must have before its turn can end: it waits for them, and nothing else happens
  to its state meanwhile.  \<open>cr\<close> is the length of a create frame, which has a code when it is a reply.
\<close>

definition command_need :: "nat \<Rightarrow> bytes \<Rightarrow> nat" where
  "command_need cr inp =
     (case inp of
        [] \<Rightarrow> 1
      | c # _ \<Rightarrow>
          if c = CommandPong then 5 else if c = CommandCreate then cr else if c = CommandClose then 9
          else if c = CommandWrite \<or> c = CommandConfirm then 11 else 1)"

definition server_ready :: "server_transport \<Rightarrow> bool" where
  "server_ready t =
     (case st_pc t of
        SCmd \<Rightarrow> command_need 9 (st_in t) \<le> length (st_in t)
      | SWrite cid sz mx \<Rightarrow> min sz mx \<le> length (st_in t)
      | _ \<Rightarrow> True)"

definition client_ready :: "client_transport \<Rightarrow> bool" where
  "client_ready t =
     (case ct_pc t of
        CCmd \<Rightarrow> command_need 10 (ct_in t) \<le> length (ct_in t)
      | CWrite cid sz mx \<Rightarrow> min sz mx \<le> length (ct_in t)
      | _ \<Rightarrow> True)"

section \<open>The system\<close>

record link =
  lk_c :: client_transport
  lk_cw :: write_state
  lk_s :: server_transport
  lk_sw :: write_state
  lk_up_cut :: bool
  lk_down_cut :: bool

definition link_start :: "server_options \<Rightarrow> 32 word \<Rightarrow> link" where
  "link_start opts window =
     \<lparr>lk_c = start_client window (so_window opts) [], lk_cw = write_start,
      lk_s = newServerTransport window [], lk_sw = write_start, lk_up_cut = False, lk_down_cut = False\<rparr>"

text \<open>What a step of a writer adds to the connection.\<close>

definition written :: "write_state \<Rightarrow> write_state \<Rightarrow> bytes" where
  "written w w' = drop (length (fst (ws_buf w))) (fst (ws_buf w'))"

text \<open>
  A read loop takes a turn when it has the bytes for it, or when nothing more arrives, which it sees as the
  end of its input.  The two last rules break a direction of the connection: bytes in flight may be lost, and
  nothing arrives from then on.
\<close>

inductive link_step :: "server_options \<Rightarrow> nat \<Rightarrow> nat \<Rightarrow> link \<Rightarrow> link \<Rightarrow> bool" for opts csz ssz where
  lk_client_turn: "client_ready (lk_c l) \<or> lk_down_cut l \<Longrightarrow> t' \<in> set (ct_turn (lk_c l)) \<Longrightarrow>
     link_step opts csz ssz l (l\<lparr>lk_c := t'\<rparr>)"
| lk_client_local: "ct_pc (lk_c l) \<noteq> CPanic \<Longrightarrow> client_local (lk_c l) t' \<Longrightarrow>
     link_step opts csz ssz l (l\<lparr>lk_c := t'\<rparr>)"
| lk_client_write: "ct_pc (lk_c l) \<noteq> CPanic \<Longrightarrow> write_step csz (ct_base (lk_c l), lk_cw l) (b', w') \<Longrightarrow>
     link_step opts csz ssz l (l\<lparr>lk_c := (lk_c l)\<lparr>ct_base := b'\<rparr>, lk_cw := w',
       lk_s := (lk_s l)\<lparr>st_in := st_in (lk_s l) @ (if lk_up_cut l then [] else written (lk_cw l) w')\<rparr>\<rparr>)"
| lk_server_turn: "server_ready (lk_s l) \<or> lk_up_cut l \<Longrightarrow> t' \<in> set (st_turn opts (lk_s l)) \<Longrightarrow>
     link_step opts csz ssz l (l\<lparr>lk_s := t'\<rparr>)"
| lk_server_local: "server_local (lk_s l) t' \<Longrightarrow> link_step opts csz ssz l (l\<lparr>lk_s := t'\<rparr>)"
| lk_server_write: "write_step ssz (st_base (lk_s l), lk_sw l) (b', w') \<Longrightarrow>
     link_step opts csz ssz l (l\<lparr>lk_s := (lk_s l)\<lparr>st_base := b'\<rparr>, lk_sw := w',
       lk_c := (lk_c l)\<lparr>ct_in := ct_in (lk_c l) @ (if lk_down_cut l then [] else written (lk_sw l) w')\<rparr>\<rparr>)"
| lk_up_break: "link_step opts csz ssz l
     (l\<lparr>lk_up_cut := True, lk_s := (lk_s l)\<lparr>st_in := take k (st_in (lk_s l))\<rparr>\<rparr>)"
| lk_down_break: "link_step opts csz ssz l
     (l\<lparr>lk_down_cut := True, lk_c := (lk_c l)\<lparr>ct_in := take k (ct_in (lk_c l))\<rparr>\<rparr>)"

inductive link_reachable :: "server_options \<Rightarrow> nat \<Rightarrow> nat \<Rightarrow> 32 word \<Rightarrow> link \<Rightarrow> bool" for opts csz ssz window where
  lr_start: "link_reachable opts csz ssz window (link_start opts window)"
| lr_step: "link_reachable opts csz ssz window l \<Longrightarrow> link_step opts csz ssz l l' \<Longrightarrow>
     link_reachable opts csz ssz window l'"

section \<open>Streams of frames\<close>

text \<open>
  The bytes read next, \<open>inp\<close>, with those on their way, \<open>rest\<close>: what is left of a payload, of length
  \<open>debt\<close>, and then frames.  If the direction is not \<open>whole\<close> the end is missing.
\<close>

definition stream :: "('f \<Rightarrow> bytes) \<Rightarrow> bytes \<Rightarrow> bytes \<Rightarrow> bool \<Rightarrow> nat \<Rightarrow> 'f list \<Rightarrow> bool" where
  "stream enc inp rest whole debt fs \<longleftrightarrow>
     (\<exists>p tail. inp @ rest @ tail = p @ concat (map enc fs) \<and> length p = debt \<and> (whole \<longrightarrow> tail = []))"

lemma stream_empty [simp]: "stream enc [] [] w 0 []"
  by (auto simp: stream_def)

lemma stream_queue:
  "stream enc inp rest True d fs \<Longrightarrow> stream enc inp (rest @ concat (map enc gs)) True d (fs @ gs)"
  unfolding stream_def by (metis append.assoc append_Nil2 concat_append map_append)

lemma stream_write: "stream enc inp (new @ rest) w d fs \<Longrightarrow> stream enc (inp @ new) rest w d fs"
  by (simp add: stream_def)

lemma stream_break:
  "stream enc inp rest w d fs \<Longrightarrow> inp @ rest = inp' @ lost \<Longrightarrow> stream enc inp' [] False d fs"
  unfolding stream_def by (metis append.assoc append_Nil)

lemma stream_take: "stream enc inp rest w d fs \<Longrightarrow> stream enc (take k inp) [] False d fs"
  by (rule stream_break [where lost = "drop k inp @ rest"]) (simp_all flip: append_assoc)

lemma stream_payload:
  assumes "stream enc inp rest w d fs" "n \<le> d" "n \<le> length inp"
  shows "stream enc (drop n inp) rest w (d - n) fs"
proof -
  obtain p tl where p: "inp @ rest @ tl = p @ concat (map enc fs)" "length p = d" "w \<longrightarrow> tl = []"
    using assms(1) by (auto simp: stream_def)
  have "drop n inp @ rest @ tl = drop n (inp @ rest @ tl)" using assms(3) by simp
  also have "\<dots> = drop n p @ concat (map enc fs)" using p(1,2) assms(2) by simp
  finally show ?thesis using p(2,3) unfolding stream_def by (metis length_drop)
qed

lemma stream_frame:
  assumes "stream enc inp rest w 0 (f # fs)" "enc f = h @ pl" "length h \<le> length inp"
  obtains x where "inp = h @ x" "stream enc x rest w (length pl) fs"
proof -
  obtain tl where t: "inp @ rest @ tl = h @ pl @ concat (map enc fs)" "w \<longrightarrow> tl = []"
    using assms(1,2) by (auto simp: stream_def)
  have "take (length h) inp = h" using t(1) assms(3)
    by (metis append_eq_append_conv_if append_eq_conv_conj le_refl take_append take_all_iff)
  then have i: "inp = h @ drop (length h) inp" by (metis append_take_drop_id)
  then have "drop (length h) inp @ rest @ tl = pl @ concat (map enc fs)"
    using t(1) by (metis append.assoc same_append_eq)
  then have "stream enc (drop (length h) inp) rest w (length pl) fs" using t(2) unfolding stream_def by blast
  with i that show thesis by blast
qed

lemma stream_next:
  assumes "stream enc inp rest w 0 fs" "inp \<noteq> []" "\<And>f. f \<in> set fs \<Longrightarrow> enc f \<noteq> []"
  obtains f fs' where "fs = f # fs'" "hd inp = hd (enc f)"
proof (cases fs)
  case Nil
  then show thesis using assms(1,2) by (simp add: stream_def)
next
  case (Cons f fs')
  then obtain tl where "inp @ rest @ tl = enc f @ concat (map enc fs')" using assms(1) by (auto simp: stream_def)
  then have "hd inp = hd (enc f)" using assms(2,3) Cons by (metis hd_append2 list.set_intros(1))
  then show thesis using that Cons by blast
qed

lemma frame_bytes_ne [simp]: "frame_bytes f \<noteq> []"
  by (cases f) (simp_all add: create_request_def close_frame_def write_frame_def confirm_frame_def)

lemma down_bytes_ne [simp]: "down_bytes f \<noteq> []"
  by (cases f) (simp_all add: create_reply_def close_frame_def write_frame_def confirm_frame_def)

text \<open>What a step of the writer does to the bytes that wait in its buffer and in the queue.\<close>

lemma written_step:
  assumes "write_step sz (t, w) (t', w')" "sz = 0 \<longrightarrow> snd (ws_buf w) = []"
  shows "(sz = 0 \<longrightarrow> snd (ws_buf w') = [])
    \<and> ws_pc w \<noteq> WExit
    \<and> (if ws_pc w' = WExit then \<exists>lost. snd (ws_buf w) @ concat (bt_ch t) = written w w' @ lost
       else snd (ws_buf w) @ concat (bt_ch t) = written w w' @ snd (ws_buf w') @ concat (bt_ch t'))
    \<and> bt_late t' = bt_late t \<and> bt_done t' = bt_done t \<and> bt_closed t' = bt_closed t
    \<and> (bt_conn_closed t \<longrightarrow> bt_conn_closed t')"
  using assms(1)
proof (cases rule: write_step.cases)
  case (w_take b bs)
  have "fst (buf_Write sz (ws_buf w) b) @ snd (buf_Write sz (ws_buf w) b) = fst (ws_buf w) @ snd (ws_buf w) @ b"
    using buf_Write_out [of sz "ws_buf w" b] assms(2) by simp
  moreover have "\<exists>new. fst (buf_Write sz (ws_buf w) b) = fst (ws_buf w) @ new"
    by (cases "ws_buf w") (auto simp: buf_Write_def Let_def)
  ultimately show ?thesis
    using w_take assms(2) by (auto simp: written_def buf_Write_empty)
next
  case w_flush
  then show ?thesis using assms(2) by (cases "ws_buf w") (auto simp: written_def buf_Flush_def)
next
  case w_done
  then show ?thesis using assms(2) by (auto simp: written_def)
next
  case (w_fail b bs lost1 lost2)
  then have "snd (ws_buf w) @ concat (bt_ch t) = lost1 @ lost2 @ concat bs" by (simp flip: append_assoc)
  then have "\<exists>lost. snd (ws_buf w) @ concat (bt_ch t) = lost1 @ lost" by blast
  then show ?thesis using w_fail(1,2,3) by (auto simp: written_def)
next
  case (w_fail_flush lost1 lost2)
  then show ?thesis by (auto simp: written_def)
qed

end
