(* ===== verification/LinkServer.thy ===== *)
theory LinkServer
  imports Link "HOL-Library.Multiset"
begin

text \<open>
  What the moves of a server transport do, as the rest of the connection sees them: the frames they queue, the
  frames they have read and the replies they owe.
\<close>

section \<open>Replies\<close>

lemma ReadFull_short: "length s < n \<Longrightarrow> \<exists>e. ReadFull n s = (s, Some e, [])"
  by (auto simp: ReadFull_def)

text \<open>A reply, as its id and code; the replies that a server transport still has to queue.\<close>

definition reply_of :: "bytes \<Rightarrow> (64 word \<times> byte) option" where
  "reply_of b = (if hd b = CommandCreate then Some (Uint64 (tl b), last b) else None)"

lemma reply_of_reply [simp]: "reply_of (create_reply cid code) = Some (cid, code)"
  using u64.get_put [of cid "[code]"] by (simp add: reply_of_def create_reply_def)

definition reply_frame :: "bytes \<Rightarrow> down_frame \<Rightarrow> bool" where
  "reply_frame b g \<longleftrightarrow> (\<exists>cid code. b = create_reply cid code \<and> g = DnReply cid code)"

lemma reply_frameI [intro]: "reply_frame (create_reply cid code) (DnReply cid code)"
  by (simp add: reply_frame_def)

fun reply_pairs :: "down_frame list \<Rightarrow> (64 word \<times> byte) list" where
  "reply_pairs [] = []"
| "reply_pairs (DnReply cid code # gs) = (cid, code) # reply_pairs gs"
| "reply_pairs (_ # gs) = reply_pairs gs"

fun ask_ids :: "peer_frame list \<Rightarrow> 64 word list" where
  "ask_ids [] = []"
| "ask_ids (InCreate cid # fs) = cid # ask_ids fs"
| "ask_ids (_ # fs) = ask_ids fs"

lemma reply_pairs_append [simp]: "reply_pairs (gs @ hs) = reply_pairs gs @ reply_pairs hs"
  by (induction gs rule: reply_pairs.induct) simp_all

lemma ask_ids_append [simp]: "ask_ids (fs @ gs) = ask_ids fs @ ask_ids gs"
  by (induction fs rule: ask_ids.induct) simp_all

fun pc_reply :: "server_pc \<Rightarrow> bytes list" where
  "pc_reply (SReply data) = [data]"
| "pc_reply _ = []"

definition waiting :: "server_transport \<Rightarrow> bytes multiset" where
  "waiting t = mset (bt_late (st_base t) @ pc_reply (st_pc t))"

definition reply_set :: "bytes multiset \<Rightarrow> (64 word \<times> byte) multiset" where
  "reply_set M = image_mset (the \<circ> reply_of) (filter_mset (\<lambda>b. reply_of b \<noteq> None) M)"

abbreviation unsent :: "server_transport \<Rightarrow> (64 word \<times> byte) multiset" where
  "unsent t \<equiv> reply_set (waiting t)"

lemma reply_set_simps [simp]:
  "reply_set {#} = {#}" "reply_set (M + N) = reply_set M + reply_set N"
  "reply_set (add_mset b M) = (case reply_of b of None \<Rightarrow> reply_set M | Some x \<Rightarrow> add_mset x (reply_set M))"
  by (auto simp: reply_set_def split: option.split)

lemma reply_set_mono: "M \<subseteq># N \<Longrightarrow> reply_set M \<subseteq># reply_set N"
  unfolding reply_set_def by (intro image_mset_subseteq_mono multiset_filter_mono)

definition replies_wf :: "server_transport \<Rightarrow> bool" where
  "replies_wf t \<longleftrightarrow> (\<forall>b \<in># waiting t. \<exists>g. reply_frame b g)"

lemma reply_set_frame: "reply_frame b g \<Longrightarrow> reply_set {#b#} = mset (reply_pairs [g])"
  by (auto simp: reply_frame_def)

definition chan_ids :: "store \<Rightarrow> nat \<Rightarrow> 64 word option" where
  "chan_ids h a = map_option c_id (h a)"

lemma chan_ids_update [simp]: "(\<And>c. c_id (f c) = c_id c) \<Longrightarrow> chan_ids (store_update h a f) = chan_ids h"
  by (auto simp: chan_ids_def store_update_def fun_eq_iff option.map_comp comp_def)

lemma chan_ids_set [simp]: "h a = Some c \<Longrightarrow> c_id c' = c_id c \<Longrightarrow> chan_ids (h(a \<mapsto> c')) = chan_ids h"
  by (auto simp: chan_ids_def)

lemma chan_ids_close_all [simp]: "chan_ids (close_all keys h) = chan_ids h"
  by (auto simp: chan_ids_def close_all_def fun_eq_iff option.map_comp comp_def)

text \<open>
  What a move of the server does, as the rest of the system sees it: the frames it queues and the frames of the
  client that it has read.  A quiet move only passes replies on or drops them; the other kind answers a create
  request.
\<close>

definition server_quiet :: "server_transport \<Rightarrow> server_transport \<Rightarrow> down_frame list \<Rightarrow> bool" where
  "server_quiet t t' new \<longleftrightarrow>
     bt_ch (st_base t') = bt_ch (st_base t) @ map down_bytes new \<and> (\<forall>g \<in> set new. down_ok g)
     \<and> replies_wf t' \<and> chan_ids (st_heap t') = chan_ids (st_heap t)
     \<and> mset (reply_pairs new) + unsent t' \<subseteq># unsent t"

definition server_answers :: "server_transport \<Rightarrow> server_transport \<Rightarrow> 64 word \<Rightarrow> byte \<Rightarrow> bool" where
  "server_answers t t' cid code \<longleftrightarrow>
     bt_ch (st_base t') = bt_ch (st_base t) \<and> replies_wf t'
     \<and> unsent t' = add_mset (cid, code) (unsent t)
     \<and> (code = 0 \<and> chan_ids (st_heap t') = (chan_ids (st_heap t))(st_next t := Some cid)
        \<or> code = 1 \<and> st_keys t cid \<noteq> None \<and> chan_ids (st_heap t') = chan_ids (st_heap t)
        \<or> code = 2 \<and> chan_ids (st_heap t') = chan_ids (st_heap t))"

definition server_live :: "server_transport \<Rightarrow> bool" where
  "server_live t \<longleftrightarrow> st_pc t \<noteq> SClean \<and> st_pc t \<noteq> SDone"

definition server_debt :: "server_transport \<Rightarrow> nat" where
  "server_debt t = (case st_pc t of SWrite cid sz mx \<Rightarrow> sz | _ \<Rightarrow> 0)"

text \<open>
  The quiet moves: nothing is queued; a frame that is not a reply is queued; a waiting frame is queued.
\<close>

lemma quiet_none:
  assumes "replies_wf t" "bt_ch (st_base t') = bt_ch (st_base t)" "chan_ids (st_heap t') = chan_ids (st_heap t)"
    "waiting t' \<subseteq># waiting t"
  shows "server_quiet t t' []"
  using assms mset_subset_eqD [OF assms(4)] reply_set_mono [OF assms(4)]
  by (auto simp: server_quiet_def replies_wf_def)

lemma quiet_frame:
  assumes "replies_wf t" "bt_ch (st_base t') = bt_ch (st_base t) @ [down_bytes g]" "down_ok g" "reply_pairs [g] = []"
    "chan_ids (st_heap t') = chan_ids (st_heap t)" "waiting t' \<subseteq># waiting t"
  shows "server_quiet t t' [g]"
  using assms mset_subset_eqD [OF assms(6)] reply_set_mono [OF assms(6)]
  by (auto simp: server_quiet_def replies_wf_def)

lemma quiet_waiting:
  assumes "replies_wf t" "bt_ch (st_base t') = bt_ch (st_base t) @ [b]" "chan_ids (st_heap t') = chan_ids (st_heap t)"
    "waiting t = add_mset b (waiting t')"
  shows "\<exists>g. server_quiet t t' [g]"
proof -
  obtain g where g: "reply_frame b g" using assms(1,4) by (auto simp: replies_wf_def)
  have "unsent t = reply_set {#b#} + unsent t'" unfolding assms(4) by (simp split: option.split)
  then have "mset (reply_pairs [g]) + unsent t' \<subseteq># unsent t" using reply_set_frame [OF g] by simp
  then have "server_quiet t t' [g]"
    using assms g by (auto simp: server_quiet_def replies_wf_def reply_frame_def)
  then show ?thesis ..
qed

lemma waiting_simps [simp]:
  "waiting (t\<lparr>st_heap := h\<rparr>) = waiting t" "waiting (t\<lparr>st_in := r\<rparr>) = waiting t"
  "waiting (t\<lparr>st_keys := k\<rparr>) = waiting t" "waiting (t\<lparr>st_closing := cl\<rparr>) = waiting t"
  by (simp_all add: waiting_def)

lemma quiet_sendClose:
  assumes "replies_wf t" "base \<in> set (sendClose (st_base t) cid)" "bt_late (st_base t') = bt_late base"
    "bt_ch (st_base t') = bt_ch base" "st_heap t' = st_heap t" "set (pc_reply (st_pc t')) = {} \<or> st_pc t' = st_pc t"
  shows "\<exists>new. server_quiet t t' new"
proof -
  have w: "waiting t' \<subseteq># waiting t"
    using assms(3,6) sendClose_cases [OF assms(2)] by (auto simp: waiting_def)
  show ?thesis
    using sendClose_cases [OF assms(2)] quiet_none [OF assms(1) _ _ w] quiet_frame [OF assms(1) _ _ _ _ w, of "DnClose cid"] assms(4,5)
    by auto
qed

lemma mset_without: "i < length xs \<Longrightarrow> mset xs = add_mset (xs ! i) (mset (take i xs @ drop (Suc i) xs))"
  by (subst id_take_nth_drop [of i xs]) simp_all

lemma quiet_late:
  assumes "replies_wf t" "base \<in> set (late_write (st_base t) i)"
  shows "\<exists>new. server_quiet t (t\<lparr>st_base := base\<rparr>) new"
proof -
  let ?l = "bt_late (st_base t)"
  let ?b = "(st_base t)\<lparr>bt_late := take i ?l @ drop (Suc i) ?l\<rparr>"
  have i: "i < length ?l" using assms(2) by (auto simp: late_write_def split: if_splits)
  have w: "waiting t = add_mset (?l ! i) (waiting (t\<lparr>st_base := b\<rparr>))" if "bt_late b = bt_late ?b" for b
    using mset_without [OF i] that by (simp add: waiting_def)
  have "base = ?b \<or> base = ?b\<lparr>bt_ch := bt_ch (st_base t) @ [?l ! i]\<rparr>"
    using assms(2) i by (auto simp: late_write_def on_done_def ch_send_def Let_def split: if_splits)
  then show ?thesis
  proof
    assume b: "base = ?b"
    have "waiting (t\<lparr>st_base := base\<rparr>) \<subseteq># waiting t" using w [of base] b by simp
    then have "server_quiet t (t\<lparr>st_base := base\<rparr>) []" by (rule quiet_none [OF assms(1), rotated 2]) (simp_all add: b)
    then show ?thesis ..
  next
    assume b: "base = ?b\<lparr>bt_ch := bt_ch (st_base t) @ [?l ! i]\<rparr>"
    have "\<exists>g. server_quiet t (t\<lparr>st_base := base\<rparr>) [g]"
      by (rule quiet_waiting [OF assms(1), where b = "?l ! i"]) (use w [of base] b in simp_all)
    then show ?thesis by blast
  qed
qed

text \<open>Moves beside the read loop are quiet and leave its place alone.\<close>

lemma server_local_quiet:
  assumes "server_local t t'" "replies_wf t"
  shows "(\<exists>new. server_quiet t t' new) \<and> st_pc t' = st_pc t \<and> st_in t' = st_in t"
  using assms
proof (induction rule: server_local.induct)
  case (sl_user t a c c')
  then show ?case using quiet_none [of t "t\<lparr>st_heap := (st_heap t)(a \<mapsto> c')\<rparr>"] by auto
next
  case (sl_exit t a c)
  let ?u = "t\<lparr>st_heap := store_update (st_heap t) a (\<lambda>c. fst (ch_Close c))\<rparr>"
  have "chan_ids (st_heap (st_delete u a)) = chan_ids (st_heap u)" "st_base (st_delete u a) = st_base u"
    "st_pc (st_delete u a) = st_pc u" "st_in (st_delete u a) = st_in u" "waiting (st_delete u a) = waiting u" for u
    by (auto simp: st_delete_def split: option.splits)
  then show ?case using sl_exit quiet_none [of t "st_delete ?u a"] by auto
next
  case (sl_frame t a c f base)
  then obtain g where g: "f = down_bytes g" "down_ok g" "reply_pairs [g] = []"
    by (auto simp: channel_frame_def intro: that [of "DnData _ _"] that [of "DnConfirm _ _"])
  then show ?case using sl_frame ch_send_frame [OF sl_frame(3)] quiet_frame [of t "t\<lparr>st_base := base\<rparr>" g]
    by (auto simp: waiting_def)
next
  case (sl_ping base t)
  then show ?case using ch_send_frame [OF sl_ping(1)] quiet_frame [of t "t\<lparr>st_base := base\<rparr>" DnPing]
    by (auto simp: waiting_def)
next
  case (sl_closing t' t i)
  then obtain base where b: "base \<in> set (sendClose (st_base t) (st_closing t ! i))"
      "t' = t\<lparr>st_base := base, st_closing := take i (st_closing t) @ drop (Suc i) (st_closing t)\<rparr>"
    by (auto simp: st_send_closing_def split: if_splits)
  then show ?case using quiet_sendClose [OF sl_closing(2) b(1), of t'] by simp
next
  case (sl_late base t i)
  then show ?case using quiet_late by auto
qed

section \<open>Turns of the server's read loop\<close>

fun frame_body :: "peer_frame \<Rightarrow> bytes" where
  "frame_body (InData cid b) = b"
| "frame_body _ = []"

definition frame_head :: "peer_frame \<Rightarrow> bytes" where
  "frame_head f = (case f of InData cid b \<Rightarrow> [CommandWrite] @ PutUint64 cid @ PutUint16 (of_nat (length b)) | _ \<Rightarrow> frame_bytes f)"

lemma frame_head_body: "frame_bytes f = frame_head f @ frame_body f"
  by (cases f) (simp_all add: frame_head_def write_frame_def)

text \<open>A turn that does not find the whole fixed part of a frame ends the loop.\<close>

lemma server_reads_short:
  assumes "t' \<in> set (st_command opts t)" "length (st_in t) < length (frame_head f)" "up_ok f"
    "st_in t \<noteq> [] \<Longrightarrow> hd (st_in t) = hd (frame_bytes f)"
  shows "st_pc t' = SClean \<and> st_base t' = st_base t \<and> st_heap t' = st_heap t"
proof (cases "st_in t")
  case Nil
  then show ?thesis using assms(1) by (auto simp: st_command_def ReadFull_def)
next
  case (Cons c r)
  have c: "c = hd (frame_bytes f)" "Suc (length r) < length (frame_head f)" using assms(2,4) Cons by auto
  have rd: "ReadFull 1 (st_in t) = ([c], None, r)" using Cons ReadFull_enough [of 1 "st_in t"] by simp
  have short: "\<exists>e. ReadFull n r = (r, Some e, [])" if "length (frame_head f) = Suc n" for n
    using ReadFull_short [of r n] c(2) that by simp
  show ?thesis
  proof (cases f)
    case (InPong p)
    then show ?thesis using short [of 4] c(1) assms(1,3) rd
      by (auto simp: st_command_def frame_head_def onPong_def Let_def)
  next
    case (InCreate cid)
    then show ?thesis using short [of 8] c(1) assms(1,3) rd
      by (auto simp: st_command_def frame_head_def Let_def)
  next
    case (InClose cid)
    then show ?thesis using short [of 8] c(1) assms(1,3) rd
      by (auto simp: st_command_def frame_head_def Let_def)
  next
    case (InData cid b)
    then show ?thesis using short [of 10] c(1) assms(1,3) rd
      by (auto simp: st_command_def frame_head_def Let_def)
  next
    case (InConfirm cid v)
    then show ?thesis using short [of 10] c(1) assms(1,3) rd
      by (auto simp: st_command_def frame_head_def Let_def)
  qed (use c(2) in \<open>simp add: frame_head_def\<close>)
qed

lemma quiet_postWrite:
  assumes "replies_wf t" "(base, exit) \<in> set (postWrite (st_base t) b)" "bt_late (st_base t') = bt_late base"
    "bt_ch (st_base t') = bt_ch base" "chan_ids (st_heap t') = chan_ids (st_heap t)" "pc_reply (st_pc t') = []"
    "st_pc t = SReply b"
  shows "\<exists>new. server_quiet t t' new"
proof -
  consider "base = st_base t" | "base = (st_base t)\<lparr>bt_ch := bt_ch (st_base t) @ [b]\<rparr>"
    | "base = (st_base t)\<lparr>bt_late := bt_late (st_base t) @ [b]\<rparr>"
    using postWrite_cases [OF assms(2)] by blast
  then show ?thesis
  proof cases
    case 1
    then show ?thesis using quiet_none [OF assms(1), of t'] assms by (auto simp: waiting_def)
  next
    case 2
    then show ?thesis using quiet_waiting [OF assms(1), of t' b] assms by (auto simp: waiting_def)
  next
    case 3
    then show ?thesis using quiet_none [OF assms(1), of t'] assms by (auto simp: waiting_def)
  qed
qed

text \<open>What a turn that ends the loop, goes on, or answers a request does.\<close>

definition server_turned ::
    "server_transport \<Rightarrow> server_transport \<Rightarrow> bytes \<Rightarrow> bool \<Rightarrow> peer_frame list \<Rightarrow> bool" where
  "server_turned t t' rest w fs \<longleftrightarrow>
     (\<not> server_live t' \<and> (\<exists>new. server_quiet t t' new))
     \<or> (server_live t' \<and> (\<exists>fs' new. server_quiet t t' new \<and> stream frame_bytes (st_in t') rest w (server_debt t') fs'
          \<and> (fs' = fs \<or> (\<exists>f. fs = f # fs' \<and> ask_ids [f] = []))))
     \<or> (server_live t' \<and> (\<exists>cid code fs'. fs = InCreate cid # fs'
          \<and> stream frame_bytes (st_in t') rest w (server_debt t') fs' \<and> server_answers t t' cid code))"


lemma server_turned_dead:
  "st_pc t' = SClean \<or> st_pc t' = SDone \<Longrightarrow> \<exists>new. server_quiet t t' new \<Longrightarrow> server_turned t t' rest w fs"
  by (auto simp: server_turned_def server_live_def)

lemma server_turned_same:
  "server_live t' \<Longrightarrow> \<exists>new. server_quiet t t' new \<Longrightarrow> stream frame_bytes (st_in t') rest w (server_debt t') fs \<Longrightarrow>
    server_turned t t' rest w fs"
  unfolding server_turned_def by blast

lemma server_turned_frame:
  "server_live t' \<Longrightarrow> \<exists>new. server_quiet t t' new \<Longrightarrow> stream frame_bytes (st_in t') rest w (server_debt t') fs \<Longrightarrow>
    ask_ids [f] = [] \<Longrightarrow> server_turned t t' rest w (f # fs)"
  unfolding server_turned_def by blast

lemma waiting_pc: "pc_reply (st_pc t) = [] \<Longrightarrow> waiting t = mset (bt_late (st_base t))"
  by (simp add: waiting_def)

lemma quiet_inner:
  assumes "replies_wf t" "st_base t' = st_base t" "chan_ids (st_heap t') = chan_ids (st_heap t)" "pc_reply (st_pc t') = []"
  shows "\<exists>new. server_quiet t t' new"
  using quiet_none [OF assms(1), of t'] assms(2-4) by (auto simp: waiting_def)

lemma chan_ids_if [simp]:
  "h a = Some c \<Longrightarrow> c_id c' = c_id c \<Longrightarrow> chan_ids (\<lambda>x. if x = a then Some c' else h x) = chan_ids h"
  by (auto simp: chan_ids_def)

lemma st_confirm_quiet:
  assumes "t' \<in> set (st_confirm t cid v)" "replies_wf t"
  shows "(\<exists>new. server_quiet t t' new) \<and> st_in t' = st_in t \<and> (st_pc t' = SCmd \<or> st_pc t' = SSendClose cid)"
proof -
  have "st_base t' = st_base t \<and> chan_ids (st_heap t') = chan_ids (st_heap t)"
    using assms(1)
    by (cases "st_keys t cid"; cases "st_heap t (the (st_keys t cid))") (auto simp: st_confirm_def dest: c_id_Confirm)
  then show ?thesis using st_confirm_cases [OF assms(1)] quiet_inner [OF assms(2), of t'] by auto
qed

lemma st_create_answers:
  assumes "st_create opts (t\<lparr>st_in := y\<rparr>) cid = (u, code)" "replies_wf t" "st_pc t = SCmd"
  shows "server_answers t (u\<lparr>st_in := x, st_pc := SReply (create_reply cid code)\<rparr>) cid code"
proof -
  have u: "st_base u = st_base t" using assms(1) by (auto simp: st_create_def Let_def split: if_splits)
  show ?thesis
    using assms u by (auto simp: server_answers_def replies_wf_def waiting_def st_create_def chan_ids_def Let_def
        split: if_splits)
qed

lemma server_command_turned:
  assumes "st_pc t = SCmd" "t' \<in> set (st_command opts t)" "replies_wf t"
    "stream frame_bytes (st_in t) rest w 0 fs" "\<forall>f \<in> set fs. up_ok f"
  shows "server_turned t t' rest w fs"
proof (cases "\<exists>f. (st_in t \<noteq> [] \<longrightarrow> hd (st_in t) = hd (frame_bytes f)) \<and> up_ok f \<and> length (st_in t) < length (frame_head f)")
  case True
  then have "st_pc t' = SClean \<and> st_base t' = st_base t \<and> st_heap t' = st_heap t"
    using server_reads_short [OF assms(2)] by blast
  then show ?thesis using quiet_inner [OF assms(3), of t'] by (intro server_turned_dead) auto
next
  case False
  then have "st_in t \<noteq> []" by (force dest: spec [of _ InPing] simp: frame_head_def)
  then obtain f fs' where f: "fs = f # fs'" "hd (st_in t) = hd (frame_bytes f)"
    using stream_next [OF assms(4)] frame_bytes_ne by metis
  then have ok: "up_ok f" and len: "length (frame_head f) \<le> length (st_in t)" using assms(5) False by auto
  obtain x where x: "st_in t = frame_head f @ x" "stream frame_bytes x rest w (length (frame_body f)) fs'"
    using stream_frame [OF assms(4) [unfolded f(1)] frame_head_body len] .
  note q = quiet_inner [OF assms(3)]
  show ?thesis
  proof (cases f)
    case InPing
    then have "t' = t\<lparr>st_in := x\<rparr>"
      using assms(2) x(1) by (simp add: st_command_def frame_head_def)
    then show ?thesis unfolding f(1) using x(2) InPing assms(1) q [of t']
      by (intro server_turned_frame) (simp_all add: server_live_def server_debt_def)
  next
    case (InPong p)
    then show ?thesis using ok by simp
  next
    case (InCreate cid)
    obtain u code where u: "st_create opts (t\<lparr>st_in := PutUint64 cid @ x\<rparr>) cid = (u, code)" by force
    then have t': "t' = u\<lparr>st_in := x, st_pc := SReply (create_reply cid code)\<rparr>"
      using assms(2) x(1) InCreate by (simp add: st_command_def frame_head_def create_request_def)
    have a: "server_answers t t' cid code"
      unfolding t' by (rule st_create_answers [OF u assms(3,1)])
    show ?thesis unfolding server_turned_def
      using a x(2) InCreate f(1) by (auto simp: t' server_live_def server_debt_def)
  next
    case (InClose cid)
    then have t': "t' = (st_close_cmd (t\<lparr>st_in := PutUint64 cid @ x\<rparr>) cid)\<lparr>st_in := x\<rparr>"
      using assms(2) x(1) by (simp add: st_command_def frame_head_def close_frame_def)
    then have "st_base t' = st_base t \<and> chan_ids (st_heap t') = chan_ids (st_heap t) \<and> st_pc t' = SCmd"
      using assms(1) by (auto simp: st_close_cmd_def split: option.split)
    then show ?thesis unfolding f(1) using x(2) InClose t' q [of t']
      by (intro server_turned_frame) (simp_all add: server_live_def server_debt_def)
  next
    case (InData cid b)
    have sz: "unat (of_nat (length b) :: 16 word) = length b"
      using ok InData by (simp add: unat_of_nat)
    have "t' = t\<lparr>st_in := x, st_pc := SWrite cid (length b) (write_max (length b))\<rparr>"
      using assms(2) x(1) InData sz by (simp add: st_command_def frame_head_def ReadFull_append2 Let_def)
    then show ?thesis unfolding f(1) using x(2) InData q [of t']
      by (intro server_turned_frame) (simp_all add: server_live_def server_debt_def)
  next
    case (InConfirm cid v)
    then have "t' \<in> set (st_confirm (t\<lparr>st_in := x\<rparr>) cid v)"
      using assms(2) x(1) by (simp add: st_command_def frame_head_def confirm_frame_def ReadFull_append2)
    from st_confirm_quiet [OF this] assms(3) have c: "\<exists>new. server_quiet (t\<lparr>st_in := x\<rparr>) t' new"
      "st_in t' = x" "st_pc t' = SCmd \<or> st_pc t' = SSendClose cid"
      by (auto simp: replies_wf_def)
    then have "\<exists>new. server_quiet t t' new" by (simp add: server_quiet_def)
    then show ?thesis unfolding f(1) using x(2) InConfirm c(2,3)
      by (intro server_turned_frame) (auto simp: server_live_def server_debt_def)
  qed
qed


lemma server_write_turned:
  assumes "st_pc t = SWrite cid sz mx" "replies_wf t" "stream frame_bytes (st_in t) rest w sz fs"
  shows "server_turned t (st_write_pass t cid sz mx) rest w fs"
proof (cases "sz = 0")
  case True
  then show ?thesis using assms quiet_inner [OF assms(2), of "t\<lparr>st_pc := SCmd\<rparr>"]
    by (intro server_turned_same) (simp_all add: st_write_pass_def server_live_def server_debt_def)
next
  case False
  let ?n = "if sz > mx then mx else sz"
  obtain b e r where rd: "ReadFull ?n (st_in t) = (b, e, r)" by (cases "ReadFull ?n (st_in t)") auto
  show ?thesis
  proof (cases e)
    case (Some x)
    then show ?thesis using False rd quiet_inner [OF assms(2), of "t\<lparr>st_in := r, st_pc := SClean\<rparr>"]
      by (intro server_turned_dead) (simp_all add: st_write_pass_def Let_def)
  next
    case None
    let ?t = "st_write_pass t cid sz mx"
    have t': "st_base ?t = st_base t" "chan_ids (st_heap ?t) = chan_ids (st_heap t)" "st_pc ?t = SWrite cid (sz - ?n) mx"
        "st_in ?t = drop ?n (st_in t)"
      using False rd None by (auto simp: st_write_pass_def Let_def elim!: ReadFull_NoneE split: option.split)
    have "?n \<le> length (st_in t)" using rd None by (auto elim!: ReadFull_NoneE)
    then have "stream frame_bytes (drop ?n (st_in t)) rest w (sz - ?n) fs"
      by (intro stream_payload [OF assms(3)]) auto
    then show ?thesis using quiet_inner [OF assms(2) t'(1,2)] t'(3,4)
      by (intro server_turned_same) (simp_all add: server_live_def server_debt_def)
  qed
qed

theorem server_turn_turned:
  assumes "t' \<in> set (st_turn opts t)" "replies_wf t" "\<forall>f \<in> set fs. up_ok f"
    "server_live t \<Longrightarrow> stream frame_bytes (st_in t) rest w (server_debt t) fs"
  shows "server_turned t t' rest w fs"
proof (cases "st_pc t")
  case SCmd
  then show ?thesis using assms server_command_turned [OF SCmd _ assms(2) _ assms(3)]
    by (simp add: st_turn_def server_live_def server_debt_def)
next
  case (SReply data)
  then obtain base ex where b: "(base, ex) \<in> set (postWrite (st_base t) data)"
      "t' = t\<lparr>st_base := base, st_pc := (if ex then SClean else SCmd)\<rparr>"
    using assms(1) by (auto simp: st_turn_def)
  then have q: "\<exists>new. server_quiet t t' new" using quiet_postWrite [OF assms(2) b(1), of t'] SReply by simp
  show ?thesis
  proof (cases ex)
    case True
    then show ?thesis using b(2) q by (intro server_turned_dead) simp_all
  next
    case False
    then show ?thesis using b(2) SReply assms(4) q
      by (intro server_turned_same) (simp_all add: server_live_def server_debt_def)
  qed
next
  case (SWrite cid sz mx)
  then show ?thesis using assms server_write_turned [OF SWrite assms(2)]
    by (simp add: st_turn_def server_live_def server_debt_def)
next
  case (SSendClose cid)
  then obtain base where b: "base \<in> set (sendClose (st_base t) cid)" "t' = t\<lparr>st_base := base, st_pc := SCmd\<rparr>"
    using assms(1) by (auto simp: st_turn_def)
  then have "\<exists>new. server_quiet t t' new" using quiet_sendClose [OF assms(2) b(1), of t'] by simp
  then show ?thesis using b(2) SSendClose assms(4)
    by (intro server_turned_same) (simp_all add: server_live_def server_debt_def)
next
  case SClean
  then have "t' = t\<lparr>st_heap := close_all (st_keys t) (st_heap t), st_base := bt_Close (st_base t), st_pc := SDone\<rparr>"
    using assms(1) by (simp add: st_turn_def)
  then show ?thesis using SClean quiet_none [OF assms(2), of t']
    by (intro server_turned_dead) (auto simp: waiting_def bt_Close_def)
next
  case SDone
  then show ?thesis using assms(1) by (simp add: st_turn_def)
qed

end
