(* ===== verification/LinkClient.thy ===== *)
theory LinkClient
  imports LinkServer
begin

text \<open>
  What the moves of a client transport do, as the rest of the connection sees them: the frames they queue, the
  frames they have read and what they leave of calls and keys.
\<close>

section \<open>Moves of the client\<close>

text \<open>A call whose request has been sent, or never will be.\<close>

definition past_send :: "client_transport \<Rightarrow> nat \<Rightarrow> bool" where
  "past_send c n \<longleftrightarrow> n < length (ct_calls c) \<and> ct_calls c ! n \<noteq> CallNew \<and> ct_calls c ! n \<noteq> CallSend"

text \<open>A key that is there waits for its reply.\<close>

definition key_waits :: "client_transport \<Rightarrow> 64 word \<Rightarrow> bool" where
  "key_waits c i \<longleftrightarrow> (\<forall>k. ct_keys c i = Some k \<longrightarrow> kc_rw k \<noteq> None)"

definition none_late :: "client_transport \<Rightarrow> bool" where
  "none_late c \<longleftrightarrow> bt_late (ct_base c) = []"

definition client_queues :: "client_transport \<Rightarrow> client_transport \<Rightarrow> peer_frame list \<Rightarrow> bool" where
  "client_queues c c' new \<longleftrightarrow>
     bt_ch (ct_base c') = bt_ch (ct_base c) @ map frame_bytes new \<and> (\<forall>f \<in> set new. up_ok f)
     \<and> ask_ids new = [] \<and> none_late c'"

definition client_keeps :: "client_transport \<Rightarrow> client_transport \<Rightarrow> bool" where
  "client_keeps c c' \<longleftrightarrow>
     chan_ids (ct_heap c') = chan_ids (ct_heap c)
     \<and> (\<forall>i. key_waits c i \<longrightarrow> key_waits c' i)
     \<and> length (ct_calls c) \<le> length (ct_calls c')
     \<and> (\<forall>n. past_send c n \<longrightarrow> past_send c' n)
     \<and> (\<forall>n < length (ct_calls c'). ct_calls c' ! n = CallSend \<longrightarrow>
          key_waits c' (call_id n) \<or> n < length (ct_calls c) \<and> ct_calls c ! n = CallSend)"

definition client_quiet :: "client_transport \<Rightarrow> client_transport \<Rightarrow> bool" where
  "client_quiet c c' \<longleftrightarrow> client_keeps c c' \<and> (\<exists>new. client_queues c c' new)"

definition client_sends :: "client_transport \<Rightarrow> client_transport \<Rightarrow> nat \<Rightarrow> bool" where
  "client_sends c c' n \<longleftrightarrow>
     n < length (ct_calls c) \<and> ct_calls c ! n = CallSend
     \<and> (\<exists>base. c' = c\<lparr>ct_base := base, ct_calls := (ct_calls c)[n := CallWait]\<rparr>
          \<and> base = (ct_base c)\<lparr>bt_ch := bt_ch (ct_base c) @ [create_request (call_id n)]\<rparr>)"

lemma client_queues_none:
  "none_late c \<Longrightarrow> bt_ch (ct_base c') = bt_ch (ct_base c) \<Longrightarrow> bt_late (ct_base c') = bt_late (ct_base c) \<Longrightarrow>
    \<exists>new. client_queues c c' new"
  by (rule exI [of _ "[]"]) (simp add: client_queues_def none_late_def)

lemma client_queues_frame:
  "none_late c \<Longrightarrow> bt_ch (ct_base c') = bt_ch (ct_base c) @ [frame_bytes f] \<Longrightarrow>
    bt_late (ct_base c') = bt_late (ct_base c) \<Longrightarrow> up_ok f \<Longrightarrow> ask_ids [f] = [] \<Longrightarrow>
    \<exists>new. client_queues c c' new"
  by (rule exI [of _ "[f]"]) (simp add: client_queues_def none_late_def)

lemma client_queues_close:
  assumes "none_late c" "base \<in> set (sendClose (ct_base c) cid)" "ct_base c' = base"
  shows "\<exists>new. client_queues c c' new"
  using sendClose_cases [OF assms(2)] client_queues_none [OF assms(1), of c']
    client_queues_frame [OF assms(1), of c' "InClose cid"] assms(3) by auto

lemma no_late_write: "none_late c \<Longrightarrow> base \<notin> set (late_write (ct_base c) i)"
  by (simp add: none_late_def late_write_def)

lemma client_keeps_same:
  assumes "chan_ids (ct_heap c') = chan_ids (ct_heap c)" "ct_keys c' = ct_keys c \<or> (\<exists>i. ct_keys c' = (ct_keys c)(i := None))"
    "ct_calls c' = ct_calls c"
  shows "client_keeps c c'"
  using assms by (auto simp: client_keeps_def key_waits_def past_send_def split: if_splits)

lemma client_keeps_ret:
  assumes "chan_ids (ct_heap c') = chan_ids (ct_heap c)" "ct_keys c' = ct_keys c" "ct_calls c' = (ct_calls c)[n := CallRet r]"
  shows "client_keeps c c'"
  using assms
  by (cases "n < length (ct_calls c)")
    (auto simp: client_keeps_def key_waits_def past_send_def nth_list_update split: if_splits)


lemma client_quietI:
  "client_keeps c c' \<Longrightarrow> \<exists>new. client_queues c c' new \<Longrightarrow> client_quiet c c'"
  by (simp add: client_quiet_def)

text \<open>Moves that leave the queue alone, and that leave all but the queue alone.\<close>

lemma client_quiet_inner:
  assumes "none_late c" "ct_base c' = ct_base c" "chan_ids (ct_heap c') = chan_ids (ct_heap c)"
    "ct_keys c' = ct_keys c \<or> (\<exists>i. ct_keys c' = (ct_keys c)(i := None))" "ct_calls c' = ct_calls c"
  shows "client_quiet c c'"
  using assms by (intro client_quietI client_keeps_same client_queues_none) auto

lemma client_quiet_base:
  assumes "\<exists>new. client_queues c c' new" "ct_heap c' = ct_heap c" "ct_keys c' = ct_keys c" "ct_calls c' = ct_calls c"
  shows "client_quiet c c'"
  using assms by (intro client_quietI client_keeps_same) auto

lemma client_quiet_ret:
  assumes "none_late c" "ct_base c' = ct_base c" "chan_ids (ct_heap c') = chan_ids (ct_heap c)"
    "ct_keys c' = ct_keys c" "ct_calls c' = (ct_calls c)[n := CallRet r]"
  shows "client_quiet c c'"
  using assms by (intro client_quietI client_keeps_ret client_queues_none) auto

text \<open>What the client has besides the parts named above does not matter for a quiet move.\<close>

lemma client_quiet_cong:
  assumes "client_quiet c c'" "ct_base c'' = ct_base c'" "ct_heap c'' = ct_heap c'" "ct_keys c'' = ct_keys c'"
    "ct_calls c'' = ct_calls c'"
  shows "client_quiet c c''"
  using assms unfolding client_quiet_def client_keeps_def client_queues_def none_late_def key_waits_def past_send_def
  by (simp del: not_None_eq)

lemma client_quiet_cong2:
  assumes "client_quiet c0 c'" "ct_base c0 = ct_base c" "ct_heap c0 = ct_heap c" "ct_keys c0 = ct_keys c"
    "ct_calls c0 = ct_calls c"
  shows "client_quiet c c'"
  using assms unfolding client_quiet_def client_keeps_def client_queues_def none_late_def key_waits_def past_send_def
  by (simp del: not_None_eq)

lemma result_cases_quiet:
  assumes "(c', cid, ex) \<in> set (result_cases c n code v)" "none_late c"
  shows "client_quiet c c' \<and> ct_pc c' = ct_pc c \<and> ct_in c' = ct_in c"
proof -
  consider "c' = c" | a where "c' = c\<lparr>ct_heap := store_update (ct_heap c) a (\<lambda>c. fst (ch_Close c))\<rparr>"
    | "c' = c\<lparr>ct_calls := (ct_calls c)[n := CallRet (create_value (call_id n) code v)]\<rparr>"
    using assms(1) by (auto simp: result_cases_def split: option.splits if_splits)
  then show ?thesis
  proof cases
    case 3
    then show ?thesis by (auto intro!: client_quiet_ret assms(2))
  qed (auto intro!: client_quiet_inner assms(2))
qed

lemma createResult_quiet:
  assumes "c' \<in> set (createResult c n code v)" "none_late c"
  shows "client_quiet c c' \<and> ct_in c' = ct_in c \<and> (\<exists>cid. ct_pc c' = CCmd \<or> ct_pc c' = CSendClose cid \<or> ct_pc c' = CClean)"
proof (cases "result_cases c n code v = []")
  case True
  then have "c' = c\<lparr>ct_late := ct_late c @ [(n, code, v)], ct_pc := CCmd\<rparr>"
    using assms(1) by (simp add: createResult_def)
  then show ?thesis using client_quiet_inner [OF assms(2), of c'] by simp
next
  case False
  then obtain u cid ex where u: "(u, cid, ex) \<in> set (result_cases c n code v)"
      "c' = u\<lparr>ct_pc := (if ex then CClean else case cid of None \<Rightarrow> CCmd | Some j \<Rightarrow> CSendClose j)\<rparr>"
    using assms(1) by (auto simp: createResult_def Let_def)
  then show ?thesis using result_cases_quiet [OF u(1) assms(2)]
    by (auto intro: client_quiet_cong split: option.split)
qed

lemma late_resultE:
  assumes "c' \<in> set (late_result c i)"
  obtains n code v u cid ex
  where "(u, cid, ex) \<in> set (result_cases (c\<lparr>ct_late := take i (ct_late c) @ drop (Suc i) (ct_late c)\<rparr>) n code v)"
    "c' = u\<lparr>ct_closing := ct_closing u @ (case cid of None \<Rightarrow> [] | Some j \<Rightarrow> [j])\<rparr>"
    "(n, code, v) \<in> set (ct_late c)"
proof -
  let ?l = "take i (ct_late c) @ drop (Suc i) (ct_late c)"
  obtain n code v where l: "ct_late c ! i = (n, code, v)" using prod_cases3 by blast
  have i: "i < length (ct_late c)"
    by (rule ccontr) (use assms(1) in \<open>simp add: late_result_def\<close>)
  obtain x where x: "x \<in> set (result_cases (c\<lparr>ct_late := ?l\<rparr>) n code v)"
      "c' = (\<lambda>(u, cid, _). u\<lparr>ct_closing := ct_closing u @ (case cid of None \<Rightarrow> [] | Some j \<Rightarrow> [j])\<rparr>) x"
    using assms(1) i l unfolding late_result_def by (simp only: if_True split_conv set_map image_iff) blast
  obtain u cid ex where "x = (u, cid, ex)" by (cases x)
  with x l nth_mem [OF i] that show thesis by simp
qed

lemma late_result_quiet:
  assumes "c' \<in> set (late_result c i)" "none_late c"
  shows "client_quiet c c' \<and> ct_pc c' = ct_pc c \<and> ct_in c' = ct_in c"
  using assms(1)
proof (cases rule: late_resultE)
  case u: (1 n code v u cid ex)
  let ?l = "take i (ct_late c) @ drop (Suc i) (ct_late c)"
  have q: "client_quiet (c\<lparr>ct_late := ?l\<rparr>) u" "ct_pc u = ct_pc c" "ct_in u = ct_in c"
    using result_cases_quiet [OF u(1)] assms(2) by (simp_all add: none_late_def)
  have "client_quiet c c'"
    by (rule client_quiet_cong2 [OF client_quiet_cong [OF q(1)]]) (simp_all add: u(2))
  then show ?thesis using u(2) q(2,3) by simp
qed

lemma create_give_up_quiet:
  assumes "c' \<in> set (create_give_up c n)" "none_late c"
  shows "client_quiet c c' \<and> ct_pc c' = ct_pc c \<and> ct_in c' = ct_in c"
  using assms(1) by (auto simp: create_give_up_def split: if_splits intro!: client_quiet_ret assms(2))

lemma create_register_quiet:
  assumes "n < length (ct_calls c)" "ct_calls c ! n = CallNew" "none_late c"
  shows "client_quiet c (create_register c n)"
proof (cases "ct_cancelled c n")
  case True
  then show ?thesis by (auto simp: create_register_def intro!: client_quiet_ret assms(3))
next
  case False
  let ?c = "create_register c n"
  have c': "ct_keys ?c = (ct_keys c)(call_id n \<mapsto> \<lparr>kc_channel = None, kc_rw = Some n\<rparr>)" "ct_heap ?c = ct_heap c"
    "ct_calls ?c = (ct_calls c)[n := CallSend]" "ct_base ?c = ct_base c"
    using False by (simp_all add: create_register_def)
  have "client_keeps c ?c"
    using assms(1,2) unfolding client_keeps_def c'
    by (auto simp: key_waits_def past_send_def c' nth_list_update simp del: not_None_eq split: if_splits)
  then show ?thesis using client_queues_none [OF assms(3), of ?c] c' by (simp add: client_quietI)
qed

lemma client_local_effect:
  assumes "client_local c c'" "none_late c"
  shows "(client_quiet c c' \<or> (\<exists>n. client_sends c c' n)) \<and> ct_pc c' = ct_pc c \<and> ct_in c' = ct_in c"
  using assms
proof (induction rule: client_local.induct)
  case (cl_start t)
  have "client_keeps t (create_start t)"
    by (auto simp: client_keeps_def create_start_def key_waits_def past_send_def nth_append)
  then show ?case using client_queues_none [OF cl_start, of "create_start t"]
    by (simp add: client_quietI create_start_def)
next
  case (cl_register n t)
  then show ?case using create_register_quiet by (simp add: create_register_def)
next
  case (cl_send n t t')
  consider "t' \<in> set (create_give_up t n)"
    | base where "base \<in> set (ch_send (ct_base t) (create_request (call_id n)))"
        "t' = t\<lparr>ct_base := base, ct_calls := (ct_calls t)[n := CallWait]\<rparr>"
    using cl_send(3) by (auto simp: create_send_def)
  then show ?case
  proof cases
    case 1
    then show ?thesis using create_give_up_quiet cl_send(4) by blast
  next
    case 2
    then show ?thesis using cl_send(1,2) ch_send_frame [OF 2(1)] unfolding client_sends_def by auto
  qed
next
  case (cl_give_up n t t')
  then show ?case using create_give_up_quiet by blast
next
  case (cl_cancel t n)
  then show ?case using client_quiet_inner [OF cl_cancel, of "t\<lparr>ct_cancelled := (ct_cancelled t)(n := True)\<rparr>"] by simp
next
  case (cl_late_result t' t i)
  then show ?case using late_result_quiet by blast
next
  case (cl_user t a c c')
  then show ?case using client_quiet_inner [OF cl_user(4), of "t\<lparr>ct_heap := (ct_heap t)(a \<mapsto> c')\<rparr>"] by simp
next
  case (cl_exit t a c)
  let ?u = "t\<lparr>ct_heap := store_update (ct_heap t) a (\<lambda>c. fst (ch_Close c))\<rparr>"
  have "ct_heap (ct_delete ?u a) = ct_heap ?u" "ct_base (ct_delete ?u a) = ct_base t" "ct_calls (ct_delete ?u a) = ct_calls t"
    "ct_pc (ct_delete ?u a) = ct_pc t" "ct_in (ct_delete ?u a) = ct_in t"
    "ct_keys (ct_delete ?u a) = ct_keys t \<or> (\<exists>i. ct_keys (ct_delete ?u a) = (ct_keys t)(i := None))"
    by (auto simp: ct_delete_def split: option.splits)
  then show ?case using client_quiet_inner [OF cl_exit(2), of "ct_delete ?u a"] by simp
next
  case (cl_frame t a c f base)
  then obtain g where g: "f = frame_bytes g" "up_ok g" "ask_ids [g] = []"
    by (auto simp: channel_frame_def intro: that [of "InData _ _"] that [of "InConfirm _ _"])
  then show ?case
    using client_queues_frame [OF cl_frame(4), of "t\<lparr>ct_base := base\<rparr>" g] ch_send_frame [OF cl_frame(3)]
    by (auto intro!: client_quiet_base)
next
  case (cl_ping base t)
  then show ?case
    using client_queues_frame [OF cl_ping(2), of "t\<lparr>ct_base := base\<rparr>" InPing] ch_send_frame [OF cl_ping(1)]
    by (auto intro!: client_quiet_base)
next
  case (cl_closing t' t i)
  then obtain base where b: "base \<in> set (sendClose (ct_base t) (ct_closing t ! i))"
      "t' = t\<lparr>ct_base := base, ct_closing := take i (ct_closing t) @ drop (Suc i) (ct_closing t)\<rparr>"
    by (auto simp: ct_send_closing_def split: if_splits)
  then show ?case using client_queues_close [OF cl_closing(2) b(1), of t'] by (auto intro!: client_quiet_base)
next
  case (cl_late_write base t i)
  then show ?case using no_late_write
    by (auto intro!: client_quiet_base)
next
  case (cl_shutdown t)
  then show ?case using client_queues_none [OF cl_shutdown, of "t\<lparr>ct_base := bt_Close (ct_base t)\<rparr>"]
    by (auto intro!: client_quiet_base simp: bt_Close_def)
qed

section \<open>Turns of the client's read loop\<close>

definition client_live :: "client_transport \<Rightarrow> bool" where
  "client_live c \<longleftrightarrow> ct_pc c \<noteq> CClean \<and> ct_pc c \<noteq> CDone \<and> ct_pc c \<noteq> CPanic"

definition client_debt :: "client_transport \<Rightarrow> nat" where
  "client_debt c = (case ct_pc c of CWrite cid sz mx \<Rightarrow> sz | _ \<Rightarrow> 0)"

fun down_body :: "down_frame \<Rightarrow> bytes" where
  "down_body (DnData cid b) = b"
| "down_body _ = []"

definition down_head :: "down_frame \<Rightarrow> bytes" where
  "down_head f =
     (case f of DnData cid b \<Rightarrow> [CommandWrite] @ PutUint64 cid @ PutUint16 (of_nat (length b)) | _ \<Rightarrow> down_bytes f)"

lemma down_head_body: "down_bytes f = down_head f @ down_body f"
  by (cases f) (simp_all add: down_head_def write_frame_def)

lemma client_reads_short:
  assumes "c' \<in> set (ct_command c)" "length (ct_in c) < length (down_head g)" "down_ok g"
    "ct_in c \<noteq> [] \<Longrightarrow> hd (ct_in c) = hd (down_bytes g)"
  shows "ct_pc c' = CClean \<and> ct_base c' = ct_base c \<and> ct_heap c' = ct_heap c \<and> ct_keys c' = ct_keys c
    \<and> ct_calls c' = ct_calls c"
proof (cases "ct_in c")
  case Nil
  then show ?thesis using assms(1) by (auto simp: ct_command_def ReadFull_def)
next
  case (Cons cm r)
  have cm: "cm = hd (down_bytes g)" "Suc (length r) < length (down_head g)" using assms(2,4) Cons by auto
  have rd: "ReadFull 1 (ct_in c) = ([cm], None, r)" using Cons ReadFull_enough [of 1 "ct_in c"] by simp
  have short: "\<exists>e. ReadFull n r = (r, Some e, [])" if "length (down_head g) = Suc n" for n
    using ReadFull_short [of r n] cm(2) that by simp
  show ?thesis
  proof (cases g)
    case (DnPong p)
    then show ?thesis using short [of 4] cm(1) assms(1,3) rd
      by (auto simp: ct_command_def down_head_def onPong_def Let_def)
  next
    case (DnReply cid code)
    then show ?thesis using short [of 9] cm(1) assms(1,3) rd
      by (auto simp: ct_command_def down_head_def Let_def)
  next
    case (DnClose cid)
    then show ?thesis using short [of 8] cm(1) assms(1,3) rd
      by (auto simp: ct_command_def down_head_def Let_def)
  next
    case (DnData cid b)
    then show ?thesis using short [of 10] cm(1) assms(1,3) rd
      by (auto simp: ct_command_def down_head_def Let_def)
  next
    case (DnConfirm cid v)
    then show ?thesis using short [of 10] cm(1) assms(1,3) rd
      by (auto simp: ct_command_def down_head_def Let_def)
  qed (use cm(2) in \<open>simp add: down_head_def\<close>)
qed

text \<open>What a turn that ends the loop, goes on, or takes a reply does.\<close>

definition client_turned ::
    "client_transport \<Rightarrow> client_transport \<Rightarrow> bytes \<Rightarrow> bool \<Rightarrow> down_frame list \<Rightarrow> bool" where
  "client_turned c c' rest w gs \<longleftrightarrow>
     (\<not> client_live c' \<and> ct_pc c' \<noteq> CPanic \<and> client_quiet c c')
     \<or> (client_live c' \<and> client_quiet c c' \<and> (\<exists>gs'. stream down_bytes (ct_in c') rest w (client_debt c') gs'
          \<and> (gs' = gs \<or> (\<exists>g. gs = g # gs' \<and> reply_pairs [g] = []))))
     \<or> (\<exists>cid code x gs'. gs = DnReply cid code # gs' \<and> c' = ct_create_cmd (c\<lparr>ct_in := x\<rparr>) cid code
          \<and> ct_pc c = CCmd \<and> stream down_bytes x rest w 0 gs')"

lemma client_turned_dead:
  "ct_pc c' = CClean \<or> ct_pc c' = CDone \<Longrightarrow> client_quiet c c' \<Longrightarrow> client_turned c c' rest w gs"
  by (auto simp: client_turned_def client_live_def)

lemma client_turned_same:
  "client_live c' \<Longrightarrow> client_quiet c c' \<Longrightarrow> stream down_bytes (ct_in c') rest w (client_debt c') gs \<Longrightarrow>
    client_turned c c' rest w gs"
  unfolding client_turned_def by blast

lemma client_turned_frame:
  "client_live c' \<Longrightarrow> client_quiet c c' \<Longrightarrow> stream down_bytes (ct_in c') rest w (client_debt c') gs \<Longrightarrow>
    reply_pairs [g] = [] \<Longrightarrow> client_turned c c' rest w (g # gs)"
  unfolding client_turned_def by blast

lemma ct_confirm_quiet:
  assumes "c' \<in> set (ct_confirm c cid v)" "none_late c"
  shows "client_quiet c c' \<and> ct_in c' = ct_in c \<and> (ct_pc c' = CCmd \<or> ct_pc c' = CSendClose cid)"
proof (cases "Option.bind (ct_keys c cid) kc_channel")
  case None
  then have "c' = c\<lparr>ct_pc := CSendClose cid\<rparr>"
    using assms(1) by (cases "ct_keys c cid") (simp_all add: ct_confirm_def)
  then show ?thesis using client_quiet_inner [OF assms(2), of c'] by simp
next
  case (Some a)
  then obtain key where key: "ct_keys c cid = Some key" "kc_channel key = Some a"
    by (cases "ct_keys c cid") simp_all
  then obtain ch where ch: "ct_heap c a = Some ch"
    using assms(1) by (cases "ct_heap c a") (simp_all add: ct_confirm_def)
  obtain ch' ovf where r: "(ch', ovf) \<in> set (Confirm (bt_done (ct_base c)) ch (ucast v))"
      "c' = (if ovf then c\<lparr>ct_heap := (ct_heap c)(a \<mapsto> fst (ch_Close ch')), ct_pc := CSendClose cid\<rparr>
         else c\<lparr>ct_heap := (ct_heap c)(a \<mapsto> ch'), ct_pc := CCmd\<rparr>)"
    using assms(1) key ch by (auto simp: ct_confirm_def)
  have "chan_ids ((ct_heap c)(a \<mapsto> ch')) = chan_ids (ct_heap c)"
    "chan_ids ((ct_heap c)(a \<mapsto> fst (ch_Close ch'))) = chan_ids (ct_heap c)"
    using ch c_id_Confirm [OF r(1)] by (simp_all add: chan_ids_set)
  then have "client_quiet c c'"
    by (intro client_quiet_inner [OF assms(2)]) (auto simp: r(2))
  then show ?thesis by (simp add: r(2))
qed

lemma client_command_turned:
  assumes "ct_pc c = CCmd" "c' \<in> set (ct_command c)" "none_late c"
    "stream down_bytes (ct_in c) rest w 0 gs" "\<forall>g \<in> set gs. down_ok g"
  shows "client_turned c c' rest w gs"
proof (cases "\<exists>g. (ct_in c \<noteq> [] \<longrightarrow> hd (ct_in c) = hd (down_bytes g)) \<and> down_ok g \<and> length (ct_in c) < length (down_head g)")
  case True
  then have "ct_pc c' = CClean \<and> ct_base c' = ct_base c \<and> ct_heap c' = ct_heap c \<and> ct_keys c' = ct_keys c
      \<and> ct_calls c' = ct_calls c"
    using client_reads_short [OF assms(2)] by blast
  then show ?thesis using client_quiet_inner [OF assms(3), of c'] by (intro client_turned_dead) auto
next
  case False
  then have "ct_in c \<noteq> []" by (force dest: spec [of _ DnPing] simp: down_head_def)
  then obtain g gs' where g: "gs = g # gs'" "hd (ct_in c) = hd (down_bytes g)"
    using stream_next [OF assms(4)] down_bytes_ne by metis
  then have ok: "down_ok g" and len: "length (down_head g) \<le> length (ct_in c)" using assms(5) False by auto
  obtain x where x: "ct_in c = down_head g @ x" "stream down_bytes x rest w (length (down_body g)) gs'"
    using stream_frame [OF assms(4) [unfolded g(1)] down_head_body len] .
  note q = client_quiet_inner [OF assms(3)]
  show ?thesis
  proof (cases g)
    case DnPing
    then have "c' = c\<lparr>ct_in := x\<rparr>"
      using assms(2) x(1) by (simp add: ct_command_def down_head_def)
    then show ?thesis unfolding g(1) using x(2) DnPing assms(1) q [of c']
      by (intro client_turned_frame) (simp_all add: client_live_def client_debt_def)
  next
    case (DnPong p)
    then show ?thesis using ok by simp
  next
    case (DnReply cid code)
    have rd: "ReadFull 9 (PutUint64 cid @ code # x) = (PutUint64 cid @ [code], None, x)"
      using ReadFull_append2 [of "PutUint64 cid" "[code]" 9 x] by simp
    have "(PutUint64 cid @ [code]) ! 8 = code" by (simp add: nth_append)
    then have "c' = ct_create_cmd (c\<lparr>ct_in := x\<rparr>) cid code"
      using assms(2) x(1) DnReply rd by (simp add: ct_command_def down_head_def create_reply_def)
    then show ?thesis unfolding client_turned_def using x(2) DnReply g(1) assms(1) by auto
  next
    case (DnClose cid)
    then have "c' = ct_close_cmd (c\<lparr>ct_in := x\<rparr>) cid"
      using assms(2) x(1) by (auto simp: ct_command_def down_head_def close_frame_def)
    then have c': "ct_base c' = ct_base c \<and> chan_ids (ct_heap c') = chan_ids (ct_heap c) \<and> ct_pc c' = CCmd
        \<and> ct_calls c' = ct_calls c \<and> ct_in c' = x
        \<and> (ct_keys c' = ct_keys c \<or> (\<exists>i. ct_keys c' = (ct_keys c)(i := None)))"
      using assms(1) by (auto simp: ct_close_cmd_def Let_def split: option.split)
    then show ?thesis unfolding g(1) using x(2) DnClose q [of c']
      by (intro client_turned_frame) (auto simp: client_live_def client_debt_def)
  next
    case (DnData cid b)
    have sz: "unat (of_nat (length b) :: 16 word) = length b"
      using ok DnData by (simp add: unat_of_nat)
    have "c' = c\<lparr>ct_in := x, ct_pc := CWrite cid (length b) (ct_write_max (length b))\<rparr>"
      using assms(2) x(1) DnData sz by (simp add: ct_command_def down_head_def ReadFull_append2 Let_def)
    then show ?thesis unfolding g(1) using x(2) DnData q [of c']
      by (intro client_turned_frame) (simp_all add: client_live_def client_debt_def)
  next
    case (DnConfirm cid v)
    then have "c' \<in> set (ct_confirm (c\<lparr>ct_in := x\<rparr>) cid v)"
      using assms(2) x(1) by (simp add: ct_command_def down_head_def confirm_frame_def ReadFull_append2)
    from ct_confirm_quiet [OF this] assms(3) have r: "client_quiet (c\<lparr>ct_in := x\<rparr>) c'"
      "ct_in c' = x" "ct_pc c' = CCmd \<or> ct_pc c' = CSendClose cid"
      by (auto simp: none_late_def)
    have "client_quiet c c'" by (rule client_quiet_cong2 [OF r(1)]) simp_all
    then show ?thesis unfolding g(1) using x(2) DnConfirm r(2,3)
      by (intro client_turned_frame) (auto simp: client_live_def client_debt_def)
  qed
qed

lemma client_write_turned:
  assumes "ct_pc c = CWrite cid sz mx" "none_late c" "stream down_bytes (ct_in c) rest w sz gs"
  shows "client_turned c (ct_write_pass c cid sz mx) rest w gs"
proof (cases "sz = 0")
  case True
  then show ?thesis using assms client_quiet_inner [OF assms(2), of "c\<lparr>ct_pc := CCmd\<rparr>"]
    by (intro client_turned_same) (simp_all add: ct_write_pass_def client_live_def client_debt_def)
next
  case False
  let ?n = "if sz > mx then mx else sz"
  obtain b e r where rd: "ReadFull ?n (ct_in c) = (b, e, r)" by (cases "ReadFull ?n (ct_in c)") auto
  show ?thesis
  proof (cases e)
    case (Some x)
    then show ?thesis using False rd client_quiet_inner [OF assms(2), of "c\<lparr>ct_in := r, ct_pc := CClean\<rparr>"]
      by (intro client_turned_dead) (simp_all add: ct_write_pass_def Let_def)
  next
    case None
    let ?t = "ct_write_pass c cid sz mx"
    have t': "ct_base ?t = ct_base c" "chan_ids (ct_heap ?t) = chan_ids (ct_heap c)" "ct_pc ?t = CWrite cid (sz - ?n) mx"
        "ct_in ?t = drop ?n (ct_in c)" "ct_keys ?t = ct_keys c" "ct_calls ?t = ct_calls c"
      using False rd None by (auto simp: ct_write_pass_def Let_def elim!: ReadFull_NoneE split: option.split)
    have "?n \<le> length (ct_in c)" using rd None by (auto elim!: ReadFull_NoneE)
    then have "stream down_bytes (drop ?n (ct_in c)) rest w (sz - ?n) gs"
      by (intro stream_payload [OF assms(3)]) auto
    then show ?thesis using client_quiet_inner [OF assms(2) t'(1,2)] t'(3-6)
      by (intro client_turned_same) (simp_all add: client_live_def client_debt_def)
  qed
qed

lemma client_turn_turned:
  assumes "c' \<in> set (ct_turn c)" "none_late c" "\<forall>g \<in> set gs. down_ok g"
    "client_live c \<Longrightarrow> stream down_bytes (ct_in c) rest w (client_debt c) gs"
  shows "client_turned c c' rest w gs"
proof (cases "ct_pc c")
  case CCmd
  then show ?thesis using assms client_command_turned [OF CCmd _ assms(2) _ assms(3)]
    by (simp add: ct_turn_def client_live_def client_debt_def)
next
  case (CResult n code v)
  then have r: "client_quiet c c'" "ct_in c' = ct_in c"
      "\<exists>cid. ct_pc c' = CCmd \<or> ct_pc c' = CSendClose cid \<or> ct_pc c' = CClean"
    using assms(1) createResult_quiet [of c' c n code v] assms(2) by (simp_all add: ct_turn_def)
  show ?thesis
  proof (cases "ct_pc c' = CClean")
    case True
    then show ?thesis using r(1) by (intro client_turned_dead) simp_all
  next
    case False
    then show ?thesis using r assms(4) CResult
      by (intro client_turned_same) (auto simp: client_live_def client_debt_def)
  qed
next
  case (CWrite cid sz mx)
  then show ?thesis using assms client_write_turned [OF CWrite assms(2)]
    by (simp add: ct_turn_def client_live_def client_debt_def)
next
  case (CSendClose cid)
  then obtain base where b: "base \<in> set (sendClose (ct_base c) cid)" "c' = c\<lparr>ct_base := base, ct_pc := CCmd\<rparr>"
    using assms(1) by (auto simp: ct_turn_def)
  then have "client_quiet c c'"
    using client_queues_close [OF assms(2) b(1), of c'] by (auto intro!: client_quiet_base)
  then show ?thesis using b(2) CSendClose assms(4)
    by (intro client_turned_same) (simp_all add: client_live_def client_debt_def)
next
  case CClean
  then have c': "c' = c\<lparr>ct_heap := close_all (\<lambda>i. Option.bind (ct_keys c i) kc_channel) (ct_heap c),
      ct_base := bt_Close (ct_base c), ct_pc := CDone\<rparr>"
    using assms(1) by (simp add: ct_turn_def)
  have "client_quiet c c'"
    by (intro client_quietI client_keeps_same client_queues_none assms(2)) (simp_all add: c' bt_Close_def)
  then show ?thesis by (intro client_turned_dead) (simp_all add: c')
next
  case CDone
  then show ?thesis using assms(1) by (simp add: ct_turn_def)
next
  case CPanic
  then show ?thesis using assms(1) by (simp add: ct_turn_def)
qed

end
