(* ===== verification/LinkSafety.thy ===== *)
theory LinkSafety
  imports LinkClient
begin

text \<open>
  Safety of a client and a server on one connection: every create request is answered at most once and only
  by its own reply, on whatever connection and in whatever order the goroutines run.
\<close>

section \<open>One direction of the connection\<close>

text \<open>
  The frames \<open>fs\<close> that a read loop still gets, at most: after a break or an exit of the writer
  the end of them is missing, and a read loop that has ended gets none.
\<close>

definition conn ::
    "('f \<Rightarrow> bytes) \<Rightarrow> ('f \<Rightarrow> bool) \<Rightarrow> bytes \<Rightarrow> bool \<Rightarrow> nat \<Rightarrow> bool \<Rightarrow> write_state \<Rightarrow> base_transport \<Rightarrow> 'f list \<Rightarrow> bool" where
  "conn enc ok inp live debt brk w t fs \<longleftrightarrow>
     (if live then
        (let whole = (\<not> brk \<and> ws_pc w \<noteq> WExit)
         in stream enc inp (if whole then snd (ws_buf w) @ concat (bt_ch t) else []) whole debt fs)
        \<and> (\<forall>f \<in> set fs. ok f)
      else fs = [])"

lemma conn_dead [simp]: "conn enc ok inp False debt brk w t fs \<longleftrightarrow> fs = []"
  by (simp add: conn_def)

lemma conn_ok: "conn enc ok inp live debt brk w t fs \<Longrightarrow> \<forall>f \<in> set fs. ok f"
  by (auto simp: conn_def split: if_splits)

lemma conn_queue:
  assumes "conn enc ok inp live d brk w t fs" "bt_ch t' = bt_ch t @ map enc new" "\<forall>f \<in> set new. ok f"
  obtains fs' where "conn enc ok inp live d brk w t' fs'" "fs' = fs \<or> fs' = fs @ new"
proof (cases "live \<and> \<not> brk \<and> ws_pc w \<noteq> WExit")
  case True
  then have "stream enc inp ((snd (ws_buf w) @ concat (bt_ch t)) @ concat (map enc new)) True d (fs @ new)"
    using assms(1) by (intro stream_queue) (simp add: conn_def)
  then have "conn enc ok inp live d brk w t' (fs @ new)"
    using True assms by (simp add: conn_def) blast
  then show thesis using that by blast
next
  case False
  then have "conn enc ok inp live d brk w t' fs" using assms(1) by (auto simp: conn_def)
  then show thesis using that by blast
qed

lemma conn_write:
  assumes "write_step sz (t, w) (t', w')" "sz = 0 \<longrightarrow> snd (ws_buf w) = []" "conn enc ok inp live d brk w t fs"
  shows "conn enc ok (inp @ (if brk then [] else written w w')) live d brk w' t' fs"
proof (cases "live \<and> \<not> brk")
  case True
  note ws = written_step [OF assms(1,2)]
  have s: "stream enc inp (snd (ws_buf w) @ concat (bt_ch t)) True d fs" and ok: "\<forall>f \<in> set fs. ok f"
    using assms(3) True ws by (simp_all add: conn_def)
  show ?thesis
  proof (cases "ws_pc w' = WExit")
    case exit: True
    then obtain lost where "snd (ws_buf w) @ concat (bt_ch t) = written w w' @ lost" using ws by auto
    then have "stream enc (inp @ written w w') [] False d fs" by (intro stream_break [OF s]) simp
    then show ?thesis using True exit ok by (simp add: conn_def)
  next
    case False
    then have "snd (ws_buf w) @ concat (bt_ch t) = written w w' @ snd (ws_buf w') @ concat (bt_ch t')" using ws by auto
    then have "stream enc (inp @ written w w') (snd (ws_buf w') @ concat (bt_ch t')) True d fs"
      using s by (intro stream_write) simp
    then show ?thesis using True False ok by (simp add: conn_def)
  qed
next
  case False
  then show ?thesis using assms(3) by (auto simp: conn_def)
qed

lemma conn_cut: "conn enc ok inp live d brk w t fs \<Longrightarrow> conn enc ok (take k inp) live d True w t fs"
  by (auto simp: conn_def Let_def intro: stream_take)

section \<open>The requests and replies on their way\<close>

text \<open>
  A token is an id with \<open>None\<close>, for a request that the server has not read, or with the code of its reply, for one
  that the client has not read.
\<close>

definition tokens ::
    "peer_frame list \<Rightarrow> down_frame list \<Rightarrow> (64 word \<times> byte) multiset \<Rightarrow> (64 word \<times> byte option) multiset" where
  "tokens fs gs us =
     image_mset (\<lambda>i. (i, None)) (mset (ask_ids fs)) + image_mset (\<lambda>(i, code). (i, Some code)) (mset (reply_pairs gs) + us)"

definition token_ok :: "client_transport \<Rightarrow> (nat \<Rightarrow> 64 word option) \<Rightarrow> 64 word \<Rightarrow> byte option \<Rightarrow> bool" where
  "token_ok c h i r \<longleftrightarrow>
     (\<exists>n. i = call_id n \<and> past_send c n) \<and> key_waits c i
     \<and> (case r of None \<Rightarrow> i \<notin> ran h | Some code \<Rightarrow> (code = 0 \<longrightarrow> i \<in> ran h) \<and> code \<in> {0, 2})"

definition tokens_ok :: "client_transport \<Rightarrow> (nat \<Rightarrow> 64 word option) \<Rightarrow> (64 word \<times> byte option) multiset \<Rightarrow> bool" where
  "tokens_ok c h T \<longleftrightarrow> (\<forall>i. count (image_mset fst T) i \<le> 1) \<and> (\<forall>(i, r) \<in># T. token_ok c h i r)"

lemma tokens_ok_mono: "tokens_ok c h T \<Longrightarrow> T' \<subseteq># T \<Longrightarrow> tokens_ok c h T'"
  unfolding tokens_ok_def
  by (meson image_mset_subseteq_mono le_trans mset_subset_eqD mset_subset_eq_count)

lemma count_add_le_1:
  "(\<forall>j. count (add_mset i M) j \<le> 1) \<longleftrightarrow> i \<notin># M \<and> (\<forall>j. count M j \<le> 1)"
proof
  assume le: "\<forall>j. count (add_mset i M) j \<le> 1"
  have "count M j \<le> count (add_mset i M) j" for j by simp
  then have "\<forall>j. count M j \<le> 1" using le le_trans by blast
  moreover have "count M i = 0" using spec [OF le, of i] by simp
  then have "i \<notin># M" by (rule not_in_iff [THEN iffD2])
  ultimately show "i \<notin># M \<and> (\<forall>j. count M j \<le> 1)" by blast
next
  assume r: "i \<notin># M \<and> (\<forall>j. count M j \<le> 1)"
  then have "count M i = 0" by (blast intro: not_in_iff [THEN iffD1])
  then show "\<forall>j. count (add_mset i M) j \<le> 1" using r by (simp del: count_eq_zero_iff)
qed

lemma tokens_ok_add:
  "tokens_ok c h (add_mset (i, r) T) \<longleftrightarrow> i \<notin># image_mset fst T \<and> token_ok c h i r \<and> tokens_ok c h T"
  unfolding tokens_ok_def image_mset_add_mset count_add_le_1 by auto

lemma tokens_ok_cong:
  "tokens_ok c h T \<Longrightarrow> (\<And>i r. (i, r) \<in># T \<Longrightarrow> token_ok c h i r \<Longrightarrow> token_ok c' h' i r) \<Longrightarrow> tokens_ok c' h' T"
  unfolding tokens_ok_def by blast

lemma tokens_mono:
  "mset (ask_ids fs') \<subseteq># mset (ask_ids fs) \<Longrightarrow> mset (reply_pairs gs') + us' \<subseteq># mset (reply_pairs gs) + us \<Longrightarrow>
    tokens fs' gs' us' \<subseteq># tokens fs gs us"
  unfolding tokens_def by (rule subset_mset.add_mono; rule image_mset_subseteq_mono)

lemma tokens_simps [simp]:
  "tokens (InCreate cid # fs) gs us = add_mset (cid, None) (tokens fs gs us)"
  "tokens fs (DnReply cid code # gs) us = add_mset (cid, Some code) (tokens fs gs us)"
  "tokens fs gs (add_mset (cid, code) us) = add_mset (cid, Some code) (tokens fs gs us)"
  by (simp_all add: tokens_def)

text \<open>The calls of the client and the channels of the server, \<open>h\<close>.\<close>

definition calls_ok :: "client_transport \<Rightarrow> (nat \<Rightarrow> 64 word option) \<Rightarrow> bool" where
  "calls_ok c h \<longleftrightarrow>
     (\<forall>n < length (ct_calls c). ct_calls c ! n = CallSend \<longrightarrow> key_waits c (call_id n))
     \<and> (\<forall>i \<in> ran h. \<exists>n. i = call_id n \<and> past_send c n)
     \<and> (\<forall>a b i. h a = Some i \<and> h b = Some i \<longrightarrow> a = b)
     \<and> ran (chan_ids (ct_heap c)) \<subseteq> ran h"

lemma token_ok_keeps: "token_ok c h i r \<Longrightarrow> client_keeps c c' \<Longrightarrow> token_ok c' h i r"
  by (auto simp: token_ok_def client_keeps_def)

lemma calls_ok_keeps: "calls_ok c h \<Longrightarrow> client_keeps c c' \<Longrightarrow> calls_ok c' h"
  unfolding calls_ok_def client_keeps_def by metis

section \<open>The invariant of the system\<close>

definition up_conn :: "link \<Rightarrow> peer_frame list \<Rightarrow> bool" where
  "up_conn l = conn frame_bytes up_ok (st_in (lk_s l)) (server_live (lk_s l)) (server_debt (lk_s l))
     (lk_up_cut l) (lk_cw l) (ct_base (lk_c l))"

definition down_conn :: "link \<Rightarrow> down_frame list \<Rightarrow> bool" where
  "down_conn l = conn down_bytes down_ok (ct_in (lk_c l)) (client_live (lk_c l)) (client_debt (lk_c l))
     (lk_down_cut l) (lk_sw l) (st_base (lk_s l))"

definition server_ids :: "link \<Rightarrow> nat \<Rightarrow> 64 word option" where
  "server_ids l = chan_ids (st_heap (lk_s l))"

definition parts_ok :: "server_options \<Rightarrow> nat \<Rightarrow> nat \<Rightarrow> link \<Rightarrow> bool" where
  "parts_ok opts csz ssz l \<longleftrightarrow>
     server_inv opts (lk_s l) \<and> client_inv (lk_c l) \<and> replies_wf (lk_s l) \<and> none_late (lk_c l)
     \<and> (csz = 0 \<longrightarrow> snd (ws_buf (lk_cw l)) = []) \<and> (ssz = 0 \<longrightarrow> snd (ws_buf (lk_sw l)) = [])
     \<and> (ct_pc (lk_c l) = CPanic \<longrightarrow> (\<exists>n. ct_cancelled (lk_c l) n))"

definition link_inv :: "server_options \<Rightarrow> nat \<Rightarrow> nat \<Rightarrow> link \<Rightarrow> peer_frame list \<Rightarrow> down_frame list \<Rightarrow> bool" where
  "link_inv opts csz ssz l fs gs \<longleftrightarrow>
     parts_ok opts csz ssz l \<and> calls_ok (lk_c l) (server_ids l) \<and> up_conn l fs \<and> down_conn l gs
     \<and> tokens_ok (lk_c l) (server_ids l) (tokens fs gs (unsent (lk_s l)))"

lemma link_inv_start: "link_inv opts csz ssz (link_start opts window) [] []"
  by (simp add: link_inv_def parts_ok_def link_start_def server_inv_start replies_wf_def waiting_def newServerTransport_def
      new_base_transport_def none_late_def start_client_def write_start_def calls_ok_def up_conn_def down_conn_def conn_def
      server_live_def client_live_def server_debt_def client_debt_def tokens_ok_def tokens_def server_ids_def chan_ids_def
      ran_def client_inv_def core_inv_def place_inv_def table_ok_def ct_chans_def server_inv_def Let_def base_ok_def)

text \<open>Moves of the client.\<close>

lemma up_conn_client:
  assumes "up_conn l fs" "bt_ch (ct_base c') = bt_ch (ct_base (lk_c l)) @ map frame_bytes new" "\<forall>f \<in> set new. up_ok f"
  obtains fs' where "up_conn (l\<lparr>lk_c := c'\<rparr>) fs'" "fs' = fs \<or> fs' = fs @ new"
  using conn_queue [OF assms(1) [unfolded up_conn_def] assms(2,3)] that
  unfolding up_conn_def by auto

lemma parts_client:
  assumes "parts_ok opts csz ssz l" "client_inv c'" "none_late c'" "ct_pc c' = CPanic \<Longrightarrow> \<exists>n. ct_cancelled c' n"
  shows "parts_ok opts csz ssz (l\<lparr>lk_c := c'\<rparr>)"
  using assms by (simp add: parts_ok_def)

lemma tokens_ok_keeps: "tokens_ok c h T \<Longrightarrow> client_keeps c c' \<Longrightarrow> tokens_ok c' h T"
  by (blast intro: tokens_ok_cong token_ok_keeps)

lemma link_client_quiet:
  assumes "link_inv opts csz ssz l fs gs" "client_quiet (lk_c l) c'" "client_inv c'" "ct_pc c' = CPanic \<Longrightarrow> \<exists>n. ct_cancelled c' n"
    "down_conn (l\<lparr>lk_c := c'\<rparr>) gs'" "mset (reply_pairs gs') \<subseteq># mset (reply_pairs gs)"
  shows "\<exists>fs' gs'. link_inv opts csz ssz (l\<lparr>lk_c := c'\<rparr>) fs' gs'"
proof -
  obtain new where k: "client_keeps (lk_c l) c'" and new: "client_queues (lk_c l) c' new"
    using assms(2) by (auto simp: client_quiet_def)
  obtain fs' where fs: "up_conn (l\<lparr>lk_c := c'\<rparr>) fs'" "fs' = fs \<or> fs' = fs @ new"
    using up_conn_client [of l fs c' new] assms(1) new unfolding link_inv_def client_queues_def by blast
  have "ask_ids fs' = ask_ids fs" using fs(2) new by (auto simp: client_queues_def)
  then have "tokens fs' gs' (unsent (lk_s l)) \<subseteq># tokens fs gs (unsent (lk_s l))"
    using assms(6) by (intro tokens_mono) simp_all
  then have "tokens_ok c' (server_ids l) (tokens fs' gs' (unsent (lk_s l)))"
    using assms(1) k by (auto simp: link_inv_def intro: tokens_ok_keeps tokens_ok_mono)
  moreover have "parts_ok opts csz ssz (l\<lparr>lk_c := c'\<rparr>)"
    using assms(1,3,4) new by (intro parts_client) (auto simp: link_inv_def client_queues_def)
  ultimately have "link_inv opts csz ssz (l\<lparr>lk_c := c'\<rparr>) fs' gs'"
    using assms(1,5) fs(1) k calls_ok_keeps by (auto simp: link_inv_def server_ids_def)
  then show ?thesis by blast
qed

lemma past_send_inj:
  "past_send c n \<Longrightarrow> m < length (ct_calls c) \<Longrightarrow> \<not> past_send c m \<Longrightarrow> length (ct_calls c) < 2 ^ 64 \<Longrightarrow> call_id m \<noteq> call_id n"
  using call_id_inj [of n m] by (auto simp: past_send_def)

lemma link_client_sends:
  assumes inv: "link_inv opts csz ssz l fs gs" and s: "client_sends (lk_c l) c' n" and "client_inv c'"
    and pc: "ct_pc c' = ct_pc (lk_c l)" "ct_in c' = ct_in (lk_c l)" and len: "length (ct_calls (lk_c l)) < 2 ^ 64"
  shows "\<exists>fs' gs'. link_inv opts csz ssz (l\<lparr>lk_c := c'\<rparr>) fs' gs'"
proof -
  let ?c = "lk_c l" let ?h = "server_ids l" let ?us = "unsent (lk_s l)"
  have n: "n < length (ct_calls ?c)" "ct_calls ?c ! n = CallSend"
    and c': "ct_keys c' = ct_keys ?c" "ct_heap c' = ct_heap ?c" "ct_calls c' = (ct_calls ?c)[n := CallWait]"
      "bt_ch (ct_base c') = bt_ch (ct_base ?c) @ map frame_bytes [InCreate (call_id n)]"
      "bt_late (ct_base c') = bt_late (ct_base ?c)" "ct_cancelled c' = ct_cancelled ?c"
    using s by (auto simp: client_sends_def)
  have calls: "calls_ok ?c ?h" and toks: "tokens_ok ?c ?h (tokens fs gs ?us)" using inv by (simp_all add: link_inv_def)
  have k: "client_keeps ?c c'"
    using n by (auto simp: client_keeps_def key_waits_def past_send_def c' nth_list_update split: if_splits)
  have new_id: "call_id m \<noteq> call_id n" if "past_send ?c m" for m
    using past_send_inj [OF that n(1)] n(2) len by (auto simp: past_send_def)
  have fresh: "call_id n \<notin># image_mset fst (tokens fs gs ?us)"
    using toks new_id by (fastforce simp: tokens_ok_def token_ok_def)
  have "call_id n \<notin> ran ?h" using calls new_id unfolding calls_ok_def by metis
  moreover have "past_send c' n" using n(1) by (simp add: past_send_def c')
  moreover have "key_waits c' (call_id n)" using calls n by (simp add: calls_ok_def key_waits_def c')
  ultimately have "token_ok c' ?h (call_id n) None" by (auto simp: token_ok_def)
  then have more: "tokens_ok c' ?h (add_mset (call_id n, None) (tokens fs gs ?us))"
    using fresh tokens_ok_keeps [OF toks k] by (simp add: tokens_ok_add)
  obtain fs' where fs: "up_conn (l\<lparr>lk_c := c'\<rparr>) fs'" "fs' = fs \<or> fs' = fs @ [InCreate (call_id n)]"
    using up_conn_client [OF _ c'(4), of fs] inv unfolding link_inv_def by auto
  have "tokens fs' gs ?us \<subseteq># add_mset (call_id n, None) (tokens fs gs ?us)"
    using fs(2) by (auto simp: tokens_def)
  then have "tokens_ok c' ?h (tokens fs' gs ?us)" using more by (rule tokens_ok_mono [rotated])
  moreover have "down_conn (l\<lparr>lk_c := c'\<rparr>) gs"
    using inv pc by (simp add: link_inv_def down_conn_def client_live_def client_debt_def)
  moreover have "parts_ok opts csz ssz (l\<lparr>lk_c := c'\<rparr>)"
    using inv assms(3) pc(1) c' by (intro parts_client) (auto simp: link_inv_def parts_ok_def none_late_def)
  ultimately have "link_inv opts csz ssz (l\<lparr>lk_c := c'\<rparr>) fs' gs"
    using fs(1) calls_ok_keeps [OF calls k] by (simp add: link_inv_def server_ids_def)
  then show ?thesis by blast
qed


text \<open>A reply that the client reads.\<close>

lemma create_cmd_keeps:
  assumes "calls_ok c h" "token_ok c h cid (Some code)" "core_inv c" "length (ct_calls c) < 2 ^ 64"
    and c': "c' = ct_create_cmd c cid code"
  shows "calls_ok c' h" "token_ok c h i r \<Longrightarrow> i \<noteq> cid \<Longrightarrow> token_ok c' h i r"
    "ct_pc c' = CPanic \<Longrightarrow> ct_pc c \<noteq> CPanic \<Longrightarrow> \<exists>n. ct_cancelled c' n"
    "ct_base c' = ct_base c" "ct_in c' = ct_in c"
    "ct_pc c' = CPanic \<or> ct_pc c' = CSendClose cid \<or> (\<exists>n v. ct_pc c' = CResult n code v)"
proof -
  have calls: "ct_calls c' = ct_calls c" and base: "ct_base c' = ct_base c" "ct_in c' = ct_in c"
    by (auto simp: c' ct_create_cmd_def split: option.split)
  have keys: "ct_keys c' i = ct_keys c i" if "i \<noteq> cid" for i
    using that by (auto simp: c' ct_create_cmd_def split: option.split)
  obtain m where m: "cid = call_id m" "past_send c m" using assms(2) by (auto simp: token_ok_def)
  have other: "call_id n \<noteq> cid" if "n < length (ct_calls c)" "ct_calls c ! n = CallSend" for n
    using past_send_inj [OF m(2) that(1) _ assms(4)] that(2) m(1) by (auto simp: past_send_def)
  have none: "kc_rw k \<noteq> None \<and> kc_channel k = None" if "ct_keys c cid = Some k" for k
    using that assms(2,3) unfolding token_ok_def key_waits_def core_inv_def by blast
  have heap: "ran (chan_ids (ct_heap c')) \<subseteq> ran h"
  proof (cases "ct_heap c' = ct_heap c")
    case False
    then obtain k n where k: "ct_keys c cid = Some k" "code = 0"
        "ct_heap c' = (ct_heap c)(ct_next c \<mapsto> newIOChannel cid (unat (ct_window c)) (unat (bt_window (ct_base c))))"
      using none by (auto simp: c' ct_create_cmd_def split: option.splits if_splits)
    then have "chan_ids (ct_heap c') = (chan_ids (ct_heap c))(ct_next c \<mapsto> cid)"
      by (auto simp: chan_ids_def fun_eq_iff)
    moreover have "cid \<in> ran h" using assms(2) k(2) by (simp add: token_ok_def)
    ultimately show ?thesis using assms(1) by (auto simp: calls_ok_def ran_def split: if_splits)
  qed (use assms(1) in \<open>simp add: calls_ok_def\<close>)
  have "key_waits c' (call_id n)" if "n < length (ct_calls c)" "ct_calls c ! n = CallSend" for n
    using assms(1) that keys [OF other [OF that]] by (simp add: calls_ok_def key_waits_def)
  then show "calls_ok c' h" using assms(1) heap calls by (simp add: calls_ok_def past_send_def)
  show "token_ok c' h i r" if "token_ok c h i r" "i \<noteq> cid" for i r
    using that keys calls by (simp add: token_ok_def key_waits_def past_send_def)
  show "\<exists>n. ct_cancelled c' n" if "ct_pc c' = CPanic" "ct_pc c \<noteq> CPanic"
    using that none by (auto simp: c' ct_create_cmd_def split: option.splits if_splits)
  show "ct_pc c' = CPanic \<or> ct_pc c' = CSendClose cid \<or> (\<exists>n v. ct_pc c' = CResult n code v)"
    by (auto simp: c' ct_create_cmd_def split: option.split)
qed (auto simp: c' ct_create_cmd_def split: option.split)

lemma link_client_reply:
  assumes inv: "link_inv opts csz ssz l fs (DnReply cid code # gs)"
    and c': "c' = ct_create_cmd ((lk_c l)\<lparr>ct_in := x\<rparr>) cid code" and "ct_pc (lk_c l) = CCmd" "client_inv c'"
    and str: "stream down_bytes x (if \<not> lk_down_cut l \<and> ws_pc (lk_sw l) \<noteq> WExit
         then snd (ws_buf (lk_sw l)) @ concat (bt_ch (st_base (lk_s l))) else [])
         (\<not> lk_down_cut l \<and> ws_pc (lk_sw l) \<noteq> WExit) 0 gs"
    and len: "length (ct_calls (lk_c l)) < 2 ^ 64"
  shows "\<exists>fs' gs'. link_inv opts csz ssz (l\<lparr>lk_c := c'\<rparr>) fs' gs'"
proof -
  let ?c = "(lk_c l)\<lparr>ct_in := x\<rparr>" let ?h = "server_ids l" let ?us = "unsent (lk_s l)"
  have same: "calls_ok ?c h = calls_ok (lk_c l) h" "token_ok ?c h i r = token_ok (lk_c l) h i r" for h i r
    by (simp_all add: calls_ok_def token_ok_def key_waits_def past_send_def)
  have toks: "tokens_ok (lk_c l) ?h (add_mset (cid, Some code) (tokens fs gs ?us))"
    using inv by (simp add: link_inv_def)
  then have "token_ok ?c ?h cid (Some code)" by (simp add: tokens_ok_add same)
  moreover have "calls_ok ?c ?h" using inv by (simp add: link_inv_def same)
  moreover have "core_inv ?c" using inv by (simp add: link_inv_def parts_ok_def client_inv_def)
  ultimately have
    k: "calls_ok c' ?h" "\<And>i r. token_ok ?c ?h i r \<Longrightarrow> i \<noteq> cid \<Longrightarrow> token_ok c' ?h i r"
      "ct_pc c' = CPanic \<Longrightarrow> \<exists>n. ct_cancelled c' n" "ct_base c' = ct_base (lk_c l)" "ct_in c' = x"
      "ct_pc c' = CPanic \<or> ct_pc c' = CSendClose cid \<or> (\<exists>n v. ct_pc c' = CResult n code v)"
    using create_cmd_keeps [OF _ _ _ _ c', of ?h] len assms(3) by simp_all
  have "cid \<notin># image_mset fst (tokens fs gs ?us)" and old: "tokens_ok (lk_c l) ?h (tokens fs gs ?us)"
    using toks by (simp_all add: tokens_ok_add)
  then have ne: "i \<noteq> cid" if "(i, r) \<in># tokens fs gs ?us" for i r
    using that by force
  have "tokens_ok c' ?h (tokens fs gs ?us)"
    by (rule tokens_ok_cong [OF old]) (use k(2) ne same in blast)
  moreover define gs' where "gs' = (if client_live c' then gs else [])"
  moreover have "tokens fs gs' ?us \<subseteq># tokens fs gs ?us" by (intro tokens_mono) (auto simp: gs'_def)
  ultimately have "tokens_ok c' ?h (tokens fs gs' ?us)" using tokens_ok_mono by blast
  moreover have "\<forall>g \<in> set gs. down_ok g" using inv conn_ok by (fastforce simp: link_inv_def down_conn_def)
  then have "down_conn (l\<lparr>lk_c := c'\<rparr>) gs'"
    using str k(5,6) by (auto simp: down_conn_def conn_def gs'_def client_debt_def client_live_def Let_def)
  moreover have "up_conn (l\<lparr>lk_c := c'\<rparr>) fs" using inv k(4) by (simp add: link_inv_def up_conn_def)
  moreover have "parts_ok opts csz ssz (l\<lparr>lk_c := c'\<rparr>)"
    using inv k(3,4) assms(4) by (intro parts_client) (auto simp: link_inv_def parts_ok_def none_late_def)
  ultimately have "link_inv opts csz ssz (l\<lparr>lk_c := c'\<rparr>) fs gs'"
    using k(1) by (simp add: link_inv_def server_ids_def)
  then show ?thesis by blast
qed

lemma link_client_turn:
  assumes inv: "link_inv opts csz ssz l fs gs" and t: "c' \<in> set (ct_turn (lk_c l))"
    and len: "length (ct_calls (lk_c l)) < 2 ^ 64"
  shows "\<exists>fs' gs'. link_inv opts csz ssz (l\<lparr>lk_c := c'\<rparr>) fs' gs'"
proof -
  let ?w = "\<not> lk_down_cut l \<and> ws_pc (lk_sw l) \<noteq> WExit"
  let ?rest = "if ?w then snd (ws_buf (lk_sw l)) @ concat (bt_ch (st_base (lk_s l))) else []"
  have wf: "none_late (lk_c l)" and ci: "client_inv c'"
    using inv t client_step_inv [OF cs_turn [OF t]] by (auto simp: link_inv_def parts_ok_def)
  have dn: "\<forall>g \<in> set gs. down_ok g" "client_live (lk_c l) \<Longrightarrow> stream down_bytes (ct_in (lk_c l)) ?rest ?w (client_debt (lk_c l)) gs"
    using inv by (auto simp: link_inv_def down_conn_def conn_def Let_def split: if_splits)
  from client_turn_turned [OF t wf dn] consider
      (dead) "\<not> client_live c'" "ct_pc c' \<noteq> CPanic" "client_quiet (lk_c l) c'"
    | (live) gs' where "client_live c'" "client_quiet (lk_c l) c'" "stream down_bytes (ct_in c') ?rest ?w (client_debt c') gs'"
        "gs' = gs \<or> (\<exists>g. gs = g # gs' \<and> reply_pairs [g] = [])"
    | (reply) cid code x gs' where "gs = DnReply cid code # gs'" "c' = ct_create_cmd ((lk_c l)\<lparr>ct_in := x\<rparr>) cid code"
        "ct_pc (lk_c l) = CCmd" "stream down_bytes x ?rest ?w 0 gs'"
    unfolding client_turned_def by blast
  then show ?thesis
  proof cases
    case dead
    then show ?thesis using link_client_quiet [OF inv dead(3) ci, of "[]"] by (simp add: down_conn_def)
  next
    case live
    have "reply_pairs gs' = reply_pairs gs"
      using live(4) reply_pairs_append [of "[_]" gs'] by fastforce
    moreover have "down_conn (l\<lparr>lk_c := c'\<rparr>) gs'"
      using live dn(1) by (auto simp: down_conn_def conn_def Let_def)
    ultimately show ?thesis
      using link_client_quiet [OF inv live(2) ci, of gs'] live(1) by (simp add: client_live_def)
  next
    case reply
    then show ?thesis using link_client_reply [OF _ reply(2,3) ci reply(4) len] inv by simp
  qed
qed


text \<open>Moves of the server.\<close>

lemma down_conn_server:
  assumes "down_conn l gs" "bt_ch (st_base s') = bt_ch (st_base (lk_s l)) @ map down_bytes new" "\<forall>g \<in> set new. down_ok g"
  obtains gs' where "down_conn (l\<lparr>lk_s := s'\<rparr>) gs'" "gs' = gs \<or> gs' = gs @ new"
  using conn_queue [OF assms(1) [unfolded down_conn_def] assms(2,3)] that
  unfolding down_conn_def by auto

lemma parts_server:
  "parts_ok opts csz ssz l \<Longrightarrow> server_inv opts s' \<Longrightarrow> replies_wf s' \<Longrightarrow> parts_ok opts csz ssz (l\<lparr>lk_s := s'\<rparr>)"
  by (simp add: parts_ok_def)

lemma link_server_quiet:
  assumes inv: "link_inv opts csz ssz l fs gs" and q: "server_quiet (lk_s l) s' new" and "server_inv opts s'"
    and up: "up_conn (l\<lparr>lk_s := s'\<rparr>) fs'" "mset (ask_ids fs') \<subseteq># mset (ask_ids fs)"
  shows "\<exists>fs' gs'. link_inv opts csz ssz (l\<lparr>lk_s := s'\<rparr>) fs' gs'"
proof -
  obtain gs' where gs: "down_conn (l\<lparr>lk_s := s'\<rparr>) gs'" "gs' = gs \<or> gs' = gs @ new"
    using down_conn_server [of l gs s' new] inv q unfolding link_inv_def server_quiet_def by blast
  have un: "mset (reply_pairs new) + unsent s' \<subseteq># unsent (lk_s l)" using q by (simp add: server_quiet_def)
  then have "unsent s' \<subseteq># unsent (lk_s l)" using mset_subset_eq_add_right subset_mset.order_trans by blast
  then have "mset (reply_pairs gs') + unsent s' \<subseteq># mset (reply_pairs gs) + unsent (lk_s l)"
    using gs(2) un by (auto simp: add.assoc)
  then have "tokens fs' gs' (unsent s') \<subseteq># tokens fs gs (unsent (lk_s l))" using up(2) by (intro tokens_mono)
  moreover have ids: "server_ids (l\<lparr>lk_s := s'\<rparr>) = server_ids l" using q by (simp add: server_ids_def server_quiet_def)
  moreover have "parts_ok opts csz ssz (l\<lparr>lk_s := s'\<rparr>)"
    using inv assms(3) q by (intro parts_server) (auto simp: link_inv_def server_quiet_def)
  ultimately have "link_inv opts csz ssz (l\<lparr>lk_s := s'\<rparr>) fs' gs'"
    using inv up(1) gs(1) by (auto simp: link_inv_def intro: tokens_ok_mono)
  then show ?thesis by blast
qed

lemma calls_ok_new_channel:
  assumes "calls_ok c h" "token_ok c h i None" "h a = None"
  shows "calls_ok c (h(a \<mapsto> i))"
proof -
  have r: "ran (h(a \<mapsto> i)) = insert i (ran h)" using assms(3) by simp
  have i: "i \<notin> ran h" using assms(2) by (simp add: token_ok_def)
  have "x = y" if "(h(a \<mapsto> i)) x = Some j" "(h(a \<mapsto> i)) y = Some j" for x y j
  proof (cases "j = i")
    case True
    have "h x \<noteq> Some i" "h y \<noteq> Some i" using i by (auto simp: ran_def)
    then show ?thesis using that True by (simp split: if_splits)
  next
    case False
    then have "h x = Some j" "h y = Some j" using that by (simp_all split: if_splits)
    then show ?thesis using assms(1) unfolding calls_ok_def by blast
  qed
  moreover have "\<exists>n. i = call_id n \<and> past_send c n" using assms(2) by (simp add: token_ok_def)
  ultimately show ?thesis using assms(1) unfolding calls_ok_def r by blast
qed

lemma link_server_answers:
  assumes inv: "link_inv opts csz ssz l (InCreate cid # fs) gs" and a: "server_answers (lk_s l) s' cid code"
    and si: "server_inv opts s'" and up: "up_conn (l\<lparr>lk_s := s'\<rparr>) fs"
  shows "\<exists>fs' gs'. link_inv opts csz ssz (l\<lparr>lk_s := s'\<rparr>) fs' gs'"
proof -
  let ?c = "lk_c l" let ?h = "server_ids l" let ?l = "l\<lparr>lk_s := s'\<rparr>" let ?us = "unsent (lk_s l)"
  have tab: "table_ok (st_keys (lk_s l)) (st_heap (lk_s l)) (st_next (lk_s l))"
    using inv by (simp add: link_inv_def parts_ok_def server_inv_def)
  have toks: "cid \<notin># image_mset fst (tokens fs gs ?us)" "token_ok ?c ?h cid None" "tokens_ok ?c ?h (tokens fs gs ?us)"
    and calls: "calls_ok ?c ?h" using inv by (simp_all add: link_inv_def tokens_ok_add)
  have new: "cid \<notin> ran ?h" using toks(2) by (simp add: token_ok_def)
  have "code \<noteq> 1"
  proof
    assume "code = 1"
    then obtain x where "st_keys (lk_s l) cid = Some x" using a by (auto simp: server_answers_def)
    then obtain ch where "st_heap (lk_s l) x = Some ch" "c_id ch = cid" using table_okE [OF tab] by blast
    then have "?h x = Some cid" by (simp add: server_ids_def chan_ids_def)
    then show False using new by (blast intro: ranI)
  qed
  then have c: "code = 0 \<and> server_ids ?l = ?h(st_next (lk_s l) \<mapsto> cid) \<or> code = 2 \<and> server_ids ?l = ?h"
    using a by (auto simp: server_answers_def server_ids_def)
  have fresh: "?h (st_next (lk_s l)) = None" using table_ok_fresh [OF tab] by (simp add: server_ids_def chan_ids_def)
  then have ran: "ran (?h(st_next (lk_s l) \<mapsto> cid)) = insert cid (ran ?h)" by simp
  have "ran (server_ids ?l) = insert cid (ran ?h) \<or> ran (server_ids ?l) = ran ?h" using c ran by metis
  then have grow: "ran ?h \<subseteq> ran (server_ids ?l)" "ran (server_ids ?l) \<subseteq> insert cid (ran ?h)" by blast+
  have calls': "calls_ok ?c (server_ids ?l)" using c calls calls_ok_new_channel [OF calls toks(2) fresh] by metis
  have "code \<in> {0, 2}" using c by blast
  moreover have "code = 0 \<longrightarrow> cid \<in> ran (server_ids ?l)" proof
    assume "code = 0"
    then have "ran (server_ids ?l) = insert cid (ran ?h)" using c ran by auto
    then show "cid \<in> ran (server_ids ?l)" by blast
  qed
  ultimately have "token_ok ?c (server_ids ?l) cid (Some code)" using toks(2) by (simp add: token_ok_def)
  moreover have "token_ok ?c (server_ids ?l) i r" if "(i, r) \<in># tokens fs gs ?us" "token_ok ?c ?h i r" for i r
  proof -
    have "i \<noteq> cid" using toks(1) that(1) by force
    then show ?thesis using that(2) grow unfolding token_ok_def by (cases r) auto
  qed
  ultimately have "tokens_ok ?c (server_ids ?l) (tokens fs gs (unsent s'))"
    using a toks(1) tokens_ok_cong [OF toks(3)] by (simp add: server_answers_def tokens_ok_add)
  moreover have "down_conn ?l gs"
    using down_conn_server [of l gs s' "[]"] inv a by (auto simp: link_inv_def server_answers_def)
  moreover have "parts_ok opts csz ssz ?l"
    using inv si a by (intro parts_server) (auto simp: link_inv_def server_answers_def)
  ultimately have "link_inv opts csz ssz ?l fs gs" using up calls' by (simp add: link_inv_def)
  then show ?thesis by blast
qed

lemma link_server_turn:
  assumes inv: "link_inv opts csz ssz l fs gs" and t: "s' \<in> set (st_turn opts (lk_s l))"
  shows "\<exists>fs' gs'. link_inv opts csz ssz (l\<lparr>lk_s := s'\<rparr>) fs' gs'"
proof -
  let ?w = "\<not> lk_up_cut l \<and> ws_pc (lk_cw l) \<noteq> WExit"
  let ?rest = "if ?w then snd (ws_buf (lk_cw l)) @ concat (bt_ch (ct_base (lk_c l))) else []"
  have wf: "replies_wf (lk_s l)" and si: "server_inv opts s'"
    using inv st_turn_inv [OF _ t] by (auto simp: link_inv_def parts_ok_def)
  have up: "\<forall>f \<in> set fs. up_ok f" "server_live (lk_s l) \<Longrightarrow> stream frame_bytes (st_in (lk_s l)) ?rest ?w (server_debt (lk_s l)) fs"
    using inv by (auto simp: link_inv_def up_conn_def conn_def Let_def split: if_splits)
  from server_turn_turned [OF t wf up] consider
      (dead) new where "\<not> server_live s'" "server_quiet (lk_s l) s' new"
    | (live) fs' new where "server_live s'" "server_quiet (lk_s l) s' new" "stream frame_bytes (st_in s') ?rest ?w (server_debt s') fs'"
        "fs' = fs \<or> (\<exists>f. fs = f # fs' \<and> ask_ids [f] = [])"
    | (ask) cid code fs' where "server_live s'" "fs = InCreate cid # fs'" "stream frame_bytes (st_in s') ?rest ?w (server_debt s') fs'"
        "server_answers (lk_s l) s' cid code"
    unfolding server_turned_def by blast
  then show ?thesis
  proof cases
    case dead
    then show ?thesis using link_server_quiet [OF inv dead(2) si, of "[]"] by (simp add: up_conn_def)
  next
    case live
    have "ask_ids fs' = ask_ids fs"
      using live(4) ask_ids_append [of "[_]" fs'] by fastforce
    moreover have "up_conn (l\<lparr>lk_s := s'\<rparr>) fs'"
      using live up(1) by (auto simp: up_conn_def conn_def Let_def)
    ultimately show ?thesis using link_server_quiet [OF inv live(2) si, of fs'] by simp
  next
    case ask
    have "up_conn (l\<lparr>lk_s := s'\<rparr>) fs'"
      using ask up(1) by (auto simp: up_conn_def conn_def Let_def)
    then show ?thesis using link_server_answers [OF _ ask(4) si] inv ask(2) by simp
  qed
qed

text \<open>The writers and the breaks.\<close>

lemma client_inv_base:
  "client_inv c \<Longrightarrow> base_ok b \<Longrightarrow> bt_conn_closed (ct_base c) \<longrightarrow> bt_conn_closed b \<Longrightarrow> client_inv (c\<lparr>ct_base := b\<rparr>)"
  by (auto simp: client_inv_def place_inv_def intro: core_inv_base split: client_pc.splits)

lemma tokens_ok_in [simp]:
  "tokens_ok (c\<lparr>ct_in := r\<rparr>) h T = tokens_ok c h T" "tokens_ok (c\<lparr>ct_base := b\<rparr>) h T = tokens_ok c h T"
  "calls_ok (c\<lparr>ct_in := r\<rparr>) h = calls_ok c h" "calls_ok (c\<lparr>ct_base := b\<rparr>) h = calls_ok c h"
  by (simp_all add: tokens_ok_def calls_ok_def token_ok_def key_waits_def past_send_def)

lemma waiting_base [simp]: "bt_late b = bt_late (st_base s) \<Longrightarrow> waiting (s\<lparr>st_base := b\<rparr>) = waiting s"
  by (simp add: waiting_def)

lemma client_inv_in [simp]: "client_inv (c\<lparr>ct_in := r\<rparr>) = client_inv c"
  by (simp add: client_inv_def place_inv_def split: client_pc.split)

lemma server_inv_in [simp]: "server_inv opts (s\<lparr>st_in := r\<rparr>) = server_inv opts s"
  by (simp add: server_inv_def)

lemma server_inv_conn:
  "server_inv opts s \<Longrightarrow> base_ok b \<Longrightarrow> bt_conn_closed (st_base s) \<longrightarrow> bt_conn_closed b \<Longrightarrow> server_inv opts (s\<lparr>st_base := b\<rparr>)"
  by (auto simp: server_inv_def)

lemma place_simps [simp]:
  "server_live (s\<lparr>st_in := r\<rparr>) = server_live s" "server_debt (s\<lparr>st_in := r\<rparr>) = server_debt s"
  "server_live (s\<lparr>st_base := b\<rparr>) = server_live s" "server_debt (s\<lparr>st_base := b\<rparr>) = server_debt s"
  "client_live (c\<lparr>ct_in := r\<rparr>) = client_live c" "client_debt (c\<lparr>ct_in := r\<rparr>) = client_debt c"
  "client_live (c\<lparr>ct_base := b\<rparr>) = client_live c" "client_debt (c\<lparr>ct_base := b\<rparr>) = client_debt c"
  by (simp_all add: server_live_def server_debt_def client_live_def client_debt_def)

lemma link_client_write:
  assumes inv: "link_inv opts csz ssz l fs gs" and st: "write_step csz (ct_base (lk_c l), lk_cw l) (b', w')"
  shows "link_inv opts csz ssz (l\<lparr>lk_c := (lk_c l)\<lparr>ct_base := b'\<rparr>, lk_cw := w',
    lk_s := (lk_s l)\<lparr>st_in := st_in (lk_s l) @ (if lk_up_cut l then [] else written (lk_cw l) w')\<rparr>\<rparr>) fs gs"
proof -
  have p: "parts_ok opts csz ssz l" using inv by (simp add: link_inv_def)
  then have buf: "csz = 0 \<longrightarrow> snd (ws_buf (lk_cw l)) = []" by (simp add: parts_ok_def)
  note ws = written_step [OF st buf]
  have "base_ok (ct_base (lk_c l))" using p core_inv_base_ok by (auto simp: parts_ok_def client_inv_def)
  then have "base_ok b'" "bt_conn_closed (ct_base (lk_c l)) \<longrightarrow> bt_conn_closed b'" using ws by (auto simp: base_ok_def)
  then show ?thesis
    using inv ws conn_write [OF st buf, of frame_bytes up_ok] client_inv_base
    by (auto simp: link_inv_def parts_ok_def up_conn_def down_conn_def server_ids_def replies_wf_def none_late_def)
qed

lemma link_server_write:
  assumes inv: "link_inv opts csz ssz l fs gs" and st: "write_step ssz (st_base (lk_s l), lk_sw l) (b', w')"
  shows "link_inv opts csz ssz (l\<lparr>lk_s := (lk_s l)\<lparr>st_base := b'\<rparr>, lk_sw := w',
    lk_c := (lk_c l)\<lparr>ct_in := ct_in (lk_c l) @ (if lk_down_cut l then [] else written (lk_sw l) w')\<rparr>\<rparr>) fs gs"
proof -
  have p: "parts_ok opts csz ssz l" using inv by (simp add: link_inv_def)
  then have buf: "ssz = 0 \<longrightarrow> snd (ws_buf (lk_sw l)) = []" by (simp add: parts_ok_def)
  note ws = written_step [OF st buf]
  have "base_ok (st_base (lk_s l))" using p by (simp add: parts_ok_def server_inv_def)
  then have "base_ok b'" "bt_conn_closed (st_base (lk_s l)) \<longrightarrow> bt_conn_closed b'" using ws by (auto simp: base_ok_def)
  then show ?thesis
    using inv ws conn_write [OF st buf, of down_bytes down_ok] server_inv_conn
    by (auto simp: link_inv_def parts_ok_def up_conn_def down_conn_def server_ids_def replies_wf_def none_late_def)
qed

lemma link_breaks:
  assumes inv: "link_inv opts csz ssz l fs gs"
  shows "link_inv opts csz ssz (l\<lparr>lk_up_cut := True, lk_s := (lk_s l)\<lparr>st_in := take k (st_in (lk_s l))\<rparr>\<rparr>) fs gs"
    "link_inv opts csz ssz (l\<lparr>lk_down_cut := True, lk_c := (lk_c l)\<lparr>ct_in := take k (ct_in (lk_c l))\<rparr>\<rparr>) fs gs"
proof -
  have up: "up_conn l fs" and dn: "down_conn l gs" using inv by (simp_all add: link_inv_def)
  have "up_conn (l\<lparr>lk_up_cut := True, lk_s := (lk_s l)\<lparr>st_in := take k (st_in (lk_s l))\<rparr>\<rparr>) fs"
    using conn_cut [OF up [unfolded up_conn_def]] by (simp add: up_conn_def)
  moreover have "down_conn (l\<lparr>lk_down_cut := True, lk_c := (lk_c l)\<lparr>ct_in := take k (ct_in (lk_c l))\<rparr>\<rparr>) gs"
    using conn_cut [OF dn [unfolded down_conn_def]] by (simp add: down_conn_def)
  ultimately show "link_inv opts csz ssz (l\<lparr>lk_up_cut := True, lk_s := (lk_s l)\<lparr>st_in := take k (st_in (lk_s l))\<rparr>\<rparr>) fs gs"
    "link_inv opts csz ssz (l\<lparr>lk_down_cut := True, lk_c := (lk_c l)\<lparr>ct_in := take k (ct_in (lk_c l))\<rparr>\<rparr>) fs gs"
    using inv by (simp_all add: link_inv_def parts_ok_def up_conn_def down_conn_def server_ids_def replies_wf_def none_late_def)
qed


section \<open>Every run keeps it\<close>

lemma ct_cmd_calls [simp]:
  "ct_calls (ct_create_cmd c cid code) = ct_calls c" "ct_calls (ct_close_cmd c cid) = ct_calls c"
  "ct_calls (ct_write_pass c cid sz mx) = ct_calls c"
  by (auto simp: ct_create_cmd_def ct_close_cmd_def ct_write_pass_def Let_def split: prod.splits option.splits if_splits)

lemma ct_confirm_calls: "c' \<in> set (ct_confirm c cid v) \<Longrightarrow> ct_calls c' = ct_calls c"
  by (auto simp: ct_confirm_def split: prod.splits option.splits if_splits)

lemma ct_command_calls:
  assumes "c' \<in> set (ct_command c)"
  shows "ct_calls c' = ct_calls c"
proof -
  obtain b e r where 1: "ReadFull (Suc 0) (ct_in c) = (b, e, r)" by (cases "ReadFull (Suc 0) (ct_in c)")
  obtain b8 e8 r8 where 8: "ReadFull 8 r = (b8, e8, r8)" by (cases "ReadFull 8 r")
  obtain b9 e9 r9 where 9: "ReadFull 9 r = (b9, e9, r9)" by (cases "ReadFull 9 r")
  obtain b10 e10 r10 where 10: "ReadFull 10 r = (b10, e10, r10)" by (cases "ReadFull 10 r")
  show ?thesis
    using assms by (auto simp: ct_command_def Let_def 1 8 9 10 dest: ct_confirm_calls split: option.splits if_splits)
qed

lemma result_cases_calls: "(c', x) \<in> set (result_cases c n code v) \<Longrightarrow> length (ct_calls c') = length (ct_calls c)"
  by (auto simp: result_cases_def split: option.splits if_splits)

lemma ct_turn_calls: "c' \<in> set (ct_turn c) \<Longrightarrow> length (ct_calls c') = length (ct_calls c)"
  by (cases "ct_pc c")
    (auto simp: ct_turn_def ct_command_calls createResult_def Let_def dest!: result_cases_calls split: if_splits)

lemma late_result_calls: "c' \<in> set (late_result c i) \<Longrightarrow> length (ct_calls c') = length (ct_calls c)"
  by (erule late_resultE) (auto dest: result_cases_calls)

lemma client_local_calls: "client_local c c' \<Longrightarrow> length (ct_calls c) \<le> length (ct_calls c')"
  by (induction rule: client_local.induct)
    (auto simp: create_start_def create_register_def create_send_def create_give_up_def late_result_calls
      ct_send_closing_def ct_delete_def split: option.splits if_splits)

lemma link_step_calls: "link_step opts csz ssz l l' \<Longrightarrow> length (ct_calls (lk_c l)) \<le> length (ct_calls (lk_c l'))"
  by (induction rule: link_step.induct) (auto simp: ct_turn_calls client_local_calls)

lemma link_step_inv:
  assumes "link_step opts csz ssz l l'" "link_inv opts csz ssz l fs gs" "length (ct_calls (lk_c l)) < 2 ^ 64"
  shows "\<exists>fs' gs'. link_inv opts csz ssz l' fs' gs'"
  using assms
proof (induction rule: link_step.induct)
  case lk_client_turn then show ?case by (blast intro: link_client_turn)
next
  case (lk_client_local l c')
  have "none_late (lk_c l)" "client_inv (lk_c l)" using lk_client_local(3) by (simp_all add: link_inv_def parts_ok_def)
  then have e: "client_quiet (lk_c l) c' \<or> (\<exists>n. client_sends (lk_c l) c' n)" "ct_pc c' = ct_pc (lk_c l)"
      "ct_in c' = ct_in (lk_c l)" "client_inv c'"
    using client_local_effect [OF lk_client_local(2)] client_local_inv [OF lk_client_local(2)] by blast+
  have "down_conn (l\<lparr>lk_c := c'\<rparr>) gs"
    using lk_client_local(3) e(2,3) by (simp add: link_inv_def down_conn_def client_live_def client_debt_def)
  then show ?case
    using e lk_client_local link_client_quiet [OF lk_client_local(3) _ e(4), of gs] link_client_sends [OF lk_client_local(3) _ e(4,2,3)]
    by auto
next
  case lk_client_write then show ?case by (blast intro: link_client_write)
next
  case lk_server_turn then show ?case by (blast intro: link_server_turn)
next
  case (lk_server_local l s')
  have "replies_wf (lk_s l)" using lk_server_local(2) by (simp add: link_inv_def parts_ok_def)
  then obtain new where q: "server_quiet (lk_s l) s' new" "st_pc s' = st_pc (lk_s l)" "st_in s' = st_in (lk_s l)"
    using server_local_quiet [OF lk_server_local(1)] by blast
  have "server_inv opts s'" using lk_server_local server_local_inv by (auto simp: link_inv_def parts_ok_def)
  moreover have "up_conn (l\<lparr>lk_s := s'\<rparr>) fs"
    using lk_server_local(2) q(2,3) by (simp add: link_inv_def up_conn_def server_live_def server_debt_def)
  ultimately show ?case using link_server_quiet [OF lk_server_local(2) q(1), of fs] by simp
next
  case lk_server_write then show ?case by (blast intro: link_server_write)
next
  case lk_up_break then show ?case by (blast intro: link_breaks)
next
  case lk_down_break then show ?case by (blast intro: link_breaks)
qed

lemma link_reachable_inv:
  "link_reachable opts csz ssz window l \<Longrightarrow> length (ct_calls (lk_c l)) < 2 ^ 64 \<Longrightarrow>
    \<exists>fs gs. link_inv opts csz ssz l fs gs"
proof (induction rule: link_reachable.induct)
  case lr_start then show ?case using link_inv_start by blast
next
  case (lr_step l l')
  then show ?case using link_step_calls [OF lr_step(2)] link_step_inv by (meson le_less_trans)
qed

end
