(* ===== verification/LinkCalls.thy ===== *)
theory LinkCalls
  imports LinkSafety
begin

text \<open>
  What the invariant of a client and a server on one connection means for \<open>Create\<close>, with a run of one call
  that ends well, one that ends in a panic and one that does not end.
\<close>

section \<open>Runs\<close>

abbreviation link_run :: "server_options \<Rightarrow> nat \<Rightarrow> nat \<Rightarrow> link \<Rightarrow> link \<Rightarrow> bool" where
  "link_run opts csz ssz \<equiv> (link_step opts csz ssz)\<^sup>*\<^sup>*"

lemma run_two: "link_step opts csz ssz l l1 \<Longrightarrow> link_step opts csz ssz l1 l2 \<Longrightarrow> link_run opts csz ssz l l2"
  by (meson r_into_rtranclp rtranclp_trans)

lemma run_reachable:
  assumes "link_run opts csz ssz l l'" "link_reachable opts csz ssz window l"
  shows "link_reachable opts csz ssz window l'"
  using assms by (induction rule: rtranclp_induct) (auto intro: lr_step)

section \<open>Frames that go through\<close>

text \<open>A writer with one frame in its queue takes it and flushes it, whatever the size of its buffer.\<close>

lemma writer_passes:
  assumes "bt_ch t = [f]" "ws_pc w = WWait" "snd (ws_buf w) = []" "\<not> bt_done t"
  obtains w1 w2 where "write_step sz (t, w) (t\<lparr>bt_ch := []\<rparr>, w1)" "write_step sz (t\<lparr>bt_ch := []\<rparr>, w1) (t\<lparr>bt_ch := []\<rparr>, w2)"
    "written w w1 @ written w1 w2 = f" "ws_pc w2 = WWait" "ws_buf w2 = (fst (ws_buf w) @ f, [])"
proof -
  obtain out where out: "ws_buf w = (out, [])" using assms(3) by (cases "ws_buf w") simp
  define w1 where "w1 = w\<lparr>ws_buf := buf_Write sz (ws_buf w) f, ws_pc := WMerge\<rparr>"
  define w2 where "w2 = w1\<lparr>ws_buf := (if sz > 0 then buf_Flush (ws_buf w1) else ws_buf w1), ws_pc := WWait\<rparr>"
  have 1: "write_step sz (t, w) (t\<lparr>bt_ch := []\<rparr>, w1)"
    unfolding w1_def by (rule w_take) (simp_all add: assms(1,2))
  have 2: "write_step sz (t\<lparr>bt_ch := []\<rparr>, w1) (t\<lparr>bt_ch := []\<rparr>, w2)"
    unfolding w2_def by (rule w_flush) (simp_all add: w1_def assms(4))
  have "written w w1 @ written w1 w2 = f" "ws_buf w2 = (out @ f, [])"
    by (auto simp: w1_def w2_def out written_def buf_Write_def buf_Flush_def)
  then show thesis using that [OF 1 2] by (simp add: w2_def out)
qed

lemma client_run:
  assumes "bt_ch (ct_base (lk_c l)) = [f]" "ws_pc (lk_cw l) = WWait"
    "snd (ws_buf (lk_cw l)) = []" "\<not> bt_done (ct_base (lk_c l))" "\<not> lk_up_cut l" "ct_pc (lk_c l) \<noteq> CPanic"
  shows "link_run opts csz ssz l
    (l\<lparr>lk_c := (lk_c l)\<lparr>ct_base := (ct_base (lk_c l))\<lparr>bt_ch := []\<rparr>\<rparr>,
       lk_cw := (lk_cw l)\<lparr>ws_pc := WWait, ws_buf := (fst (ws_buf (lk_cw l)) @ f, [])\<rparr>,
       lk_s := (lk_s l)\<lparr>st_in := st_in (lk_s l) @ f\<rparr>\<rparr>)"
proof -
  obtain w1 w2 where w: "write_step csz (ct_base (lk_c l), lk_cw l) ((ct_base (lk_c l))\<lparr>bt_ch := []\<rparr>, w1)"
      "write_step csz ((ct_base (lk_c l))\<lparr>bt_ch := []\<rparr>, w1) ((ct_base (lk_c l))\<lparr>bt_ch := []\<rparr>, w2)"
      "written (lk_cw l) w1 @ written w1 w2 = f" "ws_pc w2 = WWait" "ws_buf w2 = (fst (ws_buf (lk_cw l)) @ f, [])"
    by (rule writer_passes [OF assms(1-4), where sz = csz])
  note r = run_two [OF lk_client_write [OF _ w(1)] lk_client_write]
  have "w2 = (lk_cw l)\<lparr>ws_pc := WWait, ws_buf := (fst (ws_buf (lk_cw l)) @ f, [])\<rparr>" using w(4,5) by (cases w2) simp
  then show ?thesis using r [of "(ct_base (lk_c l))\<lparr>bt_ch := []\<rparr>" w2 opts ssz] assms(5,6) w(2,3) by simp
qed

lemma server_run:
  assumes "bt_ch (st_base (lk_s l)) = [f]" "ws_pc (lk_sw l) = WWait"
    "snd (ws_buf (lk_sw l)) = []" "\<not> bt_done (st_base (lk_s l))" "\<not> lk_down_cut l"
  shows "link_run opts csz ssz l
    (l\<lparr>lk_s := (lk_s l)\<lparr>st_base := (st_base (lk_s l))\<lparr>bt_ch := []\<rparr>\<rparr>,
       lk_sw := (lk_sw l)\<lparr>ws_pc := WWait, ws_buf := (fst (ws_buf (lk_sw l)) @ f, [])\<rparr>,
       lk_c := (lk_c l)\<lparr>ct_in := ct_in (lk_c l) @ f\<rparr>\<rparr>)"
proof -
  obtain w1 w2 where w: "write_step ssz (st_base (lk_s l), lk_sw l) ((st_base (lk_s l))\<lparr>bt_ch := []\<rparr>, w1)"
      "write_step ssz ((st_base (lk_s l))\<lparr>bt_ch := []\<rparr>, w1) ((st_base (lk_s l))\<lparr>bt_ch := []\<rparr>, w2)"
      "written (lk_sw l) w1 @ written w1 w2 = f" "ws_pc w2 = WWait" "ws_buf w2 = (fst (ws_buf (lk_sw l)) @ f, [])"
    by (rule writer_passes [OF assms(1-4), where sz = ssz])
  note r = run_two [OF lk_server_write [OF w(1)] lk_server_write]
  have "w2 = (lk_sw l)\<lparr>ws_pc := WWait, ws_buf := (fst (ws_buf (lk_sw l)) @ f, [])\<rparr>" using w(4,5) by (cases w2) simp
  then show ?thesis using r [of "(st_base (lk_s l))\<lparr>bt_ch := []\<rparr>" w2 opts csz] assms(5) w(2,3) by simp
qed

lemma client_passes:
  assumes "link_reachable opts csz ssz window l" "bt_ch (ct_base (lk_c l)) = [f]" "ws_pc (lk_cw l) = WWait"
    "snd (ws_buf (lk_cw l)) = []" "\<not> bt_done (ct_base (lk_c l))" "\<not> lk_up_cut l" "ct_pc (lk_c l) \<noteq> CPanic"
  shows "link_reachable opts csz ssz window
    (l\<lparr>lk_c := (lk_c l)\<lparr>ct_base := (ct_base (lk_c l))\<lparr>bt_ch := []\<rparr>\<rparr>,
       lk_cw := (lk_cw l)\<lparr>ws_pc := WWait, ws_buf := (fst (ws_buf (lk_cw l)) @ f, [])\<rparr>,
       lk_s := (lk_s l)\<lparr>st_in := st_in (lk_s l) @ f\<rparr>\<rparr>)"
  by (rule run_reachable [OF client_run assms(1)]) (rule assms(2-7))+

lemma server_passes:
  assumes "link_reachable opts csz ssz window l" "bt_ch (st_base (lk_s l)) = [f]" "ws_pc (lk_sw l) = WWait"
    "snd (ws_buf (lk_sw l)) = []" "\<not> bt_done (st_base (lk_s l))" "\<not> lk_down_cut l"
  shows "link_reachable opts csz ssz window
    (l\<lparr>lk_s := (lk_s l)\<lparr>st_base := (st_base (lk_s l))\<lparr>bt_ch := []\<rparr>\<rparr>,
       lk_sw := (lk_sw l)\<lparr>ws_pc := WWait, ws_buf := (fst (ws_buf (lk_sw l)) @ f, [])\<rparr>,
       lk_c := (lk_c l)\<lparr>ct_in := ct_in (lk_c l) @ f\<rparr>\<rparr>)"
  by (rule run_reachable [OF server_run assms(1)]) (rule assms(2-6))+

section \<open>A run with one call\<close>

text \<open>The call has sent its request, the server has created the channel and replies with the code.\<close>

definition wait_client :: client_transport where
  "wait_client =
     (start_client 8 8 [])\<lparr>ct_id := 1, ct_calls := [CallWait], ct_keys := [1 \<mapsto> \<lparr>kc_channel = None, kc_rw = Some 0\<rparr>]\<rparr>"

definition wait_server :: server_transport where
  "wait_server =
     (newServerTransport 8 [])\<lparr>st_keys := [1 \<mapsto> 0], st_heap := [0 \<mapsto> newIOChannel 1 8 8], st_next := 1,
       st_handled := [0], st_pc := SReply (create_reply 1 0)\<rparr>"

definition wait_link :: link where
  "wait_link =
     \<lparr>lk_c = wait_client, lk_cw = \<lparr>ws_pc = WWait, ws_buf = (create_request 1, [])\<rparr>, lk_s = wait_server,
      lk_sw = write_start, lk_up_cut = False, lk_down_cut = False\<rparr>"

definition small_options :: server_options where
  "small_options = ServerWindow 8 defaultServerOptions"

lemma small_options_simps [simp]: "so_window small_options = 8" "so_channels small_options = 0"
  by (simp_all add: small_options_def ServerWindow_def defaultServerOptions_def)

lemma asked_link_reachable:
  "link_reachable small_options csz ssz 8
     ((link_start small_options 8)\<lparr>lk_c := wait_client, lk_cw := \<lparr>ws_pc = WWait, ws_buf = (create_request 1, [])\<rparr>,
        lk_s := newServerTransport 8 (create_request 1)\<rparr>)" (is "link_reachable _ _ _ _ ?l")
proof -
  let ?l0 = "link_start small_options 8"
  let ?c1 = "create_start (start_client 8 8 [])"
  let ?c2 = "create_register ?c1 0"
  let ?c3 = "?c2\<lparr>ct_base := (new_base_transport 8)\<lparr>bt_ch := [create_request 1]\<rparr>, ct_calls := [CallWait]\<rparr>"
  have c0: "lk_c ?l0 = start_client 8 8 []" by (simp add: link_start_def)
  have c1: "ct_calls ?c1 = [CallNew]" "ct_pc ?c1 = CCmd" by (simp_all add: create_start_def start_client_def)
  have c2: "ct_calls ?c2 = [CallSend]" "ct_pc ?c2 = CCmd" "ct_base ?c2 = new_base_transport 8"
    by (simp_all add: create_register_def create_start_def start_client_def)
  have 1: "link_reachable small_options csz ssz 8 (?l0\<lparr>lk_c := ?c1\<rparr>)"
    by (rule lr_step [OF lr_start lk_client_local]) (simp_all add: link_start_def cl_start start_client_def)
  have 2: "link_reachable small_options csz ssz 8 (?l0\<lparr>lk_c := ?c1\<rparr>\<lparr>lk_c := ?c2\<rparr>)"
    by (rule lr_step [OF 1 lk_client_local]) (simp_all add: c1 cl_register)
  have s: "client_local ?c2 ?c3"
    by (rule cl_send [where n = 0])
      (simp_all add: c2 create_send_def ch_send_def call_id_0 ch_capacity_def new_base_transport_def)
  have 3: "link_reachable small_options csz ssz 8 (?l0\<lparr>lk_c := ?c1\<rparr>\<lparr>lk_c := ?c2\<rparr>\<lparr>lk_c := ?c3\<rparr>)"
    by (rule lr_step [OF 2 lk_client_local]) (simp_all add: c2 s)
  have "?c3\<lparr>ct_base := (new_base_transport 8)\<lparr>bt_ch := []\<rparr>\<rparr> = wait_client"
    by (simp add: wait_client_def create_register_def create_start_def start_client_def call_id_0 new_base_transport_def)
  then show ?thesis
    using client_passes [OF 3, of "create_request 1"] c2
    by (simp add: link_start_def write_start_def new_base_transport_def newServerTransport_def)
qed

lemma wait_link_reachable: "link_reachable small_options csz ssz 8 wait_link"
proof -
  let ?l = "(link_start small_options 8)\<lparr>lk_c := wait_client, lk_cw := \<lparr>ws_pc = WWait, ws_buf = (create_request 1, [])\<rparr>,
        lk_s := newServerTransport 8 (create_request 1)\<rparr>"
  have rd: "ReadFull 8 (PutUint64 1) = (PutUint64 1, None, [])" "Uint64 (PutUint64 1) = 1"
    using u64.ReadFull_put [of 1 "[]"] u64.get_exact by simp_all
  have "wait_server \<in> set (st_turn small_options (newServerTransport 8 (create_request 1)))"
    by (simp add: rd st_turn_def st_command_def create_request_def st_create_def newServerTransport_def wait_server_def
        new_base_transport_def Let_def)
  moreover have "server_ready (lk_s ?l)"
    by (simp add: server_ready_def newServerTransport_def command_need_def create_request_def)
  ultimately have "link_step small_options csz ssz ?l (?l\<lparr>lk_s := wait_server\<rparr>)"
    by (intro lk_server_turn) simp_all
  from lr_step [OF asked_link_reachable this] show ?thesis
    by (simp add: wait_link_def link_start_def)
qed


text \<open>The reply is on its way, and the result of the call.\<close>

definition replied_link :: link where
  "replied_link =
     wait_link\<lparr>lk_s := wait_server\<lparr>st_pc := SCmd\<rparr>, lk_sw := \<lparr>ws_pc = WWait, ws_buf = (create_reply 1 0, [])\<rparr>,
       lk_c := wait_client\<lparr>ct_in := create_reply 1 0\<rparr>\<rparr>"

lemma replied_link_reachable: "link_reachable small_options csz ssz 8 replied_link"
proof -
  let ?s = "wait_server\<lparr>st_base := (new_base_transport 8)\<lparr>bt_ch := [create_reply 1 0]\<rparr>, st_pc := SCmd\<rparr>"
  have "?s \<in> set (st_turn small_options wait_server)"
    by (simp add: st_turn_def wait_server_def newServerTransport_def postWrite_def on_done_def ch_send_def ch_capacity_def
        new_base_transport_def)
  then have "link_step small_options csz ssz wait_link (wait_link\<lparr>lk_s := ?s\<rparr>)"
    by (intro lk_server_turn) (simp_all add: wait_link_def server_ready_def wait_server_def)
  from lr_step [OF wait_link_reachable this]
  have 1: "link_reachable small_options csz ssz 8 (wait_link\<lparr>lk_s := ?s\<rparr>)" .
  show ?thesis
    using server_passes [OF 1, of "create_reply 1 0"]
    by (simp add: replied_link_def wait_link_def write_start_def new_base_transport_def wait_client_def start_client_def
        wait_server_def newServerTransport_def)
qed

definition done_client :: client_transport where
  "done_client =
     wait_client\<lparr>ct_keys := [1 \<mapsto> \<lparr>kc_channel = Some 0, kc_rw = None\<rparr>], ct_heap := [0 \<mapsto> newIOChannel 1 8 8],
       ct_next := 1, ct_calls := [CallRet (Inr 0)]\<rparr>"

lemma reply_read:
  assumes "ct_in c = create_reply cid code" "ct_pc c = CCmd"
  shows "ct_turn c = [ct_create_cmd (c\<lparr>ct_in := []\<rparr>) cid code]" "client_ready c"
proof -
  have "ReadFull 9 (PutUint64 cid @ [code]) = (PutUint64 cid @ [code], None, [])"
    using ReadFull_append2 [of "PutUint64 cid" "[code]" 9 "[]"] by simp
  moreover have "Uint64 (PutUint64 cid @ [code]) = cid" "(PutUint64 cid @ [code]) ! 8 = code"
    using u64.get_put [of cid "[code]"] by (simp_all add: nth_append)
  ultimately show "ct_turn c = [ct_create_cmd (c\<lparr>ct_in := []\<rparr>) cid code]"
    using assms by (simp add: ct_turn_def ct_command_def create_reply_def)
  show "client_ready c" using assms by (simp add: client_ready_def command_need_def create_reply_def)
qed

lemma done_link_reachable: "link_reachable small_options csz ssz 8 (replied_link\<lparr>lk_c := done_client\<rparr>)"
proof -
  let ?c = "done_client\<lparr>ct_calls := [CallWait], ct_pc := CResult 0 0 (Some 0)\<rparr>"
  have "ct_create_cmd (wait_client\<lparr>ct_in := []\<rparr>) 1 0 = ?c"
    by (simp add: ct_create_cmd_def wait_client_def start_client_def done_client_def new_base_transport_def)
  then have "?c \<in> set (ct_turn (lk_c replied_link))" "client_ready (lk_c replied_link)"
    using reply_read [of "lk_c replied_link" 1 0] by (simp_all add: replied_link_def wait_client_def start_client_def)
  from lr_step [OF replied_link_reachable lk_client_turn [OF disjI1 [OF this(2)] this(1)]]
  have 1: "link_reachable small_options csz ssz 8 (replied_link\<lparr>lk_c := ?c\<rparr>)" .
  have "done_client \<in> set (ct_turn ?c)"
    by (simp add: ct_turn_def createResult_def result_cases_def done_client_def wait_client_def start_client_def
        create_value_def new_base_transport_def Let_def)
  moreover have "client_ready ?c" by (simp add: client_ready_def)
  ultimately have "link_step small_options csz ssz (replied_link\<lparr>lk_c := ?c\<rparr>) (replied_link\<lparr>lk_c := done_client\<rparr>)"
    using lk_client_turn [of "replied_link\<lparr>lk_c := ?c\<rparr>" done_client] by simp
  from lr_step [OF 1 this] show ?thesis .
qed

text \<open>The same run with a context that ends before the reply comes.\<close>

lemma panic_link_reachable:
  "\<exists>l. link_reachable small_options csz ssz 8 l \<and> ct_pc (lk_c l) = CPanic \<and> length (ct_calls (lk_c l)) = 1"
proof -
  let ?c = "(lk_c replied_link)\<lparr>ct_cancelled := (ct_cancelled (lk_c replied_link))(0 := True)\<rparr>"
  have 1: "link_reachable small_options csz ssz 8 (replied_link\<lparr>lk_c := ?c\<rparr>)"
    by (rule lr_step [OF replied_link_reachable lk_client_local [OF _ cl_cancel]])
      (simp add: replied_link_def wait_client_def start_client_def)
  let ?d = "ct_create_cmd (?c\<lparr>ct_in := []\<rparr>) 1 0"
  have "?d \<in> set (ct_turn ?c)" "client_ready ?c"
    using reply_read [of ?c 1 0] by (simp_all add: replied_link_def wait_client_def start_client_def)
  then have "link_step small_options csz ssz (replied_link\<lparr>lk_c := ?c\<rparr>) (replied_link\<lparr>lk_c := ?d\<rparr>)"
    using lk_client_turn [of "replied_link\<lparr>lk_c := ?c\<rparr>" ?d] by simp
  from lr_step [OF 1 this] show ?thesis
    by (intro exI [of _ "replied_link\<lparr>lk_c := ?d\<rparr>"])
      (simp add: replied_link_def wait_client_def start_client_def ct_create_cmd_def)
qed

section \<open>A call that nobody answers\<close>

text \<open>The call waits, and nothing that the client still holds leads to it.\<close>

definition forgotten :: "client_transport \<Rightarrow> nat \<Rightarrow> bool" where
  "forgotten c n \<longleftrightarrow>
     n < length (ct_calls c) \<and> ct_calls c ! n = CallWait
     \<and> (\<forall>i k. ct_keys c i = Some k \<longrightarrow> kc_rw k \<noteq> Some n)
     \<and> (\<forall>(m, code, v) \<in> set (ct_late c). m \<noteq> n)
     \<and> (case ct_pc c of CResult m code v \<Rightarrow> m \<noteq> n | _ \<Rightarrow> True)"

definition given_up :: "client_transport \<Rightarrow> nat \<Rightarrow> bool" where
  "given_up c n \<longleftrightarrow> ct_cancelled c n \<or> bt_done (ct_base c)"

lemma ct_create_cmd_forgotten: "forgotten c n \<Longrightarrow> forgotten (ct_create_cmd c cid code) n"
  by (auto simp: forgotten_def ct_create_cmd_def split: option.split)

lemma ct_close_cmd_forgotten: "forgotten c n \<Longrightarrow> forgotten (ct_close_cmd c cid) n"
  by (auto simp: forgotten_def ct_close_cmd_def Let_def split: option.split)

lemma ct_write_pass_forgotten: "forgotten c n \<Longrightarrow> forgotten (ct_write_pass c cid sz mx) n"
  by (auto simp: forgotten_def ct_write_pass_def Let_def split: option.split prod.split)

lemma ct_confirm_forgotten: "forgotten c n \<Longrightarrow> c' \<in> set (ct_confirm c cid v) \<Longrightarrow> forgotten c' n"
  by (auto simp: forgotten_def ct_confirm_def split: option.splits if_splits)

lemma forgotten_simps [simp]:
  "forgotten (c\<lparr>ct_in := r\<rparr>) n = forgotten c n" "forgotten (c\<lparr>ct_base := b\<rparr>) n = forgotten c n"
  "forgotten (c\<lparr>ct_heap := h\<rparr>) n = forgotten c n" "forgotten (c\<lparr>ct_closing := cl\<rparr>) n = forgotten c n"
  "forgotten (c\<lparr>ct_cancelled := ca\<rparr>) n = forgotten c n"
  by (simp_all add: forgotten_def)

lemma forgotten_pc: "forgotten c n \<Longrightarrow> (\<And>m code v. p \<noteq> CResult m code v) \<Longrightarrow> forgotten (c\<lparr>ct_pc := p\<rparr>) n"
  by (auto simp: forgotten_def split: client_pc.split)

lemma ct_command_forgotten:
  assumes "c' \<in> set (ct_command c)" "forgotten c n"
  shows "forgotten c' n"
proof -
  obtain b e r where 1: "ReadFull (Suc 0) (ct_in c) = (b, e, r)" by (cases "ReadFull (Suc 0) (ct_in c)")
  obtain b8 e8 r8 where 8: "ReadFull 8 r = (b8, e8, r8)" by (cases "ReadFull 8 r")
  obtain b9 e9 r9 where 9: "ReadFull 9 r = (b9, e9, r9)" by (cases "ReadFull 9 r")
  obtain b10 e10 r10 where 10: "ReadFull 10 r = (b10, e10, r10)" by (cases "ReadFull 10 r")
  have pc: "forgotten (c\<lparr>ct_base := base, ct_in := r, ct_pc := p\<rparr>) n \<and> forgotten (c\<lparr>ct_in := r, ct_pc := p\<rparr>) n"
    if "p = CCmd \<or> p = CClean \<or> (\<exists>cid sz mx. p = CWrite cid sz mx)" for base r p
    using that assms(2) by (auto simp: forgotten_def)
  show ?thesis
    using assms
    by (auto simp: ct_command_def Let_def 1 8 9 10 intro!: pc [THEN conjunct1] pc [THEN conjunct2] ct_create_cmd_forgotten ct_close_cmd_forgotten
        intro: ct_confirm_forgotten [where c = "c\<lparr>ct_in := r\<rparr>" for r] split: option.splits if_splits)
qed

lemma result_cases_forgotten:
  assumes "(c', x) \<in> set (result_cases c m code v)" "forgotten c n" "m \<noteq> n"
  shows "forgotten c' n \<and> ct_base c' = ct_base c \<and> ct_cancelled c' = ct_cancelled c"
proof -
  consider "c' = c" | a where "c' = c\<lparr>ct_heap := store_update (ct_heap c) a (\<lambda>c. fst (ch_Close c))\<rparr>"
    | "c' = c\<lparr>ct_calls := (ct_calls c)[m := CallRet (create_value (call_id m) code v)]\<rparr>"
    using assms(1) by (auto simp: result_cases_def split: option.splits if_splits)
  then show ?thesis
    by cases (use assms(2,3) in \<open>auto simp: forgotten_def\<close>)
qed

lemma createResult_forgotten:
  assumes "c' \<in> set (createResult c m code v)" "forgotten c n" "m \<noteq> n"
  shows "forgotten c' n \<and> ct_base c' = ct_base c \<and> ct_cancelled c' = ct_cancelled c"
proof (cases "result_cases c m code v = []")
  case True
  then have "c' = c\<lparr>ct_late := ct_late c @ [(m, code, v)], ct_pc := CCmd\<rparr>"
    using assms(1) by (simp add: createResult_def)
  then show ?thesis using assms(2,3) by (auto simp: forgotten_def)
next
  case False
  then obtain u cid ex where u: "(u, cid, ex) \<in> set (result_cases c m code v)"
      "c' = u\<lparr>ct_pc := (if ex then CClean else case cid of None \<Rightarrow> CCmd | Some j \<Rightarrow> CSendClose j)\<rparr>"
    using assms(1) by (auto simp: createResult_def Let_def)
  then show ?thesis using result_cases_forgotten [OF u(1) assms(2,3)]
    by (auto intro!: forgotten_pc split: option.split)
qed

lemma late_result_forgotten:
  assumes "c' \<in> set (late_result c i)" "forgotten c n"
  shows "forgotten c' n \<and> ct_base c' = ct_base c \<and> ct_cancelled c' = ct_cancelled c"
  using assms(1)
proof (cases rule: late_resultE)
  case u: (1 m code v u cid ex)
  have m: "m \<noteq> n" using assms(2) u(3) by (fastforce simp: forgotten_def)
  have "forgotten (c\<lparr>ct_late := take i (ct_late c) @ drop (Suc i) (ct_late c)\<rparr>) n"
    using assms(2) set_without [of _ i "ct_late c"] by (fastforce simp: forgotten_def)
  from result_cases_forgotten [OF u(1) this m] show ?thesis using u(2) by auto
qed

lemma ct_turn_forgotten:
  assumes "c' \<in> set (ct_turn c)" "forgotten c n"
  shows "forgotten c' n"
proof (cases "ct_pc c")
  case CCmd
  then show ?thesis using assms ct_command_forgotten by (simp add: ct_turn_def)
next
  case (CResult m code v)
  then have "m \<noteq> n" using assms(2) by (simp add: forgotten_def)
  then show ?thesis using createResult_forgotten [of c' c m code v n] assms CResult by (simp add: ct_turn_def)
qed (use assms in \<open>auto simp: ct_turn_def intro!: ct_write_pass_forgotten forgotten_pc\<close>)


lemma create_give_up_none: "\<not> given_up c n \<Longrightarrow> create_give_up c n = []"
  by (simp add: create_give_up_def given_up_def)

lemma forgotten_call:
  "forgotten c n \<Longrightarrow> m \<noteq> n \<Longrightarrow> forgotten (c\<lparr>ct_calls := (ct_calls c)[m := st]\<rparr>) n"
  by (auto simp: forgotten_def)

lemma client_local_forgotten:
  assumes "client_local c c'" "forgotten c n" "\<not> given_up c n"
  shows "forgotten c' n"
  using assms
proof (induction rule: client_local.induct)
  case (cl_start t)
  then show ?case by (auto simp: forgotten_def create_start_def nth_append)
next
  case (cl_register m t)
  then have "m \<noteq> n" by (auto simp: forgotten_def)
  then show ?case using cl_register(3) by (auto simp: forgotten_def create_register_def split: client_pc.splits)
next
  case (cl_send m t t')
  then have "m \<noteq> n" by (auto simp: forgotten_def)
  then show ?case using cl_send(3,4)
    by (auto simp: create_send_def create_give_up_def intro: forgotten_call
        forgotten_call [where c = "t\<lparr>ct_base := base\<rparr>" for base, simplified] split: if_splits)
next
  case (cl_give_up m t t')
  then have "m \<noteq> n" by (auto simp: create_give_up_none)
  then show ?case using cl_give_up(3,4) by (auto simp: create_give_up_def intro: forgotten_call split: if_splits)
next
  case (cl_late_result t' t i)
  then show ?case using late_result_forgotten by blast
next
  case (cl_exit t a c)
  then show ?case by (auto simp: ct_delete_def forgotten_def split: option.split)
next
  case (cl_closing t' t i)
  then show ?case by (auto simp: ct_send_closing_def split: if_splits)
qed auto


text \<open>That a call has been given up does not change.\<close>

lemma ct_create_cmd_keeps [simp]:
  "ct_base (ct_create_cmd c cid code) = ct_base c" "ct_cancelled (ct_create_cmd c cid code) = ct_cancelled c"
  "ct_base (ct_close_cmd c cid) = ct_base c" "ct_cancelled (ct_close_cmd c cid) = ct_cancelled c"
  "ct_base (ct_write_pass c cid sz mx) = ct_base c" "ct_cancelled (ct_write_pass c cid sz mx) = ct_cancelled c"
  by (auto simp: ct_create_cmd_def ct_close_cmd_def ct_write_pass_def Let_def split: option.split prod.split)

lemma ct_confirm_keeps:
  "c' \<in> set (ct_confirm c cid v) \<Longrightarrow> ct_base c' = ct_base c \<and> ct_cancelled c' = ct_cancelled c"
  by (auto simp: ct_confirm_def split: option.splits if_splits)

lemma result_cases_keeps:
  "(c', x) \<in> set (result_cases c n code v) \<Longrightarrow> ct_base c' = ct_base c \<and> ct_cancelled c' = ct_cancelled c"
  by (auto simp: result_cases_def split: option.splits if_splits)

lemma ct_command_given_up:
  assumes "c' \<in> set (ct_command c)" "given_up c n"
  shows "given_up c' n"
proof -
  obtain b e r where 1: "ReadFull (Suc 0) (ct_in c) = (b, e, r)" by (cases "ReadFull (Suc 0) (ct_in c)")
  obtain b8 e8 r8 where 8: "ReadFull 8 r = (b8, e8, r8)" by (cases "ReadFull 8 r")
  obtain b9 e9 r9 where 9: "ReadFull 9 r = (b9, e9, r9)" by (cases "ReadFull 9 r")
  obtain b10 e10 r10 where 10: "ReadFull 10 r = (b10, e10, r10)" by (cases "ReadFull 10 r")
  show ?thesis
    using assms by (auto simp: ct_command_def Let_def 1 8 9 10 given_up_def dest!: ct_confirm_keeps bt_done_sends(5)
        split: option.splits if_splits)
qed

lemma ct_turn_given_up: "c' \<in> set (ct_turn c) \<Longrightarrow> given_up c n \<Longrightarrow> given_up c' n"
  by (cases "ct_pc c")
    (auto simp: ct_turn_def createResult_def Let_def given_up_def bt_Close_def ct_command_given_up [unfolded given_up_def]
      dest!: result_cases_keeps bt_done_sends(2) split: if_splits)

lemma client_local_given_up:
  assumes "client_local c c'" "given_up c n"
  shows "given_up c' n"
  using assms
proof (induction rule: client_local.induct)
  case (cl_late_result t' t i)
  from cl_late_result(1) show ?case
  proof (cases rule: late_resultE)
    case (1 m code v u cid ex)
    then show ?thesis using cl_late_result(2) result_cases_keeps [OF 1(1)] by (simp add: given_up_def)
  qed
qed (auto simp: given_up_def create_start_def create_register_def create_send_def create_give_up_def ct_delete_def
    ct_send_closing_def bt_Close_def dest!: bt_done_sends(1,2,4) split: option.splits if_splits)

lemma written_done: "write_step sz (t, w) (t', w') \<Longrightarrow> bt_done t' = bt_done t"
  by (auto elim: write_step.cases)

lemma link_step_forgotten:
  "link_step opts csz ssz l l' \<Longrightarrow> forgotten (lk_c l) n \<or> given_up (lk_c l) n \<Longrightarrow>
    forgotten (lk_c l') n \<or> given_up (lk_c l') n"
proof (induction rule: link_step.induct)
  case lk_client_turn
  then show ?case using ct_turn_forgotten ct_turn_given_up by auto
next
  case (lk_client_local l c')
  then show ?case
    using client_local_forgotten [OF lk_client_local(2), of n] client_local_given_up [OF lk_client_local(2), of n]
    by (cases "given_up (lk_c l) n") simp_all
next
  case (lk_client_write l b' w')
  then show ?case using written_done [of csz] by (fastforce simp: given_up_def)
qed (auto simp: given_up_def)

lemma forgotten_for_ever:
  "(link_step opts csz ssz)\<^sup>*\<^sup>* l l' \<Longrightarrow> forgotten (lk_c l) n \<Longrightarrow> forgotten (lk_c l') n \<or> given_up (lk_c l') n"
  by (induction rule: rtranclp_induct) (use link_step_forgotten in blast)+

text \<open>The handler closes the channel before the read loop has sent the reply.\<close>

lemma overtaken_reachable:
  "\<exists>l. link_reachable small_options csz ssz 8 l \<and> forgotten (lk_c l) 0 \<and> \<not> given_up (lk_c l) 0
     \<and> st_pc (lk_s l) = SReply (create_reply (call_id 0) 0)"
proof -
  let ?s1 = "st_delete (wait_server\<lparr>st_heap := store_update (st_heap wait_server) 0 (\<lambda>c. fst (ch_Close c))\<rparr>) 0"
  let ?h = "store_update (st_heap wait_server) 0 (\<lambda>c. fst (ch_Close c))"
  let ?s2 = "wait_server\<lparr>st_heap := ?h, st_keys := Map.empty, st_closing := [1]\<rparr>"
  let ?s3 = "?s2\<lparr>st_base := (new_base_transport 8)\<lparr>bt_ch := [close_frame 1]\<rparr>, st_closing := []\<rparr>"
  have s1: "?s1 = ?s2"
    by (simp add: st_delete_def wait_server_def newServerTransport_def store_update_def newIOChannel_def)
  have "server_local wait_server ?s1"
    by (rule sl_exit) (simp add: wait_server_def)
  then have "link_step small_options csz ssz wait_link (wait_link\<lparr>lk_s := ?s2\<rparr>)"
    unfolding s1 using lk_server_local [of wait_link] by (simp add: wait_link_def)
  from lr_step [OF wait_link_reachable this]
  have 1: "link_reachable small_options csz ssz 8 (wait_link\<lparr>lk_s := ?s2\<rparr>)" .
  have "server_local ?s2 ?s3"
    by (rule sl_closing [where i = 0])
      (simp add: st_send_closing_def wait_server_def newServerTransport_def sendClose_def on_done_def ch_send_def
        ch_capacity_def new_base_transport_def)
  then have "link_step small_options csz ssz (wait_link\<lparr>lk_s := ?s2\<rparr>) (wait_link\<lparr>lk_s := ?s3\<rparr>)"
    using lk_server_local [of "wait_link\<lparr>lk_s := ?s2\<rparr>" ?s3] by simp
  from lr_step [OF 1 this]
  have 2: "link_reachable small_options csz ssz 8 (wait_link\<lparr>lk_s := ?s3\<rparr>)" .
  obtain l where l: "link_reachable small_options csz ssz 8 l" "lk_c l = wait_client\<lparr>ct_in := close_frame 1\<rparr>"
      "st_pc (lk_s l) = SReply (create_reply 1 0)"
    using server_passes [OF 2, of "close_frame 1"]
    by (simp add: wait_link_def write_start_def new_base_transport_def wait_client_def start_client_def wait_server_def)
  let ?c = "wait_client\<lparr>ct_keys := Map.empty\<rparr>"
  have rd: "ReadFull 8 (PutUint64 1) = (PutUint64 1, None, [])" "Uint64 (PutUint64 1) = 1"
    using u64.ReadFull_put [of 1 "[]"] u64.get_exact by simp_all
  have "?c \<in> set (ct_turn (lk_c l))" "client_ready (lk_c l)"
    unfolding l(2)
    by (simp_all add: rd ct_turn_def ct_command_def wait_client_def start_client_def close_frame_def ct_close_cmd_def
        client_ready_def command_need_def)
  from lr_step [OF l(1) lk_client_turn [OF disjI1 [OF this(2)] this(1)]]
  have "link_reachable small_options csz ssz 8 (l\<lparr>lk_c := ?c\<rparr>)" .
  moreover have "forgotten ?c 0" "\<not> given_up ?c 0"
    by (simp_all add: forgotten_def given_up_def wait_client_def start_client_def new_base_transport_def)
  ultimately show ?thesis using l(3)
    by (intro exI [of _ "l\<lparr>lk_c := ?c\<rparr>"]) (simp add: call_id_0)
qed


section \<open>The properties\<close>

text \<open>
  C10: whatever the goroutines at the two ends do, in whatever order, and wherever the connection breaks: a
  channel that \<open>Create\<close> has returned has the id of that call, and the server has given exactly one channel
  of this id to its handler.
\<close>

theorem link_create_counterpart:
  assumes "link_reachable opts csz ssz window l" "length (ct_calls (lk_c l)) < 2 ^ 64"
    and "n < length (ct_calls (lk_c l))" "ct_calls (lk_c l) ! n = CallRet (Inr a)"
  shows "(\<exists>c. ct_heap (lk_c l) a = Some c \<and> c_id c = call_id n)
    \<and> (\<exists>!b. b \<in> set (st_handled (lk_s l)) \<and> (\<exists>s. st_heap (lk_s l) b = Some s \<and> c_id s = call_id n))"
proof -
  obtain fs gs where inv: "link_inv opts csz ssz l fs gs" using link_reachable_inv [OF assms(1,2)] by blast
  then have ci: "client_inv (lk_c l)" and si: "server_inv opts (lk_s l)" by (simp_all add: link_inv_def parts_ok_def)
  have own: "owns (ct_heap (lk_c l)) n a" using ci assms(3,4) by (simp add: client_inv_def core_inv_def)
  then obtain c where c: "ct_heap (lk_c l) a = Some c" "c_id c = call_id n" by (auto simp: owns_def)
  then have "chan_ids (ct_heap (lk_c l)) a = Some (call_id n)" by (simp add: chan_ids_def)
  then have "call_id n \<in> ran (server_ids l)" using inv by (auto simp: link_inv_def calls_ok_def intro: ranI)
  then obtain b where b: "server_ids l b = Some (call_id n)" by (auto simp: ran_def)
  have ids: "server_ids l x = Some (call_id n) \<longleftrightarrow> (\<exists>s. st_heap (lk_s l) x = Some s \<and> c_id s = call_id n)" for x
    by (auto simp: server_ids_def chan_ids_def)
  have "x = b" if "server_ids l x = Some (call_id n)" for x
    using inv b that unfolding link_inv_def calls_ok_def by blast
  moreover have "b \<in> set (st_handled (lk_s l))"
    using si b table_ok_less by (fastforce simp: server_inv_def ids)
  ultimately show ?thesis using c b ids by blast
qed

theorem link_create_counterpart_witness:
  "\<exists>!b. b \<in> set (st_handled wait_server) \<and> (\<exists>s. st_heap wait_server b = Some s \<and> c_id s = call_id 0)"
  using link_create_counterpart [OF done_link_reachable [of 16 16], of 0 0]
  by (simp add: done_client_def replied_link_def call_id_0)

text \<open>
  C12: the client does not panic by itself: while no context has ended, no reply of the server is one that
  it cannot handle.
\<close>

theorem link_panic_cancelled:
  assumes "link_reachable opts csz ssz window l" "length (ct_calls (lk_c l)) < 2 ^ 64" "ct_pc (lk_c l) = CPanic"
  shows "\<exists>n. ct_cancelled (lk_c l) n"
  using link_reachable_inv [OF assms(1,2)] assms(3) by (auto simp: link_inv_def parts_ok_def)

theorem link_panic_cancelled_witness:
  "\<exists>l. link_reachable small_options 16 16 8 l \<and> ct_pc (lk_c l) = CPanic \<and> (\<exists>n. ct_cancelled (lk_c l) n)"
proof -
  obtain l where "link_reachable small_options 16 16 8 l" "ct_pc (lk_c l) = CPanic" "length (ct_calls (lk_c l)) = 1"
    using panic_link_reachable by blast
  then show ?thesis using link_panic_cancelled [of small_options 16 16 8 l] by auto
qed

lemma conn_stream: "conn enc ok inp True d brk w t fs \<Longrightarrow> \<exists>rest whole. stream enc inp rest whole d fs"
  by (auto simp: conn_def Let_def)

text \<open>
  C11: the two read loops stay in step with the writers at the other end: the byte that a loop takes as a
  command is always a command, never a pong, so the answer to a pong is never sent; and the server never answers
  that an id is already in use.
\<close>

theorem link_in_step:
  assumes "link_reachable opts csz ssz window l" "length (ct_calls (lk_c l)) < 2 ^ 64"
  shows "(st_pc (lk_s l) = SCmd \<and> st_in (lk_s l) \<noteq> [] \<longrightarrow> hd (st_in (lk_s l)) \<in> {1, 3, 4, 5, 6})
    \<and> (ct_pc (lk_c l) = CCmd \<and> ct_in (lk_c l) \<noteq> [] \<longrightarrow> hd (ct_in (lk_c l)) \<in> {1, 3, 4, 5, 6})
    \<and> (\<forall>cid code. st_pc (lk_s l) = SReply (create_reply cid code) \<longrightarrow> code \<in> {0, 2})"
proof -
  obtain fs gs where inv: "link_inv opts csz ssz l fs gs" using link_reachable_inv [OF assms] by blast
  have "hd (st_in (lk_s l)) \<in> {1, 3, 4, 5, 6}" if here: "st_pc (lk_s l) = SCmd" "st_in (lk_s l) \<noteq> []"
  proof -
    have "conn frame_bytes up_ok (st_in (lk_s l)) True 0 (lk_up_cut l) (lk_cw l) (ct_base (lk_c l)) fs"
      using inv here(1) by (simp add: link_inv_def up_conn_def server_live_def server_debt_def)
    from conn_stream [OF this] conn_ok [OF this]
    obtain rest w where "stream frame_bytes (st_in (lk_s l)) rest w 0 fs" "\<forall>f \<in> set fs. up_ok f" by blast
    then obtain f where "hd (st_in (lk_s l)) = hd (frame_bytes f)" "up_ok f"
      using stream_next [OF _ here(2)] frame_bytes_ne by (metis list.set_intros(1))
    then show ?thesis by (cases f) simp_all
  qed
  moreover have "hd (ct_in (lk_c l)) \<in> {1, 3, 4, 5, 6}" if here: "ct_pc (lk_c l) = CCmd" "ct_in (lk_c l) \<noteq> []"
  proof -
    have "conn down_bytes down_ok (ct_in (lk_c l)) True 0 (lk_down_cut l) (lk_sw l) (st_base (lk_s l)) gs"
      using inv here(1) by (simp add: link_inv_def down_conn_def client_live_def client_debt_def)
    from conn_stream [OF this] conn_ok [OF this]
    obtain rest w where "stream down_bytes (ct_in (lk_c l)) rest w 0 gs" "\<forall>g \<in> set gs. down_ok g" by blast
    then obtain g where "hd (ct_in (lk_c l)) = hd (down_bytes g)" "down_ok g"
      using stream_next [OF _ here(2)] down_bytes_ne by (metis list.set_intros(1))
    then show ?thesis by (cases g) simp_all
  qed
  moreover have "code \<in> {0, 2}" if "st_pc (lk_s l) = SReply (create_reply cid code)" for cid code
  proof -
    have "(cid, code) \<in># unsent (lk_s l)" using that by (simp add: waiting_def)
    then have "(cid, Some code) \<in># tokens fs gs (unsent (lk_s l))" by (force simp: tokens_def)
    then have "token_ok (lk_c l) (server_ids l) cid (Some code)"
      using inv by (auto simp: link_inv_def tokens_ok_def)
    then show ?thesis by (simp add: token_ok_def)
  qed
  ultimately show ?thesis by blast
qed

theorem link_in_step_witness:
  "link_reachable small_options 16 16 8 replied_link \<and> hd (ct_in (lk_c replied_link)) \<in> {1, 3, 4, 5, 6}"
  using link_in_step [OF replied_link_reachable [of 16 16]] replied_link_reachable [of 16 16]
  by (simp add: replied_link_def wait_client_def start_client_def create_reply_def)

text \<open>
  C16: \<open>Create\<close> can wait for ever on a connection that works.  The handler of a new channel runs before its reply
  is queued; if it closes the channel at once, the close frame overtakes the reply, and the client forgets the
  call.  From then on the call waits, whatever happens, until its context ends or the client is closed.
\<close>

theorem create_can_hang:
  "\<exists>l. link_reachable small_options csz ssz 8 l \<and> st_pc (lk_s l) = SReply (create_reply (call_id 0) 0)
    \<and> \<not> ct_cancelled (lk_c l) 0 \<and> \<not> bt_done (ct_base (lk_c l))
    \<and> (\<forall>l'. (link_step small_options csz ssz)\<^sup>*\<^sup>* l l' \<longrightarrow>
         ct_calls (lk_c l') ! 0 = CallWait \<or> ct_cancelled (lk_c l') 0 \<or> bt_done (ct_base (lk_c l')))"
proof -
  obtain l where l: "link_reachable small_options csz ssz 8 l" "forgotten (lk_c l) 0" "\<not> given_up (lk_c l) 0"
      "st_pc (lk_s l) = SReply (create_reply (call_id 0) 0)"
    using overtaken_reachable by blast
  have "ct_calls (lk_c l') ! 0 = CallWait \<or> ct_cancelled (lk_c l') 0 \<or> bt_done (ct_base (lk_c l'))"
    if "(link_step small_options csz ssz)\<^sup>*\<^sup>* l l'" for l'
    using forgotten_for_ever [OF that l(2)] by (auto simp: forgotten_def given_up_def)
  then show ?thesis using l by (auto simp: given_up_def)
qed

theorem create_can_hang_witness:
  "\<exists>l. link_reachable small_options 16 16 8 l \<and> ct_calls (lk_c l) ! 0 = CallWait \<and> \<not> ct_cancelled (lk_c l) 0"
  using create_can_hang [of 16 16] by blast

end
