(* ===== verification/LinkSession.thy ===== *)
theory LinkSession
  imports LinkCalls
begin

text \<open>
  What a sound connection is good for: from any state that can be reached in which nothing is on its way, a call
  of \<open>Create\<close> can be answered, the bytes that a channel sends can arrive at the other end, and the end of
  its handler closes it at both ends; then the connection is at rest again.
\<close>

section \<open>A connection at rest\<close>

text \<open>Nothing is on its way, and both ends wait for commands.\<close>

definition at_rest :: "link \<Rightarrow> bool" where
  "at_rest l \<longleftrightarrow>
     \<not> lk_up_cut l \<and> \<not> lk_down_cut l
     \<and> \<not> bt_done (ct_base (lk_c l)) \<and> \<not> bt_done (st_base (lk_s l))
     \<and> bt_ch (ct_base (lk_c l)) = [] \<and> bt_ch (st_base (lk_s l)) = []
     \<and> ws_pc (lk_cw l) = WWait \<and> ws_pc (lk_sw l) = WWait
     \<and> snd (ws_buf (lk_cw l)) = [] \<and> snd (ws_buf (lk_sw l)) = []
     \<and> ct_pc (lk_c l) = CCmd \<and> st_pc (lk_s l) = SCmd \<and> ct_in (lk_c l) = [] \<and> st_in (lk_s l) = []"

section \<open>A call\<close>

definition requested :: "client_transport \<Rightarrow> client_transport" where
  "requested c = (create_register (create_start c) (length (ct_calls c)))\<lparr>ct_calls := ct_calls c @ [CallWait]\<rparr>"

lemma requested_simps [simp]:
  "ct_base (requested c) = ct_base c" "ct_pc (requested c) = ct_pc c" "ct_in (requested c) = ct_in c"
  "ct_calls (requested c) = ct_calls c @ [CallWait]" "ct_cancelled (requested c) = ct_cancelled c"
  "ct_heap (requested c) = ct_heap c" "ct_next (requested c) = ct_next c" "ct_window (requested c) = ct_window c"
  by (auto simp: requested_def create_register_def create_start_def)

lemma requested_keys:
  "\<not> ct_cancelled c (length (ct_calls c)) \<Longrightarrow>
    ct_keys (requested c) = (ct_keys c)(call_id (length (ct_calls c)) \<mapsto> \<lparr>kc_channel = None, kc_rw = Some (length (ct_calls c))\<rparr>)"
  by (simp add: requested_def create_register_def create_start_def)

lemma requests:
  assumes "ct_pc (lk_c l) \<noteq> CPanic" "\<not> ct_cancelled (lk_c l) (length (ct_calls (lk_c l)))" "bt_ch (ct_base (lk_c l)) = []"
  shows "link_run opts csz ssz l (l\<lparr>lk_c := (requested (lk_c l))\<lparr>ct_base :=
    (ct_base (lk_c l))\<lparr>bt_ch := [create_request (call_id (length (ct_calls (lk_c l))))]\<rparr>\<rparr>\<rparr>)" (is "link_run _ _ _ _ ?l3")
proof -
  let ?n = "length (ct_calls (lk_c l))"
  let ?c1 = "create_start (lk_c l)" and ?c2 = "create_register (create_start (lk_c l)) ?n"
  have c1: "ct_calls ?c1 = ct_calls (lk_c l) @ [CallNew]" "ct_pc ?c1 = ct_pc (lk_c l)"
    by (simp_all add: create_start_def)
  have c2: "ct_calls ?c2 = ct_calls (lk_c l) @ [CallSend]" "ct_pc ?c2 = ct_pc (lk_c l)" "ct_base ?c2 = ct_base (lk_c l)"
    using assms(2) by (simp_all add: create_register_def create_start_def)
  have 1: "link_step opts csz ssz l (l\<lparr>lk_c := ?c1\<rparr>)"
    by (rule lk_client_local) (simp_all add: assms(1) cl_start)
  have 2: "link_step opts csz ssz (l\<lparr>lk_c := ?c1\<rparr>) (l\<lparr>lk_c := ?c2\<rparr>)"
    using lk_client_local [of "l\<lparr>lk_c := ?c1\<rparr>" ?c2] assms(1) c1 by (simp add: cl_register)
  have "client_local ?c2 (lk_c ?l3)"
    by (rule cl_send [where n = ?n])
      (simp_all add: c2 create_send_def ch_send_def ch_capacity_def assms(3) requested_def)
  then have 3: "link_step opts csz ssz (l\<lparr>lk_c := ?c2\<rparr>) ?l3"
    using lk_client_local [of "l\<lparr>lk_c := ?c2\<rparr>" "lk_c ?l3"] assms(1) c2 by simp
  show ?thesis using 1 2 3 by (meson r_into_rtranclp rtranclp_trans)
qed

text \<open>The server reads the request and queues its reply.\<close>

lemma answers:
  assumes "st_pc (lk_s l) = SCmd" "st_in (lk_s l) = create_request cid" "bt_ch (st_base (lk_s l)) = []"
    "\<not> bt_done (st_base (lk_s l))" "st_create opts ((lk_s l)\<lparr>st_in := []\<rparr>) cid = (u, code)"
  shows "link_run opts csz ssz l
    (l\<lparr>lk_s := u\<lparr>st_base := (st_base (lk_s l))\<lparr>bt_ch := [create_reply cid code]\<rparr>\<rparr>\<rparr>)" (is "link_run _ _ _ _ ?l2")
proof -
  let ?u = "u\<lparr>st_pc := SReply (create_reply cid code)\<rparr>"
  have u: "st_base u = st_base (lk_s l)" "st_in u = []" "st_pc u = SCmd"
    using assms(1,5) by (auto simp: st_create_def Let_def split: if_splits)
  have rd: "ReadFull 8 (PutUint64 cid) = (PutUint64 cid, None, [])" "Uint64 (PutUint64 cid) = cid"
    using u64.ReadFull_put [of cid "[]"] u64.get_exact by simp_all
  have cr: "st_create opts ((lk_s l)\<lparr>st_in := PutUint64 cid\<rparr>) cid = (u\<lparr>st_in := PutUint64 cid\<rparr>, code)"
    using assms(5) by (auto simp: st_create_def Let_def split: if_splits)
  have "u\<lparr>st_in := []\<rparr> = u" using u(2) by simp
  then have "?u \<in> set (st_turn opts (lk_s l))"
    using assms(1,2) by (simp add: st_turn_def st_command_def create_request_def rd cr Let_def)
  moreover have "server_ready (lk_s l)"
    using assms(1,2) by (simp add: server_ready_def command_need_def create_request_def)
  ultimately have 1: "link_step opts csz ssz l (l\<lparr>lk_s := ?u\<rparr>)" by (intro lk_server_turn) simp_all
  have "lk_s ?l2 \<in> set (st_turn opts ?u)"
    using u assms(3,4) by (simp add: st_turn_def postWrite_def on_done_def ch_send_def ch_capacity_def)
  then have 2: "link_step opts csz ssz (l\<lparr>lk_s := ?u\<rparr>) ?l2"
    using lk_server_turn [of "l\<lparr>lk_s := ?u\<rparr>" "lk_s ?l2"] by (simp add: server_ready_def)
  show ?thesis using run_two [OF 1 2] .
qed

text \<open>The client reads the reply and gives its result to the call.\<close>

definition call_result :: "client_transport \<Rightarrow> nat \<Rightarrow> byte \<Rightarrow> gerr + nat" where
  "call_result c n code = create_value (call_id n) code (if code = 0 then Some (ct_next c) else None)"

definition given_result :: "client_transport \<Rightarrow> nat \<Rightarrow> byte \<Rightarrow> client_transport" where
  "given_result c n code =
     (ct_create_cmd c (call_id n) code)\<lparr>ct_calls := (ct_calls c)[n := CallRet (call_result c n code)], ct_pc := CCmd\<rparr>"

lemma results:
  assumes "ct_pc (lk_c l) = CCmd" "ct_in (lk_c l) = create_reply (call_id n) code" "\<not> bt_done (ct_base (lk_c l))"
    "\<not> ct_cancelled (lk_c l) n" "n < length (ct_calls (lk_c l))" "ct_calls (lk_c l) ! n = CallWait"
    "ct_keys (lk_c l) (call_id n) = Some \<lparr>kc_channel = None, kc_rw = Some n\<rparr>"
  shows "link_run opts csz ssz l (l\<lparr>lk_c := given_result ((lk_c l)\<lparr>ct_in := []\<rparr>) n code\<rparr>)" (is "link_run _ _ _ _ ?l2")
proof -
  let ?c = "(lk_c l)\<lparr>ct_in := []\<rparr>" and ?v = "if code = 0 then Some (ct_next (lk_c l)) else None"
  let ?d = "ct_create_cmd ?c (call_id n) code"
  have d: "ct_pc ?d = CResult n code ?v" "ct_calls ?d = ct_calls (lk_c l)" "ct_base ?d = ct_base (lk_c l)"
      "ct_cancelled ?d = ct_cancelled (lk_c l)"
    using assms(4,7) by (simp_all add: ct_create_cmd_def)
  have 1: "link_step opts csz ssz l (l\<lparr>lk_c := ?d\<rparr>)"
    using reply_read [OF assms(2,1)] by (intro lk_client_turn) simp_all
  have "lk_c ?l2 \<in> set (ct_turn ?d)"
    using d assms(3-6) by (simp add: ct_turn_def createResult_def result_cases_def given_result_def call_result_def)
  then have 2: "link_step opts csz ssz (l\<lparr>lk_c := ?d\<rparr>) ?l2"
    using lk_client_turn [of "l\<lparr>lk_c := ?d\<rparr>" "lk_c ?l2"] d(1) by (simp add: client_ready_def)
  show ?thesis using run_two [OF 1 2] .
qed

text \<open>An id that has not been used is new to the server.\<close>

lemma next_id_new:
  assumes "link_reachable opts csz ssz window l" "Suc (length (ct_calls (lk_c l))) < 2 ^ 64"
  shows "st_keys (lk_s l) (call_id (length (ct_calls (lk_c l)))) = None"
proof (rule ccontr)
  let ?n = "length (ct_calls (lk_c l))"
  assume "st_keys (lk_s l) (call_id ?n) \<noteq> None"
  then obtain a where a: "st_keys (lk_s l) (call_id ?n) = Some a" by blast
  obtain fs gs where inv: "link_inv opts csz ssz l fs gs" using link_reachable_inv [OF assms(1)] assms(2) by auto
  then have "table_ok (st_keys (lk_s l)) (st_heap (lk_s l)) (st_next (lk_s l))"
    by (simp add: link_inv_def parts_ok_def server_inv_def)
  from table_okE [OF this a] obtain s where "st_heap (lk_s l) a = Some s" "c_id s = call_id ?n" .
  then have "call_id ?n \<in> ran (server_ids l)" by (auto simp: server_ids_def chan_ids_def ran_def)
  then obtain m where "call_id ?n = call_id m" "past_send (lk_c l) m" using inv by (auto simp: link_inv_def calls_ok_def)
  then show False using call_id_inj [of ?n m] assms(2) by (auto simp: past_send_def)
qed

lemma create_run:
  assumes "at_rest l" "n = length (ct_calls (lk_c l))" "\<not> ct_cancelled (lk_c l) n"
    "st_create opts (lk_s l) (call_id n) = (u, code)"
  obtains l' where "link_run opts csz ssz l l'" "at_rest l'" "lk_c l' = given_result (requested (lk_c l)) n code" "lk_s l' = u"
proof -
  let ?c = "requested (lk_c l)" and ?f = "create_request (call_id n)" and ?g = "create_reply (call_id n) code"
  note rest = assms(1) [unfolded at_rest_def]
  have b: "(ct_base (lk_c l))\<lparr>bt_ch := []\<rparr> = ct_base (lk_c l)" "(st_base (lk_s l))\<lparr>bt_ch := []\<rparr> = st_base (lk_s l)"
    using rest by simp_all
  have u: "st_base u = st_base (lk_s l)" "st_pc u = SCmd" "st_in u = []"
    using assms(4) rest by (auto simp: st_create_def Let_def split: if_splits)
  have cu: "?c\<lparr>ct_base := ct_base (lk_c l)\<rparr> = ?c" "?c\<lparr>ct_in := []\<rparr> = ?c"
      "u\<lparr>st_base := st_base (lk_s l)\<rparr> = u" "(lk_s l)\<lparr>st_in := []\<rparr> = lk_s l"
    using rest u by (simp_all add: requested_def create_register_def create_start_def)
  define l1 where "l1 = l\<lparr>lk_c := ?c\<lparr>ct_base := (ct_base (lk_c l))\<lparr>bt_ch := [?f]\<rparr>\<rparr>\<rparr>"
  have 1: "link_run opts csz ssz l l1"
    unfolding l1_def assms(2) using requests [of l opts csz ssz] rest assms(2,3) by simp
  define l2 where "l2 = l\<lparr>lk_c := ?c, lk_cw := (lk_cw l)\<lparr>ws_pc := WWait, ws_buf := (fst (ws_buf (lk_cw l)) @ ?f, [])\<rparr>,
    lk_s := (lk_s l)\<lparr>st_in := ?f\<rparr>\<rparr>"
  have 2: "link_run opts csz ssz l1 l2"
    using client_run [of l1 ?f opts csz ssz] rest by (simp add: l1_def l2_def b cu)
  define l3 where "l3 = l2\<lparr>lk_s := u\<lparr>st_base := (st_base (lk_s l))\<lparr>bt_ch := [?g]\<rparr>\<rparr>\<rparr>"
  have 3: "link_run opts csz ssz l2 l3"
    using answers [of l2 "call_id n" opts u code csz ssz] rest assms(4) by (simp add: l2_def l3_def cu)
  define l4 where "l4 = l2\<lparr>lk_s := u,
    lk_sw := (lk_sw l)\<lparr>ws_pc := WWait, ws_buf := (fst (ws_buf (lk_sw l)) @ ?g, [])\<rparr>, lk_c := ?c\<lparr>ct_in := ?g\<rparr>\<rparr>"
  have 4: "link_run opts csz ssz l3 l4"
    using server_run [of l3 ?g opts csz ssz] rest by (simp add: l2_def l3_def l4_def b cu)
  define l5 where "l5 = l4\<lparr>lk_c := given_result ?c n code\<rparr>"
  have 5: "link_run opts csz ssz l4 l5"
    using results [of l4 n code opts csz ssz] rest assms(2,3)
    by (simp add: l2_def l4_def l5_def cu requested_keys)
  have c: "ct_base (given_result ?c n code) = ct_base (lk_c l)" "ct_in (given_result ?c n code) = []"
      "ct_pc (given_result ?c n code) = CCmd"
    using rest by (auto simp: given_result_def ct_create_cmd_def split: option.split)
  have "link_run opts csz ssz l l5" using 1 2 3 4 5 by simp
  moreover have "at_rest l5" using rest u c by (simp add: at_rest_def l5_def l4_def l2_def)
  ultimately show thesis using that by (simp add: l5_def l4_def)
qed

section \<open>Turns that have their bytes\<close>

lemma turns_end_dead: "st_pc t = SClean \<or> st_pc t = SDone \<Longrightarrow> (server_turn opts ^^ k) t t' \<Longrightarrow> st_pc t' = SClean \<or> st_pc t' = SDone"
proof (induction k arbitrary: t')
  case (Suc k)
  then obtain u where "st_pc u = SClean \<or> st_pc u = SDone" "server_turn opts u t'" by (auto elim: relpowp_Suc_E)
  then show ?case by (auto simp: server_turn_def st_turn_def)
qed simp

lemma unready_dies:
  assumes "server_turn opts t t'" "\<not> server_ready t"
  shows "st_pc t' = SClean"
proof -
  consider "st_pc t = SCmd" "length (st_in t) < command_need 9 (st_in t)"
    | cid sz mx where "st_pc t = SWrite cid sz mx" "\<not> min sz mx \<le> length (st_in t)"
    using assms(2) by (cases "st_pc t") (auto simp: server_ready_def simp del: min_le_iff_disj min_less_iff_conj)
  then show ?thesis
  proof cases
    case 1
    show ?thesis
    proof (cases "st_in t")
      case (Cons c r)
      then show ?thesis using 1 assms(1)
        by (auto simp: command_need_def server_turn_def st_turn_def st_command_def onPong_def ReadFull_def split: if_splits)
    qed (use 1 assms(1) in \<open>auto simp: server_turn_def st_turn_def st_command_def ReadFull_def\<close>)
  next
    case 2
    then have "\<exists>e. ReadFull (if sz > mx then mx else sz) (st_in t) = (st_in t, Some e, [])" "sz \<noteq> 0"
      using ReadFull_short [of "st_in t" "if sz > mx then mx else sz"] by (auto simp: min_def split: if_splits)
    then show ?thesis using 2 assms(1) by (auto simp: server_turn_def st_turn_def st_write_pass_def Let_def)
  qed
qed

text \<open>Turns of a loop that is still alive at the end have had all their bytes.\<close>

lemma turns_run:
  assumes "(server_turn opts ^^ k) t t'" "server_live t'" "lk_s l = t"
  shows "link_run opts csz ssz l (l\<lparr>lk_s := t'\<rparr>)"
  using assms(1,3)
proof (induction k arbitrary: t l)
  case 0
  then have "l\<lparr>lk_s := t'\<rparr> = l" by simp
  then show ?case by simp
next
  case (Suc k)
  from Suc.prems(1) obtain u where u: "server_turn opts t u" "(server_turn opts ^^ k) u t'" by (rule relpowp_Suc_E2)
  then have "server_ready t"
    using unready_dies [OF u(1)] turns_end_dead [of u k opts t'] assms(2) by (auto simp: server_live_def)
  then have "link_step opts csz ssz l (l\<lparr>lk_s := u\<rparr>)"
    using u(1) Suc.prems(2) by (intro lk_server_turn) (simp_all add: server_turn_def)
  moreover have "link_run opts csz ssz (l\<lparr>lk_s := u\<rparr>) (l\<lparr>lk_s := t'\<rparr>)"
    using Suc.IH [OF u(2), of "l\<lparr>lk_s := u\<rparr>"] by simp
  ultimately show ?case by (rule converse_rtranclp_into_rtranclp)
qed

section \<open>Bytes for a channel\<close>

text \<open>A turn of the client's read loop that has its bytes.\<close>

definition client_turn :: "client_transport \<Rightarrow> client_transport \<Rightarrow> bool" where
  "client_turn c c' \<longleftrightarrow> client_ready c \<and> c' \<in> set (ct_turn c)"

abbreviation client_turns :: "client_transport \<Rightarrow> client_transport \<Rightarrow> bool" where
  "client_turns \<equiv> client_turn\<^sup>*\<^sup>*"

lemma client_turns_run:
  assumes "client_turns c c'" "lk_c l = c"
  shows "link_run opts csz ssz l (l\<lparr>lk_c := c'\<rparr>)"
  using assms(1)
proof (induction rule: rtranclp_induct)
  case base
  then show ?case using assms(2) by auto
next
  case (step d e)
  then have "link_step opts csz ssz (l\<lparr>lk_c := d\<rparr>) (l\<lparr>lk_c := d\<rparr>\<lparr>lk_c := e\<rparr>)"
    by (intro lk_client_turn) (simp_all add: client_turn_def)
  then show ?case using step(3) by simp
qed

lemma client_write_run:
  assumes "ct_pc c = CWrite cid (length p) mx" "p \<noteq> [] \<longrightarrow> mx \<noteq> 0" "ct_in c = p @ r"
  shows "\<exists>ps. client_turns c (c\<lparr>ct_pc := CCmd, ct_in := r, ct_heap := pipe_pieces (ct_chans c cid) ps (ct_heap c)\<rparr>)
    \<and> concat ps = p"
  using assms
proof (induction "length p" arbitrary: c p rule: less_induct)
  case less
  show ?case
  proof (cases "p = []")
    case True
    then have "client_turn c (c\<lparr>ct_pc := CCmd, ct_in := r, ct_heap := pipe_pieces (ct_chans c cid) [] (ct_heap c)\<rparr>)"
      using less.prems
      by (cases "ct_chans c cid") (simp_all add: client_turn_def client_ready_def ct_turn_def ct_write_pass_def)
    then show ?thesis using True by (intro exI [of _ "[]"]) auto
  next
    case False
    define n where "n = (if length p > mx then mx else length p)"
    have n: "0 < n" "n \<le> length p" using less.prems(2) False by (auto simp: n_def)
    let ?d = "c\<lparr>ct_in := drop n p @ r, ct_pc := CWrite cid (length (drop n p)) mx,
      ct_heap := pipe_pieces (ct_chans c cid) [take n p] (ct_heap c)\<rparr>"
    have rd: "ReadFull n (p @ r) = (take n p, None, drop n p @ r)"
      using n ReadFull_append [of "take n p" n "drop n p @ r"] by (simp flip: append_assoc)
    have "ct_turn c = [?d]"
      using less.prems(1,3) False rd
      by (cases "ct_keys c cid")
        (auto simp: ct_turn_def ct_write_pass_def n_def [symmetric] Let_def ct_chans_def pipe_pieces_def split: option.split)
    moreover have "client_ready c" using less.prems(1,3) by (simp add: client_ready_def)
    ultimately have 1: "client_turn c ?d" by (simp add: client_turn_def)
    have "\<exists>ps. client_turns ?d (?d\<lparr>ct_pc := CCmd, ct_in := r, ct_heap := pipe_pieces (ct_chans ?d cid) ps (ct_heap ?d)\<rparr>)
        \<and> concat ps = drop n p"
      using n less.prems(2) False by (intro less.hyps) simp_all
    then obtain ps where "client_turns ?d (c\<lparr>ct_pc := CCmd, ct_in := r,
        ct_heap := pipe_pieces (ct_chans c cid) (take n p # ps) (ct_heap c)\<rparr>)" "concat ps = drop n p"
      using pipe_pieces_Cons [of "ct_chans c cid" _ "take n p" "ct_heap c"] by (auto simp: ct_chans_def)
    from converse_rtranclp_into_rtranclp [OF 1 this(1)] this(2) show ?thesis
      by (intro exI [of _ "take n p # ps"]) simp
  qed
qed

text \<open>A data frame, for whatever id.\<close>

lemma client_data_run:
  assumes "ct_pc c = CCmd" "ct_in c = write_frame cid p @ r" "length p \<le> MaxUint16"
  shows "\<exists>ps. client_turns c (c\<lparr>ct_in := r, ct_heap := pipe_pieces (ct_chans c cid) ps (ct_heap c)\<rparr>) \<and> concat ps = p"
proof -
  let ?d = "c\<lparr>ct_in := p @ r, ct_pc := CWrite cid (length p) (ct_write_max (length p))\<rparr>"
  have "ct_turn c = [?d]" "client_ready c"
    using assms
    by (simp_all add: ct_turn_def ct_command_def write_frame_def Let_def unat_of_nat_16 ReadFull_10_put client_ready_def
        command_need_def)
  then have 1: "client_turn c ?d" by (simp add: client_turn_def)
  have "p \<noteq> [] \<longrightarrow> ct_write_max (length p) \<noteq> 0" by (simp add: ct_write_max_def)
  then obtain ps where ps: "client_turns ?d (?d\<lparr>ct_pc := CCmd, ct_in := r, ct_heap := pipe_pieces (ct_chans ?d cid) ps (ct_heap ?d)\<rparr>)"
      "concat ps = p"
    using client_write_run [of ?d cid p "ct_write_max (length p)" r] by auto
  have "?d\<lparr>ct_pc := CCmd, ct_in := r, ct_heap := pipe_pieces (ct_chans ?d cid) ps (ct_heap ?d)\<rparr>
      = c\<lparr>ct_in := r, ct_heap := pipe_pieces (ct_chans c cid) ps (ct_heap c)\<rparr>"
    using assms(1) by (simp add: ct_chans_def)
  then show ?thesis using converse_rtranclp_into_rtranclp [OF 1 ps(1)] ps(2) by (intro exI [of _ ps]) simp
qed

lemma c_id_ch_Pipes: "c_id (foldl ch_Pipe c ps) = c_id c"
  by (induction ps arbitrary: c) simp_all

lemma client_data:
  assumes "ct_pc (lk_c l) = CCmd" "ct_in (lk_c l) = write_frame cid p" "length p \<le> MaxUint16"
    and "ct_chans (lk_c l) cid = Some a" "ct_heap (lk_c l) a = Some c" "has_room c (length p)"
  shows "\<exists>c'. link_run opts csz ssz l (l\<lparr>lk_c := (lk_c l)\<lparr>ct_in := [], ct_heap := (ct_heap (lk_c l))(a \<mapsto> c')\<rparr>\<rparr>)
    \<and> ch_held c' = ch_held c @ p \<and> c_closed c' = c_closed c \<and> c_id c' = c_id c"
proof -
  obtain ps where ps: "client_turns (lk_c l) ((lk_c l)\<lparr>ct_in := [], ct_heap := pipe_pieces (Some a) ps (ct_heap (lk_c l))\<rparr>)" "concat ps = p"
    using client_data_run [of "lk_c l" cid p "[]"] assms(1-4) by auto
  have "pipe_pieces (Some a) ps (ct_heap (lk_c l)) = (ct_heap (lk_c l))(a \<mapsto> foldl ch_Pipe c ps)"
    using assms(5) by (simp add: store_update_def)
  then show ?thesis
    using client_turns_run [OF ps(1) refl] ch_Pipes_room [of c ps] assms(6) ps(2) c_id_ch_Pipes
    by (intro exI [of _ "foldl ch_Pipe c ps"]) simp
qed

text \<open>The bytes that the goroutine of a channel takes cross the connection, in either direction.\<close>

lemma data_up:
  assumes "at_rest l" "ct_heap (lk_c l) a = Some c" "p \<noteq> []" "length p \<le> MaxUint16"
    "st_keys (lk_s l) (c_id c) = Some b" "st_heap (lk_s l) b = Some s" "has_room s (length p)"
  shows "\<exists>l' s'. link_run opts csz ssz l l' \<and> at_rest l' \<and> lk_c l' = lk_c l
    \<and> st_keys (lk_s l') = st_keys (lk_s l) \<and> st_base (lk_s l') = st_base (lk_s l)
    \<and> st_heap (lk_s l') = (st_heap (lk_s l))(b \<mapsto> s') \<and> ch_held s' = ch_held s @ p \<and> c_closed s' = c_closed s"
proof -
  let ?f = "write_frame (c_id c) p" and ?b = "ct_base (lk_c l)"
  note rest = assms(1) [unfolded at_rest_def]
  define l1 where "l1 = l\<lparr>lk_c := (lk_c l)\<lparr>ct_base := ?b\<lparr>bt_ch := [?f]\<rparr>\<rparr>\<rparr>"
  have "channel_frame c ?f" using assms(3,4) by (auto simp: channel_frame_def)
  from cl_frame [OF assms(2) this, of "?b\<lparr>bt_ch := [?f]\<rparr>"]
  have "link_step opts csz ssz l l1"
    using rest unfolding l1_def by (intro lk_client_local) (simp_all add: ch_send_def ch_capacity_def)
  then have 1: "link_run opts csz ssz l l1" by blast
  define l2 where "l2 = l\<lparr>lk_cw := (lk_cw l)\<lparr>ws_pc := WWait, ws_buf := (fst (ws_buf (lk_cw l)) @ ?f, [])\<rparr>,
    lk_s := (lk_s l)\<lparr>st_in := ?f\<rparr>\<rparr>"
  have b: "(lk_c l)\<lparr>ct_base := ?b\<lparr>bt_ch := []\<rparr>\<rparr> = lk_c l" using rest by simp
  have 2: "link_run opts csz ssz l1 l2"
    using client_run [of l1 ?f opts csz ssz] rest b by (simp add: l1_def l2_def)
  obtain k t' s' where t: "(server_turn opts ^^ k) (lk_s l2) t'" "st_pc t' = SCmd" "st_in t' = []"
      "st_keys t' = st_keys (lk_s l2)" "st_base t' = st_base (lk_s l2)" "st_heap t' = (st_heap (lk_s l2))(b \<mapsto> s')"
      "ch_held s' = ch_held s @ p" "c_closed s' = c_closed s"
    using server_data_routed [of "lk_s l2" "c_id c" p "[]" b s opts] rest assms(4-7) by (auto simp: l2_def)
  have 3: "link_run opts csz ssz l2 (l2\<lparr>lk_s := t'\<rparr>)"
    using turns_run [OF t(1)] t(2) by (simp add: server_live_def)
  have "at_rest (l2\<lparr>lk_s := t'\<rparr>)" using rest t by (simp add: at_rest_def l2_def)
  moreover have "link_run opts csz ssz l (l2\<lparr>lk_s := t'\<rparr>)" using 1 2 3 by simp
  ultimately show ?thesis using t by (intro exI [of _ "l2\<lparr>lk_s := t'\<rparr>"] exI [of _ s']) (simp add: l2_def)
qed

lemma data_down:
  assumes "at_rest l" "st_heap (lk_s l) b = Some s" "p \<noteq> []" "length p \<le> MaxUint16"
    "ct_chans (lk_c l) (c_id s) = Some a" "ct_heap (lk_c l) a = Some c" "has_room c (length p)"
  shows "\<exists>l' c'. link_run opts csz ssz l l' \<and> at_rest l' \<and> lk_s l' = lk_s l
    \<and> lk_c l' = (lk_c l)\<lparr>ct_heap := (ct_heap (lk_c l))(a \<mapsto> c')\<rparr> \<and> ch_held c' = ch_held c @ p
    \<and> c_closed c' = c_closed c \<and> c_id c' = c_id c"
proof -
  let ?f = "write_frame (c_id s) p" and ?b = "st_base (lk_s l)"
  note rest = assms(1) [unfolded at_rest_def]
  define l1 where "l1 = l\<lparr>lk_s := (lk_s l)\<lparr>st_base := ?b\<lparr>bt_ch := [?f]\<rparr>\<rparr>\<rparr>"
  have "channel_frame s ?f" using assms(3,4) by (auto simp: channel_frame_def)
  from sl_frame [OF assms(2) this, of "?b\<lparr>bt_ch := [?f]\<rparr>"]
  have "link_step opts csz ssz l l1"
    using rest unfolding l1_def by (intro lk_server_local) (simp_all add: ch_send_def ch_capacity_def)
  then have 1: "link_run opts csz ssz l l1" by blast
  define l2 where "l2 = l\<lparr>lk_sw := (lk_sw l)\<lparr>ws_pc := WWait, ws_buf := (fst (ws_buf (lk_sw l)) @ ?f, [])\<rparr>,
    lk_c := (lk_c l)\<lparr>ct_in := ?f\<rparr>\<rparr>"
  have b: "(lk_s l)\<lparr>st_base := ?b\<lparr>bt_ch := []\<rparr>\<rparr> = lk_s l" using rest by simp
  have 2: "link_run opts csz ssz l1 l2"
    using server_run [of l1 ?f opts csz ssz] rest b by (simp add: l1_def l2_def)
  obtain c' where c': "link_run opts csz ssz l2 (l2\<lparr>lk_c := (lk_c l2)\<lparr>ct_in := [], ct_heap := (ct_heap (lk_c l2))(a \<mapsto> c')\<rparr>\<rparr>)"
      "ch_held c' = ch_held c @ p" "c_closed c' = c_closed c" "c_id c' = c_id c"
    using client_data [of l2 "c_id s" p a c opts csz ssz] rest assms(4-7) by (auto simp: l2_def ct_chans_def)
  let ?l' = "l2\<lparr>lk_c := (lk_c l2)\<lparr>ct_in := [], ct_heap := (ct_heap (lk_c l2))(a \<mapsto> c')\<rparr>\<rparr>"
  have "at_rest ?l'" using rest by (simp add: at_rest_def l2_def)
  moreover have "link_run opts csz ssz l ?l'" using 1 2 c'(1) by simp
  moreover have "(lk_c l)\<lparr>ct_in := []\<rparr> = lk_c l" using rest by simp
  ultimately show ?thesis using c'(2-4) by (intro exI [of _ ?l'] exI [of _ c']) (simp add: l2_def)
qed

text \<open>The handler of a channel returns: the channel is closed at both ends, and its id is free again.\<close>

lemma close_down:
  assumes "at_rest l" "st_heap (lk_s l) b = Some s" "st_keys (lk_s l) (c_id s) = Some b"
    "ct_chans (lk_c l) (c_id s) = Some a" "ct_heap (lk_c l) a = Some c"
  shows "\<exists>l'. link_run opts csz ssz l l' \<and> at_rest l' \<and> st_keys (lk_s l') = (st_keys (lk_s l))(c_id s := None)
    \<and> ct_keys (lk_c l') = (ct_keys (lk_c l))(c_id s := None) \<and> ct_heap (lk_c l') a = Some (fst (ch_Close c))
    \<and> ct_calls (lk_c l') = ct_calls (lk_c l)"
proof -
  let ?f = "close_frame (c_id s)" and ?b = "st_base (lk_s l)"
  note rest = assms(1) [unfolded at_rest_def]
  define s1 where "s1 = (lk_s l)\<lparr>st_heap := store_update (st_heap (lk_s l)) b (\<lambda>c. fst (ch_Close c)),
    st_keys := (st_keys (lk_s l))(c_id s := None), st_closing := st_closing (lk_s l) @ [c_id s]\<rparr>"
  have "st_delete ((lk_s l)\<lparr>st_heap := store_update (st_heap (lk_s l)) b (\<lambda>c. fst (ch_Close c))\<rparr>) b = s1"
    using assms(2,3) by (simp add: st_delete_def s1_def)
  then have 1: "link_step opts csz ssz l (l\<lparr>lk_s := s1\<rparr>)"
    using sl_exit [OF assms(2)] by (intro lk_server_local) simp
  define s2 where "s2 = s1\<lparr>st_base := ?b\<lparr>bt_ch := [?f]\<rparr>, st_closing := st_closing (lk_s l)\<rparr>"
  have "server_local s1 s2"
    by (rule sl_closing [where i = "length (st_closing (lk_s l))"])
      (use rest in \<open>simp add: st_send_closing_def s1_def s2_def sendClose_def on_done_def ch_send_def ch_capacity_def\<close>)
  then have 2: "link_step opts csz ssz (l\<lparr>lk_s := s1\<rparr>) (l\<lparr>lk_s := s2\<rparr>)"
    using lk_server_local [of "l\<lparr>lk_s := s1\<rparr>" s2] by simp
  define l3 where "l3 = l\<lparr>lk_s := s2\<lparr>st_base := ?b\<rparr>, lk_sw := (lk_sw l)\<lparr>ws_pc := WWait, ws_buf := (fst (ws_buf (lk_sw l)) @ ?f, [])\<rparr>,
    lk_c := (lk_c l)\<lparr>ct_in := ?f\<rparr>\<rparr>"
  have b: "?b\<lparr>bt_ch := []\<rparr> = ?b" using rest by simp
  have 3: "link_run opts csz ssz (l\<lparr>lk_s := s2\<rparr>) l3"
    using server_run [of "l\<lparr>lk_s := s2\<rparr>" ?f opts csz ssz] rest b by (simp add: l3_def s2_def)
  define c4 where "c4 = ct_close_cmd ((lk_c l)\<lparr>ct_in := []\<rparr>) (c_id s)"
  obtain k where k: "ct_keys (lk_c l) (c_id s) = Some k" "kc_channel k = Some a"
    using assms(4) by (auto simp: ct_chans_def bind_eq_Some_conv)
  have rd: "ReadFull 8 (PutUint64 w) = (PutUint64 w, None, [])" "Uint64 (PutUint64 w) = w" for w
    using u64.ReadFull_put [of w "[]"] u64.get_exact by simp_all
  have "ct_turn (lk_c l3) = [c4]" "client_ready (lk_c l3)"
    using rest
    by (simp_all add: l3_def c4_def ct_turn_def ct_command_def close_frame_def rd client_ready_def command_need_def)
  then have 4: "link_step opts csz ssz l3 (l3\<lparr>lk_c := c4\<rparr>)" by (intro lk_client_turn) simp_all
  have run: "link_run opts csz ssz l (l3\<lparr>lk_c := c4\<rparr>)"
    using run_two [OF 1 2] 3 r_into_rtranclp [of "link_step opts csz ssz", OF 4] by (meson rtranclp_trans)
  have "at_rest (l3\<lparr>lk_c := c4\<rparr>)"
    using rest k by (simp add: at_rest_def l3_def c4_def ct_close_cmd_def s1_def s2_def)
  with run show ?thesis using k assms(5)
    by (intro exI [of _ "l3\<lparr>lk_c := c4\<rparr>"]) (simp add: l3_def s2_def s1_def c4_def ct_close_cmd_def store_update_def)
qed

lemma has_room_new: "n \<le> w \<Longrightarrow> has_room (newIOChannel i w rw) n"
  by (simp add: has_room_def newIOChannel_def NewPipeReader_def rw_new rw_capacity_new NewReadWriter_def rw_inv_def)

lemma new_channel_simps [simp]: "ch_held (newIOChannel i w rw) = []" "\<not> c_closed (newIOChannel i w rw)"
  by (simp_all add: newIOChannel_def NewPipeReader_def rw_new)

lemma closed_channel_simps [simp]: "ch_held (fst (ch_Close c)) = ch_held c" "c_closed (fst (ch_Close c))"
  by (simp_all add: ch_Close_def pr_Close_def)

lemma run_channel_id:
  assumes "link_reachable opts csz ssz window l" "length (ct_calls (lk_c l)) < 2 ^ 64" "st_keys (lk_s l) i = Some b"
    "st_heap (lk_s l) b = Some s"
  shows "c_id s = i"
proof -
  have "table_ok (st_keys (lk_s l)) (st_heap (lk_s l)) (st_next (lk_s l))"
    using link_reachable_inv [OF assms(1,2)] by (auto simp: link_inv_def parts_ok_def server_inv_def)
  from table_okE [OF this assms(3)] show ?thesis using assms(4) by auto
qed

text \<open>The table of the server is as full as its options allow.\<close>

definition channels_full :: "server_options \<Rightarrow> server_transport \<Rightarrow> bool" where
  "channels_full opts t \<longleftrightarrow> so_channels opts > 0 \<and> int (card (dom (st_keys t))) \<ge> so_channels opts"

text \<open>A connection that has just been made.\<close>

lemma small_link:
  "at_rest (link_start small_options 8)" "\<not> channels_full small_options (lk_s (link_start small_options 8))"
  "ct_calls (lk_c (link_start small_options 8)) = []" "ct_window (lk_c (link_start small_options 8)) = 8"
  "\<not> ct_cancelled (lk_c (link_start small_options 8)) 0"
  by (simp_all add: at_rest_def link_start_def start_client_def newServerTransport_def new_base_transport_def
      write_start_def channels_full_def)

section \<open>The properties\<close>

text \<open>
  C14: on a sound connection at rest a call of \<open>Create\<close> whose context does not end can return, whatever was
  created and closed before: with a new channel, of which the server has the counterpart and gives it to its
  handler, or with the error of the limit.  The connection is at rest again, ready for the next call.
\<close>

theorem create_succeeds:
  assumes "link_reachable opts csz ssz window l" "at_rest l"
    and "n = length (ct_calls (lk_c l))" "Suc n < 2 ^ 64" "\<not> ct_cancelled (lk_c l) n"
  shows "\<exists>l'. link_run opts csz ssz l l' \<and> at_rest l'
    \<and> (if channels_full opts (lk_s l)
       then ct_calls (lk_c l') = ct_calls (lk_c l) @ [CallRet (Inl (ErrText ''code=2 too many channels''))]
         \<and> lk_s l' = lk_s l
       else \<exists>a b. ct_calls (lk_c l') = ct_calls (lk_c l) @ [CallRet (Inr a)] \<and> ct_chans (lk_c l') (call_id n) = Some a
         \<and> ct_heap (lk_c l') a = Some (newIOChannel (call_id n) (unat (ct_window (lk_c l))) (unat (bt_window (ct_base (lk_c l)))))
         \<and> st_keys (lk_s l') (call_id n) = Some b \<and> st_handled (lk_s l') = st_handled (lk_s l) @ [b]
         \<and> st_heap (lk_s l') b = Some (newIOChannel (call_id n) (unat (so_window opts)) (unat (bt_window (st_base (lk_s l))))))"
proof -
  obtain u code where u: "st_create opts (lk_s l) (call_id n) = (u, code)" by (cases "st_create opts (lk_s l) (call_id n)")
  then obtain l' where l': "link_run opts csz ssz l l'" "at_rest l'" "lk_c l' = given_result (requested (lk_c l)) n code" "lk_s l' = u"
    using create_run [OF assms(2,3,5)] by blast
  have new: "st_keys (lk_s l) (call_id n) = None" using next_id_new [OF assms(1)] assms(3,4) by simp
  have k: "ct_keys (requested (lk_c l)) (call_id n) = Some \<lparr>kc_channel = None, kc_rw = Some n\<rparr>"
    using assms(3,5) by (simp add: requested_keys)
  note defs = st_create_def channels_full_def given_result_def call_result_def create_value_def ct_create_cmd_def ct_chans_def
  show ?thesis
  proof (cases "channels_full opts (lk_s l)")
    case True
    then show ?thesis using u new l' k assms(3,5) by (intro exI [of _ l']) (auto simp: defs split: if_splits)
  next
    case False
    then have s: "code = 0" "lk_s l' = (lk_s l)\<lparr>st_keys := (st_keys (lk_s l))(call_id n \<mapsto> st_next (lk_s l)),
        st_heap := (st_heap (lk_s l))(st_next (lk_s l) \<mapsto>
          newIOChannel (call_id n) (unat (so_window opts)) (unat (bt_window (st_base (lk_s l))))),
        st_next := Suc (st_next (lk_s l)), st_handled := st_handled (lk_s l) @ [st_next (lk_s l)]\<rparr>"
      using u new l'(4) by (auto simp: defs Let_def split: if_splits)
    have "call_result (requested (lk_c l)) n 0 = Inr (ct_next (lk_c l))" by (simp add: defs)
    then show ?thesis using False k assms(3,5) s l'(1,2)
      by (intro exI [of _ l'] conjI) (simp_all add: l'(3) given_result_def ct_create_cmd_def ct_chans_def)
  qed
qed

theorem create_succeeds_witness:
  "\<exists>l a. link_run small_options 16 16 (link_start small_options 8) l \<and> ct_calls (lk_c l) = [CallRet (Inr a)]"
  using create_succeeds [OF lr_start small_link(1), of 0 16 16] small_link by auto


end
