(* ===== verification/LinkFrames.thy ===== *)
theory LinkFrames
  imports LinkSession
begin

text \<open>
  What one read loop does with one frame, or with what it is at: it gets to the next command with at most one
  frame to send, which is worth less than the frame it has read.
\<close>

section \<open>Frames at the server\<close>

fun up_cost :: "peer_frame \<Rightarrow> nat" where
  "up_cost (InCreate cid) = 3"
| "up_cost (InConfirm cid v) = 2"
| "up_cost f = 1"

fun down_cost :: "down_frame \<Rightarrow> nat" where
  "down_cost (DnReply cid code) = 2"
| "down_cost (DnConfirm cid v) = 2"
| "down_cost g = 1"

text \<open>What the answer to something may cost, in frames to the other end: at most one, and less than \<open>n\<close>.\<close>

definition answer_ok :: "('f \<Rightarrow> bytes) \<Rightarrow> ('f \<Rightarrow> bool) \<Rightarrow> ('f \<Rightarrow> nat) \<Rightarrow> base_transport \<Rightarrow> base_transport \<Rightarrow> nat \<Rightarrow> bool" where
  "answer_ok enc ok cost b b' n \<longleftrightarrow>
     (\<exists>new. b' = b\<lparr>bt_ch := map enc new\<rparr> \<and> length new \<le> 1 \<and> (\<forall>g \<in> set new. ok g) \<and> sum_list (map cost new) < n)"

lemma answer_none: "bt_ch b = [] \<Longrightarrow> 0 < n \<Longrightarrow> answer_ok enc ok cost b b n"
  unfolding answer_ok_def by (intro exI [of _ "[]"]) simp

lemma answer_one: "ok g \<Longrightarrow> cost g < n \<Longrightarrow> answer_ok enc ok cost b (b\<lparr>bt_ch := [enc g]\<rparr>) n"
  unfolding answer_ok_def by (intro exI [of _ "[g]"]) simp

abbreviation server_answer :: "server_transport \<Rightarrow> server_transport \<Rightarrow> nat \<Rightarrow> bool" where
  "server_answer t t' n \<equiv> answer_ok down_bytes down_ok down_cost (st_base t) (st_base t') n"

text \<open>From any place between two commands, with the rest of a payload before it, the loop gets to the next command.\<close>

lemma server_settles:
  assumes "server_live t" "pc_ok (st_pc t)" "bt_ch (st_base t) = []" "\<not> bt_done (st_base t)"
    "st_in t = p @ r" "length p = server_debt t" "replies_wf t"
  shows "\<exists>t'. server_turns opts t t' \<and> st_pc t' = SCmd \<and> st_in t' = r \<and> server_answer t t' 3"
proof (cases "st_pc t")
  case SCmd
  then show ?thesis using assms by (intro exI [of _ t]) (simp add: server_debt_def answer_none)
next
  case (SReply data)
  then obtain cid code where d: "data = create_reply cid code"
    using assms(7) by (auto simp: replies_wf_def waiting_def reply_frame_def)
  let ?t = "t\<lparr>st_base := (st_base t)\<lparr>bt_ch := [data]\<rparr>, st_pc := SCmd\<rparr>"
  have "?t \<in> set (st_turn opts t)"
    using SReply assms(3,4) by (simp add: st_turn_def postWrite_def on_done_def ch_send_def ch_capacity_def)
  then have "server_turns opts t ?t" by (simp add: server_turn_def r_into_rtranclp)
  moreover have "server_answer t ?t 3"
    using answer_one [of down_ok "DnReply cid code" down_cost 3 down_bytes "st_base t"] by (simp add: d)
  ultimately show ?thesis using SReply assms(5,6) by (intro exI [of _ ?t]) (simp add: server_debt_def)
next
  case (SWrite cid sz mx)
  then have "st_pc t = SWrite cid (length p) mx" "length p \<noteq> 0 \<longrightarrow> mx \<noteq> 0"
    using assms(2,6) by (simp_all add: server_debt_def pc_ok_def)
  from write_run [OF this assms(5), of opts] obtain k ps where
    "(server_turn opts ^^ k) t (t\<lparr>st_in := r, st_pc := SCmd, st_heap := pipe_pieces (st_keys t cid) ps (st_heap t)\<rparr>)" by blast
  from relpowp_imp_rtranclp [OF this] show ?thesis
    by (intro exI conjI) (assumption | simp add: answer_none [OF assms(3)])+
next
  case (SSendClose cid)
  let ?t = "t\<lparr>st_base := (st_base t)\<lparr>bt_ch := [close_frame cid]\<rparr>, st_pc := SCmd\<rparr>"
  have "?t \<in> set (st_turn opts t)"
    using SSendClose assms(3,4) by (simp add: st_turn_def sendClose_def on_done_def ch_send_def ch_capacity_def)
  then have "server_turns opts t ?t" by (simp add: server_turn_def r_into_rtranclp)
  moreover have "server_answer t ?t 3"
    using answer_one [of down_ok "DnClose cid" down_cost 3 down_bytes "st_base t"] by simp
  ultimately show ?thesis using SSendClose assms(5,6) by (intro exI [of _ ?t]) (simp add: server_debt_def)
qed (use assms(1) in \<open>simp_all add: server_live_def\<close>)

text \<open>The two frames that are answered, and the others.\<close>

lemma server_takes_create:
  assumes "st_pc t = SCmd" "st_in t = create_request cid @ r" "bt_ch (st_base t) = []" "\<not> bt_done (st_base t)"
  shows "\<exists>t'. server_turns opts t t' \<and> st_pc t' = SCmd \<and> st_in t' = r \<and> server_answer t t' 3"
proof -
  have one: "server_turns opts t u" if "st_turn opts t = [u]" for u
    using that by (simp add: server_turn_def r_into_rtranclp)
  obtain u code where u: "st_create opts (t\<lparr>st_in := PutUint64 cid @ r\<rparr>) cid = (u, code)" by force
  let ?u = "u\<lparr>st_in := r, st_pc := SReply (create_reply cid code)\<rparr>"
  let ?t = "?u\<lparr>st_base := (st_base t)\<lparr>bt_ch := [create_reply cid code]\<rparr>, st_pc := SCmd\<rparr>"
  have base: "st_base u = st_base t" using u by (auto simp: st_create_def Let_def split: if_splits)
  have "st_turn opts t = [?u]"
    using assms(1,2) u by (simp add: st_turn_def st_command_def Let_def create_request_def)
  moreover have "?t \<in> set (st_turn opts ?u)"
    using base assms(3,4) by (simp add: st_turn_def postWrite_def on_done_def ch_send_def ch_capacity_def)
  ultimately have "server_turns opts t ?t" by (meson one rtranclp.rtrancl_into_rtrancl server_turn_def)
  moreover have "server_answer t ?t 3"
    using answer_one [of down_ok "DnReply cid code" down_cost 3 down_bytes "st_base t"] by simp
  ultimately show ?thesis by (intro exI [of _ ?t]) simp
qed

lemma server_takes_confirm:
  assumes "st_pc t = SCmd" "st_in t = confirm_frame cid v @ r" "server_inv opts t" "bt_ch (st_base t) = []"
    "\<not> bt_done (st_base t)"
  shows "\<exists>t'. server_turns opts t t' \<and> st_pc t' = SCmd \<and> st_in t' = r \<and> server_answer t t' 2"
proof -
  let ?r = "t\<lparr>st_in := r\<rparr>"
  have turn: "st_turn opts t = st_confirm ?r cid v"
    using assms(1,2) by (simp add: st_turn_def st_command_def confirm_frame_def Let_def ReadFull_10_put [of cid v r])
  have "table_ok (st_keys ?r) (st_heap ?r) (st_next ?r)" using assms(3) by (simp add: server_inv_def)
  then obtain u where u: "u \<in> set (st_confirm ?r cid v)" using st_confirm_returns by (metis ex_in_conv set_empty)
  then have b: "st_base u = st_base t" "st_in u = r" "st_pc u = SCmd \<or> st_pc u = SSendClose cid"
    by (auto simp: st_confirm_def split: option.splits if_splits)
  have run: "server_turns opts t u" using u turn by (simp add: server_turn_def r_into_rtranclp)
  show ?thesis
  proof (cases "st_pc u = SCmd")
    case True
    then show ?thesis using run b
      by (intro exI [of _ u]) (simp add: answer_none [OF assms(4)])
  next
    case False
    let ?t = "u\<lparr>st_base := (st_base t)\<lparr>bt_ch := [close_frame cid]\<rparr>, st_pc := SCmd\<rparr>"
    have "?t \<in> set (st_turn opts u)"
      using False b assms(4,5) by (simp add: st_turn_def sendClose_def on_done_def ch_send_def ch_capacity_def)
    then have "server_turns opts t ?t" using run by (meson rtranclp.rtrancl_into_rtrancl server_turn_def)
    moreover have "server_answer t ?t 2"
      using answer_one [of down_ok "DnClose cid" down_cost 2 down_bytes "st_base t"] by simp
    ultimately show ?thesis using b by (intro exI [of _ ?t]) simp
  qed
qed

lemma server_takes:
  assumes "st_pc t = SCmd" "st_in t = frame_bytes f @ r" "up_ok f" "server_inv opts t"
    "bt_ch (st_base t) = []" "\<not> bt_done (st_base t)"
  shows "\<exists>t'. server_turns opts t t' \<and> st_pc t' = SCmd \<and> st_in t' = r \<and> server_answer t t' (up_cost f)"
proof -
  have one: "server_turns opts t u" if "st_turn opts t = [u]" for u
    using that by (simp add: server_turn_def r_into_rtranclp)
  have ten: "ReadFull 10 (PutUint64 cid @ PutUint16 w @ s) = (PutUint64 cid @ PutUint16 w, None, s)" for cid w s
    by (rule ReadFull_10_put)
  show ?thesis
  proof (cases f)
    case InPing
    then show ?thesis using assms(1,2) one [of "t\<lparr>st_in := r\<rparr>"]
      by (intro exI [of _ "t\<lparr>st_in := r\<rparr>"]) (simp add: st_turn_def st_command_def answer_none [OF assms(5)])
  next
    case (InPong p)
    then show ?thesis using assms(3) by simp
  next
    case (InCreate cid)
    then show ?thesis using server_takes_create [of t cid r opts] assms by simp
  next
    case (InClose cid)
    let ?t = "(st_close_cmd (t\<lparr>st_in := PutUint64 cid @ r\<rparr>) cid)\<lparr>st_in := r\<rparr>"
    have "st_base ?t = st_base t" "st_pc ?t = st_pc t" by (simp_all add: st_close_cmd_def split: option.split)
    moreover have "st_turn opts t = [?t]"
      using assms(1,2) InClose by (simp add: st_turn_def st_command_def Let_def close_frame_def)
    ultimately show ?thesis using one [of ?t] assms(1) InClose
      by (intro exI [of _ ?t]) (simp add: answer_none [OF assms(5)])
  next
    case (InData cid b)
    let ?u = "t\<lparr>st_in := b @ r, st_pc := SWrite cid (length b) (write_max (length b))\<rparr>"
    have "st_turn opts t = [?u]"
      using assms(1-3) InData by (simp add: st_turn_def st_command_def write_frame_def Let_def unat_of_nat_16 ten)
    moreover have "length b \<noteq> 0 \<longrightarrow> write_max (length b) \<noteq> 0" by (simp add: write_max_def)
    then obtain k ps where "(server_turn opts ^^ k) ?u
        (?u\<lparr>st_in := r, st_pc := SCmd, st_heap := pipe_pieces (st_keys t cid) ps (st_heap t)\<rparr>)"
      using write_run [of ?u cid b "write_max (length b)" r opts] by auto
    ultimately have "server_turns opts t (?u\<lparr>st_in := r, st_pc := SCmd, st_heap := pipe_pieces (st_keys t cid) ps (st_heap t)\<rparr>)"
      using one relpowp_imp_rtranclp by (metis rtranclp_trans)
    then show ?thesis by (intro exI conjI) (assumption | simp add: InData answer_none [OF assms(5)])+
  next
    case (InConfirm cid v)
    then show ?thesis using server_takes_confirm [of t cid v r opts] assms by simp
  qed
qed

section \<open>Frames at the client\<close>

abbreviation client_answer :: "client_transport \<Rightarrow> client_transport \<Rightarrow> nat \<Rightarrow> bool" where
  "client_answer c c' n \<equiv> answer_ok frame_bytes up_ok up_cost (ct_base c) (ct_base c') n"

text \<open>The loop is at the next command, or it has panicked; the contexts and the number of calls are what they were.\<close>

definition client_done :: "client_transport \<Rightarrow> client_transport \<Rightarrow> bytes \<Rightarrow> nat \<Rightarrow> bool" where
  "client_done c c' r n \<longleftrightarrow>
     client_turns c c' \<and> ct_cancelled c' = ct_cancelled c \<and> length (ct_calls c') = length (ct_calls c)
     \<and> (ct_pc c' = CPanic \<or> ct_pc c' = CCmd \<and> ct_in c' = r \<and> client_answer c c' n)"

lemma client_doneI:
  "client_turns c c' \<Longrightarrow> ct_cancelled c' = ct_cancelled c \<Longrightarrow> length (ct_calls c') = length (ct_calls c) \<Longrightarrow>
    ct_pc c' = CCmd \<Longrightarrow> ct_in c' = r \<Longrightarrow> client_answer c c' n \<Longrightarrow> client_done c c' r n"
  by (simp add: client_done_def)

lemma client_turnI: "client_ready c \<Longrightarrow> c' \<in> set (ct_turn c) \<Longrightarrow> client_turns c c'"
  by (simp add: client_turn_def r_into_rtranclp)

lemma ready_pc: "\<forall>cid sz mx. ct_pc c \<noteq> CWrite cid sz mx \<Longrightarrow> ct_pc c \<noteq> CCmd \<Longrightarrow> client_ready c"
  by (cases "ct_pc c") (auto simp: client_ready_def)

text \<open>The places behind a command: a close frame to send, a result to hand over.\<close>

lemma client_sends_close:
  assumes "ct_pc c = CSendClose cid" "bt_ch (ct_base c) = []" "1 < n"
  shows "\<exists>c'. client_done c c' (ct_in c) n"
proof -
  let ?c = "c\<lparr>ct_base := (ct_base c)\<lparr>bt_ch := [close_frame cid]\<rparr>, ct_pc := CCmd\<rparr>"
  have "?c \<in> set (ct_turn c)"
    using assms(1,2) by (simp add: ct_turn_def sendClose_def on_done_def ch_send_def ch_capacity_def)
  then have "client_turns c ?c" by (intro client_turnI ready_pc) (simp_all add: assms(1))
  moreover have "client_answer c ?c n"
    using answer_one [of up_ok "InClose cid" up_cost n frame_bytes "ct_base c"] assms(3) by simp
  ultimately show ?thesis by (intro exI [of _ ?c] client_doneI) simp_all
qed

lemma client_gives_result:
  assumes "ct_pc c = CResult m code v" "bt_ch (ct_base c) = []" "\<not> bt_done (ct_base c)" "\<not> ct_cancelled c m" "0 < n"
  shows "\<exists>c'. client_done c c' (ct_in c) n"
proof -
  have ready: "client_ready c" by (intro ready_pc) (simp_all add: assms(1))
  define now where "now \<longleftrightarrow> m < length (ct_calls c) \<and> ct_calls c ! m = CallWait"
  define c' where "c' = (if now then c\<lparr>ct_calls := (ct_calls c)[m := CallRet (create_value (call_id m) code v)], ct_pc := CCmd\<rparr>
    else c\<lparr>ct_late := ct_late c @ [(m, code, v)], ct_pc := CCmd\<rparr>)"
  have "c' \<in> set (ct_turn c)"
    using assms(1,3,4) by (simp add: ct_turn_def createResult_def result_cases_def now_def [symmetric] c'_def)
  then have "client_turns c c'" by (rule client_turnI [OF ready])
  then show ?thesis using assms(2,5) by (intro exI [of _ c'] client_doneI) (simp_all add: c'_def answer_none)
qed

lemma client_done_after:
  assumes "client_turns c d" "client_done d c' r n" "ct_base d = ct_base c" "ct_cancelled d = ct_cancelled c"
    "length (ct_calls d) = length (ct_calls c)"
  shows "client_done c c' r n"
  using assms unfolding client_done_def by (auto intro: rtranclp_trans)

text \<open>A payload that is not at its end has a buffer.\<close>

definition cpc_ok :: "client_pc \<Rightarrow> bool" where
  "cpc_ok p = (case p of CWrite cid sz mx \<Rightarrow> sz \<noteq> 0 \<longrightarrow> mx \<noteq> 0 | _ \<Rightarrow> True)"

lemma cpc_ok_simps [simp]:
  "cpc_ok CCmd" "cpc_ok (CResult n code v)" "cpc_ok (CSendClose cid)" "cpc_ok CClean" "cpc_ok CDone" "cpc_ok CPanic"
  by (simp_all add: cpc_ok_def)

lemma client_settles:
  assumes "client_live c" "cpc_ok (ct_pc c)" "bt_ch (ct_base c) = []"
    "\<not> bt_done (ct_base c)" "\<forall>m. \<not> ct_cancelled c m" "ct_in c = p @ r" "length p = client_debt c"
  shows "\<exists>c'. client_done c c' r 3"
proof (cases "ct_pc c")
  case CCmd
  then show ?thesis using assms by (intro exI [of _ c] client_doneI) (simp_all add: client_debt_def answer_none)
next
  case (CResult m code v)
  then show ?thesis using client_gives_result [OF CResult assms(3,4), of 3] assms(5-7) by (simp add: client_debt_def)
next
  case (CWrite cid sz mx)
  then have "ct_pc c = CWrite cid (length p) mx" "p \<noteq> [] \<longrightarrow> mx \<noteq> 0"
    using assms(2,7) by (auto simp: client_debt_def cpc_ok_def)
  from client_write_run [OF this assms(6)] obtain ps where
    "client_turns c (c\<lparr>ct_pc := CCmd, ct_in := r, ct_heap := pipe_pieces (ct_chans c cid) ps (ct_heap c)\<rparr>)" by blast
  then show ?thesis by (intro exI client_doneI) (assumption | simp add: answer_none [OF assms(3)])+
next
  case (CSendClose cid)
  then show ?thesis using client_sends_close [OF CSendClose assms(3), of 3] assms(6,7) by (simp add: client_debt_def)
qed (use assms(1) in \<open>simp_all add: client_live_def\<close>)

lemma client_takes_reply:
  assumes "ct_pc c = CCmd" "ct_in c = create_reply cid code @ r" "bt_ch (ct_base c) = []" "\<not> bt_done (ct_base c)"
    "\<forall>m. \<not> ct_cancelled c m"
  shows "\<exists>c'. client_done c c' r 2"
proof -
  have ready: "client_ready c" using assms(1,2) by (simp add: client_ready_def command_need_def create_reply_def)
  have rd: "ReadFull 9 (PutUint64 cid @ code # r) = (PutUint64 cid @ [code], None, r)"
    using ReadFull_append2 [of "PutUint64 cid" "[code]" 9 r] by simp
  moreover have "Uint64 (PutUint64 cid @ [code]) = cid" "(PutUint64 cid @ [code]) ! 8 = code"
    using u64.get_put [of cid "[code]"] by (simp_all add: nth_append)
  ultimately have turn: "ct_turn c = [ct_create_cmd (c\<lparr>ct_in := r\<rparr>) cid code]" (is "_ = [?d]")
    using assms(1,2) by (simp add: ct_turn_def ct_command_def create_reply_def)
  have d: "ct_in ?d = r" "ct_base ?d = ct_base c" "ct_cancelled ?d = ct_cancelled c" "ct_calls ?d = ct_calls c"
    by (auto simp: ct_create_cmd_def split: option.split)
  have run: "client_turns c ?d" using turn by (intro client_turnI [OF ready]) simp
  have "\<exists>c'. client_done ?d c' r 2"
  proof (cases "ct_pc ?d")
    case (CSendClose i)
    then show ?thesis using client_sends_close [OF CSendClose, of 2] d assms(3) by simp
  next
    case (CResult m x v)
    then show ?thesis using client_gives_result [OF CResult, of 2] d assms(3-5) by simp
  next
    case CPanic
    then have "client_done ?d ?d r 2" by (simp add: client_done_def)
    then show ?thesis ..
  qed (use assms(1) in \<open>auto simp: ct_create_cmd_def split: option.splits if_splits\<close>)
  then show ?thesis using client_done_after [OF run _ d(2,3)] d(4) by auto
qed

lemma client_takes_confirm:
  assumes "ct_pc c = CCmd" "ct_in c = confirm_frame cid v @ r" "client_inv c" "bt_ch (ct_base c) = []"
  shows "\<exists>c'. client_done c c' r 2"
proof -
  have ready: "client_ready c" using assms(1,2) by (simp add: client_ready_def command_need_def confirm_frame_def)
  let ?r = "c\<lparr>ct_in := r\<rparr>"
  have turn: "ct_turn c = ct_confirm ?r cid v"
    using assms(1,2) by (simp add: ct_turn_def ct_command_def confirm_frame_def ReadFull_10_put [of cid v r])
  have ok: "table_ok (ct_chans c) (ct_heap c) (ct_next c)" using assms(3) by (simp add: client_inv_def core_inv_def)
  have "ct_confirm ?r cid v \<noteq> []"
    using table_okE [OF ok, of cid] by (fastforce simp: ct_confirm_def ct_chans_def Confirm_returns split: option.splits)
  then obtain u where u: "u \<in> set (ct_confirm ?r cid v)" by (metis ex_in_conv set_empty)
  then have b: "ct_base u = ct_base c" "ct_in u = r" "ct_cancelled u = ct_cancelled c" "ct_calls u = ct_calls c"
      "ct_pc u = CCmd \<or> ct_pc u = CSendClose cid"
    using assms(1) by (auto simp: ct_confirm_def split: option.splits if_splits)
  have run: "client_turns c u" using u turn by (intro client_turnI [OF ready]) simp
  have "\<exists>c'. client_done u c' r 2"
    using b(5)
  proof
    assume "ct_pc u = CCmd"
    then show ?thesis using b assms(4) by (intro exI [of _ u] client_doneI) (simp_all add: answer_none)
  next
    assume "ct_pc u = CSendClose cid"
    from client_sends_close [OF this, of 2] show ?thesis using b assms(4) by simp
  qed
  then show ?thesis using client_done_after [OF run _ b(1,3)] b(4) by auto
qed

lemma client_takes:
  assumes "ct_pc c = CCmd" "ct_in c = down_bytes g @ r" "down_ok g" "client_inv c" "bt_ch (ct_base c) = []"
    "\<not> bt_done (ct_base c)" "\<forall>m. \<not> ct_cancelled c m"
  shows "\<exists>c'. client_done c c' r (down_cost g)"
proof -
  have ready: "client_ready c" using assms(1-3)
    by (cases g) (simp_all add: client_ready_def command_need_def create_reply_def close_frame_def write_frame_def
        confirm_frame_def)
  have one: "client_turns c u" if "ct_turn c = [u]" for u using client_turnI [OF ready] that by simp
  have same: "client_done c u r (down_cost g)"
    if "ct_turn c = [u]" "ct_pc u = CCmd" "ct_in u = r" "ct_base u = ct_base c" "ct_cancelled u = ct_cancelled c"
      "ct_calls u = ct_calls c" for u
    using that one [of u] by (intro client_doneI) (cases g; simp add: answer_none assms(5))+
  show ?thesis
  proof (cases g)
    case DnPing
    then show ?thesis using assms(1,2) same [of "c\<lparr>ct_in := r\<rparr>"] by (auto simp: ct_turn_def ct_command_def)
  next
    case (DnPong p)
    then show ?thesis using assms(3) by simp
  next
    case (DnReply cid code)
    then show ?thesis using client_takes_reply [of c cid code r] assms by simp
  next
    case (DnClose cid)
    let ?d = "ct_close_cmd (c\<lparr>ct_in := r\<rparr>) cid"
    have "ct_turn c = [?d]" using assms(1,2) DnClose by (simp add: ct_turn_def ct_command_def close_frame_def)
    moreover have "ct_pc ?d = CCmd" "ct_in ?d = r" "ct_base ?d = ct_base c" "ct_cancelled ?d = ct_cancelled c"
      "ct_calls ?d = ct_calls c"
      using assms(1) by (simp_all add: ct_close_cmd_def split: option.split)
    ultimately show ?thesis using same by blast
  next
    case (DnData cid b)
    then obtain ps where "client_turns c (c\<lparr>ct_in := r, ct_heap := pipe_pieces (ct_chans c cid) ps (ct_heap c)\<rparr>)"
      using client_data_run [of c cid b r] assms(1-3) by auto
    then show ?thesis using assms(1) DnData
      by (intro exI client_doneI) (assumption | simp add: answer_none [OF assms(5)])+
  next
    case (DnConfirm cid v)
    then show ?thesis using client_takes_confirm [of c cid v r] assms by simp
  qed
qed

end
