(* ===== verification/LinkLive.thy ===== *)
theory LinkLive
  imports LinkFrames
begin

text \<open>
  A sound connection is never stuck: from every state that can be reached, whatever is on its way, some schedule
  of the read loops and the writers handles all of it.  Each frame is worth more than the frame that its
  reader may send for it, so the rounds come to an end.
\<close>

section \<open>Writers\<close>

text \<open>What a writer keeps of its buffer.\<close>

definition writer_ok :: "nat \<Rightarrow> write_state \<Rightarrow> bool" where
  "writer_ok sz w \<longleftrightarrow> (sz = 0 \<or> ws_pc w = WWait \<longrightarrow> snd (ws_buf w) = [])"

lemma writer_ok_step: "write_step sz (t, w) (t', w') \<Longrightarrow> writer_ok sz w \<Longrightarrow> writer_ok sz w'"
  by (erule write_step.cases) (auto simp: writer_ok_def buf_Write_empty buf_Flush_eq)

lemma writers_ok: "link_reachable opts csz ssz window l \<Longrightarrow> writer_ok csz (lk_cw l) \<and> writer_ok ssz (lk_sw l)"
proof (induction rule: link_reachable.induct)
  case lr_start
  then show ?case by (simp add: link_start_def write_start_def writer_ok_def)
next
  case (lr_step l l')
  from lr_step(2,3) show ?case by (induction rule: link_step.induct) (auto dest: writer_ok_step)
qed

definition flushed :: "write_state \<Rightarrow> bool" where
  "flushed w \<longleftrightarrow> ws_pc w = WWait \<and> snd (ws_buf w) = []"

lemma writer_takes:
  assumes "bt_ch t = f # fs" "ws_pc w \<noteq> WExit" "writer_ok sz w"
  obtains w1 where "write_step sz (t, w) (t\<lparr>bt_ch := fs\<rparr>, w1)" "ws_pc w1 = WMerge" "writer_ok sz w1"
    "written w w1 @ snd (ws_buf w1) = snd (ws_buf w) @ f"
proof -
  let ?w = "w\<lparr>ws_buf := buf_Write sz (ws_buf w) f, ws_pc := WMerge\<rparr>"
  have "ws_pc w = WWait \<or> ws_pc w = WMerge" using assms(2) by (cases "ws_pc w") simp_all
  then have 1: "write_step sz (t, w) (t\<lparr>bt_ch := fs\<rparr>, ?w)" using assms(1) by (rule w_take)
  have "written w ?w @ snd (ws_buf ?w) = snd (ws_buf w) @ f"
    using written_step [OF 1] assms(1,3) by (simp add: writer_ok_def)
  then show thesis using that [OF 1] writer_ok_step [OF 1 assms(3)] by simp
qed

lemma writer_flushes:
  assumes "bt_ch t = []" "ws_pc w = WMerge" "\<not> bt_done t" "writer_ok sz w"
  obtains w1 where "write_step sz (t, w) (t, w1)" "flushed w1" "written w w1 = snd (ws_buf w)"
proof -
  let ?w = "w\<lparr>ws_buf := (if sz > 0 then buf_Flush (ws_buf w) else ws_buf w), ws_pc := WWait\<rparr>"
  have 1: "write_step sz (t, w) (t, ?w)" using assms(2,1,3) by (rule w_flush)
  have ok: "writer_ok sz ?w" by (rule writer_ok_step [OF 1 assms(4)])
  then have "written w ?w = snd (ws_buf w)"
    using written_step [OF 1] assms(1,4) by (auto simp: writer_ok_def)
  then show thesis using that [OF 1] ok by (simp add: flushed_def writer_ok_def)
qed

lemma client_flushes:
  assumes "bt_ch (ct_base (lk_c l)) = fs" "ws_pc (lk_cw l) \<noteq> WExit" "writer_ok csz (lk_cw l)"
    "\<not> bt_done (ct_base (lk_c l))" "\<not> lk_up_cut l" "ct_pc (lk_c l) \<noteq> CPanic"
  shows "\<exists>w. flushed w \<and> link_run opts csz ssz l
    (l\<lparr>lk_c := (lk_c l)\<lparr>ct_base := (ct_base (lk_c l))\<lparr>bt_ch := []\<rparr>\<rparr>, lk_cw := w,
       lk_s := (lk_s l)\<lparr>st_in := st_in (lk_s l) @ snd (ws_buf (lk_cw l)) @ concat fs\<rparr>\<rparr>)"
  using assms
proof (induction fs arbitrary: l)
  case Nil
  have b: "(ct_base (lk_c l))\<lparr>bt_ch := []\<rparr> = ct_base (lk_c l)" "(lk_c l)\<lparr>ct_base := ct_base (lk_c l)\<rparr> = lk_c l"
    using Nil.prems(1) by simp_all
  show ?case
  proof (cases "ws_pc (lk_cw l)")
    case WWait
    then have "flushed (lk_cw l)" using Nil.prems(3) by (simp add: writer_ok_def flushed_def)
    then show ?thesis using b by (intro exI [of _ "lk_cw l"]) (simp add: flushed_def)
  next
    case WMerge
    obtain w1 where w: "write_step csz (ct_base (lk_c l), lk_cw l) (ct_base (lk_c l), w1)" "flushed w1"
        "written (lk_cw l) w1 = snd (ws_buf (lk_cw l))"
      by (rule writer_flushes [OF Nil.prems(1) WMerge Nil.prems(4,3)])
    from lk_client_write [OF Nil.prems(6) w(1)] have "link_run opts csz ssz l
        (l\<lparr>lk_c := (lk_c l)\<lparr>ct_base := ct_base (lk_c l)\<rparr>, lk_cw := w1,
          lk_s := (lk_s l)\<lparr>st_in := st_in (lk_s l) @ (if lk_up_cut l then [] else written (lk_cw l) w1)\<rparr>\<rparr>)" by blast
    then show ?thesis using w b Nil.prems(5) by (intro exI [of _ w1]) simp
  qed (use Nil.prems(2) in simp)
next
  case (Cons f fs)
  obtain w1 where w: "write_step csz (ct_base (lk_c l), lk_cw l) ((ct_base (lk_c l))\<lparr>bt_ch := fs\<rparr>, w1)" "ws_pc w1 = WMerge"
      "writer_ok csz w1" "written (lk_cw l) w1 @ snd (ws_buf w1) = snd (ws_buf (lk_cw l)) @ f"
    by (rule writer_takes [OF Cons.prems(1-3)])
  define l1 where "l1 = l\<lparr>lk_c := (lk_c l)\<lparr>ct_base := (ct_base (lk_c l))\<lparr>bt_ch := fs\<rparr>\<rparr>, lk_cw := w1,
    lk_s := (lk_s l)\<lparr>st_in := st_in (lk_s l) @ written (lk_cw l) w1\<rparr>\<rparr>"
  have 1: "link_step opts csz ssz l l1"
    using lk_client_write [OF Cons.prems(6) w(1), of opts ssz] Cons.prems(5) by (simp add: l1_def)
  have "\<exists>w. flushed w \<and> link_run opts csz ssz l1
    (l1\<lparr>lk_c := (lk_c l1)\<lparr>ct_base := (ct_base (lk_c l1))\<lparr>bt_ch := []\<rparr>\<rparr>, lk_cw := w,
       lk_s := (lk_s l1)\<lparr>st_in := st_in (lk_s l1) @ snd (ws_buf (lk_cw l1)) @ concat fs\<rparr>\<rparr>)"
    using Cons.prems w by (intro Cons.IH) (simp_all add: l1_def)
  then obtain w' where w': "flushed w'" "link_run opts csz ssz l1
    (l1\<lparr>lk_c := (lk_c l1)\<lparr>ct_base := (ct_base (lk_c l1))\<lparr>bt_ch := []\<rparr>\<rparr>, lk_cw := w',
       lk_s := (lk_s l1)\<lparr>st_in := st_in (lk_s l1) @ snd (ws_buf (lk_cw l1)) @ concat fs\<rparr>\<rparr>)" by blast
  have "written (lk_cw l) w1 @ snd (ws_buf w1) @ concat fs = snd (ws_buf (lk_cw l)) @ concat (f # fs)"
    using arg_cong [OF w(4), of "\<lambda>x. x @ concat fs"] by simp
  with converse_rtranclp_into_rtranclp [OF 1 w'(2)] w'(1) show ?case by (intro exI [of _ w']) (simp add: l1_def)
qed

lemma server_flushes:
  assumes "bt_ch (st_base (lk_s l)) = gs" "ws_pc (lk_sw l) \<noteq> WExit" "writer_ok ssz (lk_sw l)"
    "\<not> bt_done (st_base (lk_s l))" "\<not> lk_down_cut l"
  shows "\<exists>w. flushed w \<and> link_run opts csz ssz l
    (l\<lparr>lk_s := (lk_s l)\<lparr>st_base := (st_base (lk_s l))\<lparr>bt_ch := []\<rparr>\<rparr>, lk_sw := w,
       lk_c := (lk_c l)\<lparr>ct_in := ct_in (lk_c l) @ snd (ws_buf (lk_sw l)) @ concat gs\<rparr>\<rparr>)"
  using assms
proof (induction gs arbitrary: l)
  case Nil
  have b: "(st_base (lk_s l))\<lparr>bt_ch := []\<rparr> = st_base (lk_s l)" "(lk_s l)\<lparr>st_base := st_base (lk_s l)\<rparr> = lk_s l"
    using Nil.prems(1) by simp_all
  show ?case
  proof (cases "ws_pc (lk_sw l)")
    case WWait
    then have "flushed (lk_sw l)" using Nil.prems(3) by (simp add: writer_ok_def flushed_def)
    then show ?thesis using b by (intro exI [of _ "lk_sw l"]) (simp add: flushed_def)
  next
    case WMerge
    obtain w1 where w: "write_step ssz (st_base (lk_s l), lk_sw l) (st_base (lk_s l), w1)" "flushed w1"
        "written (lk_sw l) w1 = snd (ws_buf (lk_sw l))"
      by (rule writer_flushes [OF Nil.prems(1) WMerge Nil.prems(4,3)])
    from lk_server_write [OF w(1)] have "link_run opts csz ssz l
        (l\<lparr>lk_s := (lk_s l)\<lparr>st_base := st_base (lk_s l)\<rparr>, lk_sw := w1,
          lk_c := (lk_c l)\<lparr>ct_in := ct_in (lk_c l) @ (if lk_down_cut l then [] else written (lk_sw l) w1)\<rparr>\<rparr>)" by blast
    then show ?thesis using w b Nil.prems(5) by (intro exI [of _ w1]) simp
  qed (use Nil.prems(2) in simp)
next
  case (Cons g gs)
  obtain w1 where w: "write_step ssz (st_base (lk_s l), lk_sw l) ((st_base (lk_s l))\<lparr>bt_ch := gs\<rparr>, w1)" "ws_pc w1 = WMerge"
      "writer_ok ssz w1" "written (lk_sw l) w1 @ snd (ws_buf w1) = snd (ws_buf (lk_sw l)) @ g"
    by (rule writer_takes [OF Cons.prems(1-3)])
  define l1 where "l1 = l\<lparr>lk_s := (lk_s l)\<lparr>st_base := (st_base (lk_s l))\<lparr>bt_ch := gs\<rparr>\<rparr>, lk_sw := w1,
    lk_c := (lk_c l)\<lparr>ct_in := ct_in (lk_c l) @ written (lk_sw l) w1\<rparr>\<rparr>"
  have 1: "link_step opts csz ssz l l1"
    using lk_server_write [OF w(1), of opts csz] Cons.prems(5) by (simp add: l1_def)
  have "\<exists>w. flushed w \<and> link_run opts csz ssz l1
    (l1\<lparr>lk_s := (lk_s l1)\<lparr>st_base := (st_base (lk_s l1))\<lparr>bt_ch := []\<rparr>\<rparr>, lk_sw := w,
       lk_c := (lk_c l1)\<lparr>ct_in := ct_in (lk_c l1) @ snd (ws_buf (lk_sw l1)) @ concat gs\<rparr>\<rparr>)"
    using Cons.prems w by (intro Cons.IH) (simp_all add: l1_def)
  then obtain w' where w': "flushed w'" "link_run opts csz ssz l1
    (l1\<lparr>lk_s := (lk_s l1)\<lparr>st_base := (st_base (lk_s l1))\<lparr>bt_ch := []\<rparr>\<rparr>, lk_sw := w',
       lk_c := (lk_c l1)\<lparr>ct_in := ct_in (lk_c l1) @ snd (ws_buf (lk_sw l1)) @ concat gs\<rparr>\<rparr>)" by blast
  have "written (lk_sw l) w1 @ snd (ws_buf w1) @ concat gs = snd (ws_buf (lk_sw l)) @ concat (g # gs)"
    using arg_cong [OF w(4), of "\<lambda>x. x @ concat gs"] by simp
  with converse_rtranclp_into_rtranclp [OF 1 w'(2)] w'(1) show ?case by (intro exI [of _ w']) (simp add: l1_def)
qed

section \<open>Places\<close>

lemma ct_cmd_cpc_ok:
  "cpc_ok (ct_pc c) \<Longrightarrow> cpc_ok (ct_pc (ct_create_cmd c cid code))" "cpc_ok (ct_pc c) \<Longrightarrow> cpc_ok (ct_pc (ct_close_cmd c cid))"
  "c' \<in> set (ct_confirm c cid v) \<Longrightarrow> cpc_ok (ct_pc c')"
  "cpc_ok (CWrite cid sz (ct_write_max sz))"
  by (auto simp: ct_create_cmd_def ct_close_cmd_def ct_confirm_def cpc_ok_def ct_write_max_def Let_def
      split: option.splits if_splits)

lemma ct_command_cpc_ok:
  assumes "c' \<in> set (ct_command c)" "ct_pc c = CCmd"
  shows "cpc_ok (ct_pc c')"
proof -
  obtain b e r where 1: "ReadFull (Suc 0) (ct_in c) = (b, e, r)" by (cases "ReadFull (Suc 0) (ct_in c)")
  obtain b8 e8 r8 where 8: "ReadFull 8 r = (b8, e8, r8)" by (cases "ReadFull 8 r")
  obtain b9 e9 r9 where 9: "ReadFull 9 r = (b9, e9, r9)" by (cases "ReadFull 9 r")
  obtain b10 e10 r10 where 10: "ReadFull 10 r = (b10, e10, r10)" by (cases "ReadFull 10 r")
  show ?thesis
    using assms by (auto simp: ct_command_def Let_def 1 8 9 10 ct_cmd_cpc_ok split: option.splits if_splits)
qed

lemma ct_turn_cpc_ok: "c' \<in> set (ct_turn c) \<Longrightarrow> cpc_ok (ct_pc c) \<Longrightarrow> cpc_ok (ct_pc c')"
  by (cases "ct_pc c")
    (auto simp: ct_turn_def ct_command_cpc_ok [unfolded cpc_ok_def] createResult_def Let_def ct_write_pass_def cpc_ok_def
      split: if_splits option.splits prod.splits)

lemma client_local_pc: "client_local c c' \<Longrightarrow> ct_pc c' = ct_pc c"
proof (induction rule: client_local.induct)
  case (cl_late_result t' t i)
  then show ?case by (rule late_resultE) (auto simp: result_cases_def split: option.splits if_splits)
qed (auto simp: create_start_def create_register_def create_send_def create_give_up_def ct_delete_def
    ct_send_closing_def split: option.splits if_splits)

lemma places_ok: "link_reachable opts csz ssz window l \<Longrightarrow> pc_ok (st_pc (lk_s l)) \<and> cpc_ok (ct_pc (lk_c l))"
proof (induction rule: link_reachable.induct)
  case lr_start
  then show ?case by (simp add: link_start_def newServerTransport_def start_client_def pc_ok_def)
next
  case (lr_step l l')
  from lr_step(2,3) show ?case
    by (induction rule: link_step.induct)
      (auto simp: client_local_pc ct_turn_cpc_ok dest: st_turn_decreases server_step_pc_ok [OF ss_local])
qed

section \<open>Rounds\<close>

text \<open>
  A sound connection: no direction is broken, neither end has been closed, nothing has failed, both read loops run,
  and no context has ended.
\<close>

definition sound :: "link \<Rightarrow> bool" where
  "sound l \<longleftrightarrow>
     \<not> lk_up_cut l \<and> \<not> lk_down_cut l \<and> \<not> bt_done (ct_base (lk_c l)) \<and> \<not> bt_done (st_base (lk_s l))
     \<and> ws_pc (lk_cw l) \<noteq> WExit \<and> ws_pc (lk_sw l) \<noteq> WExit \<and> client_live (lk_c l) \<and> server_live (lk_s l)
     \<and> (\<forall>n. \<not> ct_cancelled (lk_c l) n)"

text \<open>The queues and the buffers of the writers are empty.\<close>

definition drained :: "link \<Rightarrow> bool" where
  "drained l \<longleftrightarrow> bt_ch (ct_base (lk_c l)) = [] \<and> bt_ch (st_base (lk_s l)) = [] \<and> flushed (lk_cw l) \<and> flushed (lk_sw l)"

text \<open>Both ends wait for commands, with these frames before them and nothing in the queues.\<close>

definition paused :: "link \<Rightarrow> peer_frame list \<Rightarrow> down_frame list \<Rightarrow> bool" where
  "paused l fs gs \<longleftrightarrow>
     sound l \<and> drained l
     \<and> ct_pc (lk_c l) = CCmd \<and> st_pc (lk_s l) = SCmd
     \<and> st_in (lk_s l) = concat (map frame_bytes fs) \<and> ct_in (lk_c l) = concat (map down_bytes gs)
     \<and> (\<forall>f \<in> set fs. up_ok f) \<and> (\<forall>g \<in> set gs. down_ok g)"

lemma paused_at_rest: "paused l [] [] \<Longrightarrow> at_rest l"
  by (simp add: paused_def at_rest_def sound_def drained_def flushed_def)

lemma server_turns_run:
  assumes "server_turns opts (lk_s l) t'" "st_pc t' = SCmd"
  shows "link_run opts csz ssz l (l\<lparr>lk_s := t'\<rparr>)"
proof -
  obtain k where "(server_turn opts ^^ k) (lk_s l) t'" using rtranclp_imp_relpowp [OF assms(1)] by blast
  then show ?thesis using assms(2) by (intro turns_run) (simp_all add: server_live_def)
qed

lemma no_panic:
  assumes "link_reachable opts csz ssz window l" "length (ct_calls (lk_c l)) < 2 ^ 64" "\<forall>n. \<not> ct_cancelled (lk_c l) n"
  shows "ct_pc (lk_c l) \<noteq> CPanic"
  using link_panic_cancelled [OF assms(1,2)] assms(3) by blast

text \<open>The ends finish what they are at, and the writers empty the queues.\<close>

lemma server_round:
  assumes r: "link_reachable opts csz ssz window l" and s: "sound l"
    and turns: "server_turns opts (lk_s l) t'" "st_pc t' = SCmd" and ans: "server_answer (lk_s l) t' n"
    and w: "flushed (lk_sw l)"
  shows "\<exists>l' new. link_run opts csz ssz l l' \<and> sound l' \<and> flushed (lk_sw l') \<and> lk_cw l' = lk_cw l
    \<and> bt_ch (st_base (lk_s l')) = [] \<and> st_pc (lk_s l') = SCmd \<and> st_in (lk_s l') = st_in t'
    \<and> lk_c l' = (lk_c l)\<lparr>ct_in := ct_in (lk_c l) @ concat (map down_bytes new)\<rparr>
    \<and> (\<forall>g \<in> set new. down_ok g) \<and> sum_list (map down_cost new) < n"
proof -
  obtain new where new: "st_base t' = (st_base (lk_s l))\<lparr>bt_ch := map down_bytes new\<rparr>" "\<forall>g \<in> set new. down_ok g"
      "sum_list (map down_cost new) < n"
    using ans by (auto simp: answer_ok_def)
  let ?l1 = "l\<lparr>lk_s := t'\<rparr>"
  have 1: "link_run opts csz ssz l ?l1" by (rule server_turns_run [OF turns])
  have "writer_ok ssz (lk_sw ?l1)" using writers_ok [OF r] by simp
  then obtain w' where w': "flushed w'" "link_run opts csz ssz ?l1
      (?l1\<lparr>lk_s := t'\<lparr>st_base := (st_base t')\<lparr>bt_ch := []\<rparr>\<rparr>, lk_sw := w',
         lk_c := (lk_c l)\<lparr>ct_in := ct_in (lk_c l) @ concat (map down_bytes new)\<rparr>\<rparr>)" (is "link_run _ _ _ _ ?l2")
    using server_flushes [of ?l1 "map down_bytes new" ssz opts csz] s w new(1) by (auto simp: sound_def flushed_def)
  have "link_run opts csz ssz l ?l2" using 1 w'(2) by simp
  moreover have "sound ?l2"
    using s new(1) w'(1) turns(2) by (simp add: sound_def flushed_def server_live_def client_live_def)
  ultimately show ?thesis using new w'(1) turns(2) by (intro exI [of _ ?l2] exI [of _ new]) simp
qed

lemma client_round:
  assumes r: "link_reachable opts csz ssz window l" "length (ct_calls (lk_c l)) < 2 ^ 64" and s: "sound l"
    and turns: "client_done (lk_c l) c' x n" and w: "flushed (lk_cw l)"
  shows "\<exists>l' new. link_run opts csz ssz l l' \<and> sound l' \<and> flushed (lk_cw l') \<and> lk_sw l' = lk_sw l
    \<and> bt_ch (ct_base (lk_c l')) = [] \<and> ct_pc (lk_c l') = CCmd \<and> ct_in (lk_c l') = x
    \<and> lk_s l' = (lk_s l)\<lparr>st_in := st_in (lk_s l) @ concat (map frame_bytes new)\<rparr>
    \<and> (\<forall>f \<in> set new. up_ok f) \<and> sum_list (map up_cost new) < n
    \<and> length (ct_calls (lk_c l')) = length (ct_calls (lk_c l))"
proof -
  let ?l1 = "l\<lparr>lk_c := c'\<rparr>"
  have c': "client_turns (lk_c l) c'" "ct_cancelled c' = ct_cancelled (lk_c l)" "length (ct_calls c') = length (ct_calls (lk_c l))"
    using turns by (simp_all add: client_done_def)
  have 1: "link_run opts csz ssz l ?l1" by (rule client_turns_run [OF c'(1) refl])
  have "ct_pc c' \<noteq> CPanic"
    using no_panic [OF run_reachable [OF 1 r(1)]] c'(2,3) r(2) s by (simp add: sound_def)
  then obtain new where new: "ct_pc c' = CCmd" "ct_in c' = x" "ct_base c' = (ct_base (lk_c l))\<lparr>bt_ch := map frame_bytes new\<rparr>"
      "\<forall>f \<in> set new. up_ok f" "sum_list (map up_cost new) < n"
    using turns by (auto simp: client_done_def answer_ok_def)
  have "writer_ok csz (lk_cw ?l1)" using writers_ok [OF r(1)] by simp
  then obtain w' where w': "flushed w'" "link_run opts csz ssz ?l1
      (?l1\<lparr>lk_c := c'\<lparr>ct_base := (ct_base c')\<lparr>bt_ch := []\<rparr>\<rparr>, lk_cw := w',
         lk_s := (lk_s l)\<lparr>st_in := st_in (lk_s l) @ concat (map frame_bytes new)\<rparr>\<rparr>)" (is "link_run _ _ _ _ ?l2")
    using client_flushes [of ?l1 "map frame_bytes new" csz opts ssz] s w new(1,3) by (auto simp: sound_def flushed_def)
  have "link_run opts csz ssz l ?l2" using 1 w'(2) by simp
  moreover have "sound ?l2"
    using s new(1,3) w'(1) c'(2) by (simp add: sound_def flushed_def server_live_def client_live_def)
  ultimately show ?thesis using new w'(1) c'(3) by (intro exI [of _ ?l2] exI [of _ new]) simp
qed

lemma sound_streams:
  assumes "link_reachable opts csz ssz window l" "length (ct_calls (lk_c l)) < 2 ^ 64" "sound l"
    and "bt_ch (ct_base (lk_c l)) = []" "bt_ch (st_base (lk_s l)) = []" "flushed (lk_cw l)" "flushed (lk_sw l)"
  obtains p fs q gs where "st_in (lk_s l) = p @ concat (map frame_bytes fs)" "length p = server_debt (lk_s l)"
    "\<forall>f \<in> set fs. up_ok f" "ct_in (lk_c l) = q @ concat (map down_bytes gs)" "length q = client_debt (lk_c l)"
    "\<forall>g \<in> set gs. down_ok g"
proof -
  obtain fs gs where inv: "link_inv opts csz ssz l fs gs" using link_reachable_inv [OF assms(1,2)] by blast
  then have "stream frame_bytes (st_in (lk_s l)) [] True (server_debt (lk_s l)) fs" "\<forall>f \<in> set fs. up_ok f"
    "stream down_bytes (ct_in (lk_c l)) [] True (client_debt (lk_c l)) gs" "\<forall>g \<in> set gs. down_ok g"
    using assms(3-7) by (simp_all add: link_inv_def up_conn_def down_conn_def conn_def sound_def flushed_def)
  then show thesis using that by (auto simp: stream_def)
qed

lemma link_flushes:
  assumes r: "link_reachable opts csz ssz window l" and s: "sound l"
  shows "\<exists>m. link_run opts csz ssz l m \<and> sound m \<and> drained m \<and> length (ct_calls (lk_c m)) = length (ct_calls (lk_c l))"
proof -
  have wk: "writer_ok csz (lk_cw l)" "writer_ok ssz (lk_sw l)" using writers_ok [OF r] by simp_all
  obtain w where w: "flushed w" "link_run opts csz ssz l (l\<lparr>lk_c := (lk_c l)\<lparr>ct_base := (ct_base (lk_c l))\<lparr>bt_ch := []\<rparr>\<rparr>,
      lk_cw := w, lk_s := (lk_s l)\<lparr>st_in := st_in (lk_s l) @ snd (ws_buf (lk_cw l)) @ concat (bt_ch (ct_base (lk_c l)))\<rparr>\<rparr>)"
      (is "link_run _ _ _ _ ?l1")
    using client_flushes [of l _ csz opts ssz, OF refl _ wk(1)] s by (auto simp: sound_def client_live_def)
  have s1: "sound ?l1" using s w(1) by (simp add: sound_def flushed_def client_live_def server_live_def)
  obtain w2 where w2: "flushed w2" "link_run opts csz ssz ?l1 (?l1\<lparr>lk_s := (lk_s ?l1)\<lparr>st_base := (st_base (lk_s ?l1))\<lparr>bt_ch := []\<rparr>\<rparr>,
      lk_sw := w2, lk_c := (lk_c ?l1)\<lparr>ct_in := ct_in (lk_c ?l1) @ snd (ws_buf (lk_sw ?l1)) @ concat (bt_ch (st_base (lk_s ?l1)))\<rparr>\<rparr>)"
      (is "link_run _ _ _ _ ?l2")
    using server_flushes [of ?l1 _ ssz opts csz, OF refl] wk(2) s1 by (auto simp: sound_def)
  have "sound ?l2" using s1 w2(1) by (simp add: sound_def flushed_def client_live_def server_live_def)
  moreover have "link_run opts csz ssz l ?l2" using w(2) w2(2) by (rule rtranclp_trans)
  ultimately show ?thesis using w(1) w2(1) by (intro exI [of _ ?l2]) (simp add: drained_def)
qed

lemma server_settles_link:
  assumes r: "link_reachable opts csz ssz window m" "length (ct_calls (lk_c m)) < 2 ^ 64" and m: "sound m" "drained m"
  shows "\<exists>k. link_run opts csz ssz m k \<and> sound k \<and> drained k \<and> st_pc (lk_s k) = SCmd
    \<and> length (ct_calls (lk_c k)) = length (ct_calls (lk_c m))"
proof -
  obtain p fs where st: "st_in (lk_s m) = p @ concat (map frame_bytes fs)" "length p = server_debt (lk_s m)"
    using sound_streams [OF r m(1)] m(2) unfolding drained_def by metis
  have "replies_wf (lk_s m)" using link_reachable_inv [OF r] by (auto simp: link_inv_def parts_ok_def)
  then obtain t' where t': "server_turns opts (lk_s m) t'" "st_pc t' = SCmd" "server_answer (lk_s m) t' 3"
    using server_settles [OF _ _ _ _ st] places_ok [OF r(1)] m by (auto simp: sound_def drained_def)
  then show ?thesis using server_round [OF r(1) m(1) t'] m(2) by (fastforce simp: drained_def)
qed

lemma link_settles:
  assumes r: "link_reachable opts csz ssz window l" "length (ct_calls (lk_c l)) < 2 ^ 64" and s: "sound l"
  shows "\<exists>l' fs gs. link_run opts csz ssz l l' \<and> paused l' fs gs \<and> length (ct_calls (lk_c l')) = length (ct_calls (lk_c l))"
proof -
  obtain m where m: "link_run opts csz ssz l m" "sound m" "drained m" "length (ct_calls (lk_c m)) = length (ct_calls (lk_c l))"
    using link_flushes [OF r(1) s] by blast
  note rm = run_reachable [OF m(1) r(1)]
  obtain k where k: "link_run opts csz ssz m k" "sound k" "drained k" "st_pc (lk_s k) = SCmd"
      "length (ct_calls (lk_c k)) = length (ct_calls (lk_c m))"
    using server_settles_link [OF rm _ m(2,3)] m(4) r(2) by auto
  note rk = run_reachable [OF k(1) rm]
  have ck: "length (ct_calls (lk_c k)) < 2 ^ 64" using k(5) m(4) r(2) by simp
  obtain q gs where st: "ct_in (lk_c k) = q @ concat (map down_bytes gs)" "length q = client_debt (lk_c k)"
    using sound_streams [OF rk ck k(2)] k(3) unfolding drained_def by metis
  obtain c' where c': "client_done (lk_c k) c' (concat (map down_bytes gs)) 3"
    using client_settles [OF _ _ _ _ _ st] places_ok [OF rk] k(2,3) by (auto simp: sound_def drained_def)
  obtain l' where l': "link_run opts csz ssz k l'" "sound l'" "drained l'" "ct_pc (lk_c l') = CCmd"
      "st_pc (lk_s l') = SCmd" "length (ct_calls (lk_c l')) = length (ct_calls (lk_c k))"
    using client_round [OF rk ck k(2) c'] k(3,4) by (fastforce simp: drained_def)
  obtain p fs q gs where "st_in (lk_s l') = p @ concat (map frame_bytes fs)" "length p = server_debt (lk_s l')"
      "\<forall>f \<in> set fs. up_ok f" "ct_in (lk_c l') = q @ concat (map down_bytes gs)" "length q = client_debt (lk_c l')"
      "\<forall>g \<in> set gs. down_ok g"
    using sound_streams [OF run_reachable [OF l'(1) rk] _ l'(2)] l'(3,6) ck unfolding drained_def by metis
  then have "paused l' fs gs" using l' by (simp add: paused_def server_debt_def client_debt_def drained_def)
  moreover have "link_run opts csz ssz l l'" using m(1) k(1) l'(1) by (meson rtranclp_trans)
  ultimately show ?thesis using l'(6) k(5) m(4) by auto
qed

lemma server_reads_one:
  assumes r: "link_reachable opts csz ssz window l" "length (ct_calls (lk_c l)) < 2 ^ 64" and p: "paused l (f # fs) gs"
  shows "\<exists>l' new. link_run opts csz ssz l l' \<and> paused l' fs (gs @ new) \<and> sum_list (map down_cost new) < up_cost f
    \<and> ct_calls (lk_c l') = ct_calls (lk_c l)"
proof -
  note p' = p [unfolded paused_def]
  have inv: "server_inv opts (lk_s l)" using link_reachable_inv [OF r] by (auto simp: link_inv_def parts_ok_def)
  obtain t' where t': "server_turns opts (lk_s l) t'" "st_pc t' = SCmd" "st_in t' = concat (map frame_bytes fs)"
      "server_answer (lk_s l) t' (up_cost f)"
    using server_takes [of "lk_s l" f "concat (map frame_bytes fs)" opts] p' inv by (auto simp: sound_def drained_def)
  obtain l' new where l': "link_run opts csz ssz l l'" "sound l'" "flushed (lk_sw l')" "lk_cw l' = lk_cw l"
      "bt_ch (st_base (lk_s l')) = []" "st_pc (lk_s l') = SCmd" "st_in (lk_s l') = st_in t'"
      "lk_c l' = (lk_c l)\<lparr>ct_in := ct_in (lk_c l) @ concat (map down_bytes new)\<rparr>"
      "\<forall>g \<in> set new. down_ok g" "sum_list (map down_cost new) < up_cost f"
    using server_round [OF r(1) _ t'(1,2,4)] p' by (auto simp: drained_def)
  have "paused l' fs (gs @ new)" using p' l' t'(3) by (auto simp: paused_def drained_def)
  then show ?thesis using l' by (intro exI [of _ l'] exI [of _ new]) simp
qed

lemma client_reads_one:
  assumes r: "link_reachable opts csz ssz window l" "length (ct_calls (lk_c l)) < 2 ^ 64" and p: "paused l fs (g # gs)"
  shows "\<exists>l' new. link_run opts csz ssz l l' \<and> paused l' (fs @ new) gs \<and> sum_list (map up_cost new) < down_cost g
    \<and> length (ct_calls (lk_c l')) = length (ct_calls (lk_c l))"
proof -
  note p' = p [unfolded paused_def]
  have inv: "client_inv (lk_c l)" using link_reachable_inv [OF r] by (auto simp: link_inv_def parts_ok_def)
  obtain c' where c': "client_done (lk_c l) c' (concat (map down_bytes gs)) (down_cost g)"
    using client_takes [of "lk_c l" g "concat (map down_bytes gs)"] p' inv by (auto simp: sound_def drained_def)
  obtain l' new where l': "link_run opts csz ssz l l'" "sound l'" "flushed (lk_cw l')" "lk_sw l' = lk_sw l"
      "bt_ch (ct_base (lk_c l')) = []" "ct_pc (lk_c l') = CCmd" "ct_in (lk_c l') = concat (map down_bytes gs)"
      "lk_s l' = (lk_s l)\<lparr>st_in := st_in (lk_s l) @ concat (map frame_bytes new)\<rparr>"
      "\<forall>f \<in> set new. up_ok f" "sum_list (map up_cost new) < down_cost g"
      "length (ct_calls (lk_c l')) = length (ct_calls (lk_c l))"
    using client_round [OF r _ c'] p' by (auto simp: drained_def)
  have "paused l' (fs @ new) gs" using p' l' by (auto simp: paused_def drained_def)
  then show ?thesis using l' by (intro exI [of _ l'] exI [of _ new]) simp
qed

lemma paused_drains:
  assumes "link_reachable opts csz ssz window l" "length (ct_calls (lk_c l)) < 2 ^ 64" "paused l fs gs"
  shows "\<exists>l'. link_run opts csz ssz l l' \<and> at_rest l' \<and> sound l' \<and> length (ct_calls (lk_c l')) = length (ct_calls (lk_c l))"
  using assms
proof (induction "sum_list (map up_cost fs) + sum_list (map down_cost gs)" arbitrary: l fs gs rule: less_induct)
  case less
  note r = less.prems(1)
  consider (nil) "fs = []" "gs = []" | (up) f fs' where "fs = f # fs'" | (down) g gs' where "gs = g # gs'"
    by (cases fs; cases gs) simp_all
  then show ?case
  proof cases
    case nil
    then show ?thesis using less.prems(3) paused_at_rest by (auto simp: paused_def)
  next
    case up
    obtain k new where k: "link_run opts csz ssz l k" "paused k fs' (gs @ new)" "sum_list (map down_cost new) < up_cost f"
        "ct_calls (lk_c k) = ct_calls (lk_c l)"
      using server_reads_one [OF r less.prems(2)] less.prems(3) up by blast
    have "\<exists>l'. link_run opts csz ssz k l' \<and> at_rest l' \<and> sound l' \<and> length (ct_calls (lk_c l')) = length (ct_calls (lk_c k))"
      by (rule less.hyps [OF _ run_reachable [OF k(1) r] _ k(2)]) (use up k(3,4) less.prems(2) in simp_all)
    then show ?thesis using k(1,4) by (metis rtranclp_trans)
  next
    case down
    obtain k new where k: "link_run opts csz ssz l k" "paused k (fs @ new) gs'" "sum_list (map up_cost new) < down_cost g"
        "length (ct_calls (lk_c k)) = length (ct_calls (lk_c l))"
      using client_reads_one [OF r less.prems(2)] less.prems(3) down by blast
    have "\<exists>l'. link_run opts csz ssz k l' \<and> at_rest l' \<and> sound l' \<and> length (ct_calls (lk_c l')) = length (ct_calls (lk_c k))"
      by (rule less.hyps [OF _ run_reachable [OF k(1) r] _ k(2)]) (use down k(3,4) less.prems(2) in simp_all)
    then show ?thesis using k(1,4) by (metis rtranclp_trans)
  qed
qed

section \<open>The property\<close>



end
