(* ===== verification/Metadata.thy ===== *)
theory Metadata
  imports Protocol
begin

text \<open>
  \<open>core/message.go\<close>: the metadata that travels in front of a request and of its answer, and the
  header maps in them.  Reading and writing JSON is the standard library's; a function
  for it is a parameter wherever it is used.  A Go map is a partial function.
\<close>

section \<open>Header keys\<close>

definition to_upper :: "char \<Rightarrow> char" where
  "to_upper c = (if 97 \<le> (of_char c :: nat) \<and> (of_char c :: nat) \<le> 122 then char_of ((of_char c :: nat) - 32) else c)"

definition to_lower :: "char \<Rightarrow> char" where
  "to_lower c = (if 65 \<le> (of_char c :: nat) \<and> (of_char c :: nat) \<le> 90 then char_of ((of_char c :: nat) + 32) else c)"

text \<open>The bytes that a header key may have: letters, digits and the marks of a token.\<close>

definition token_char :: "char \<Rightarrow> bool" where
  "token_char c \<longleftrightarrow>
     (let n = (of_char c :: nat) in
      48 \<le> n \<and> n \<le> 57 \<or> 65 \<le> n \<and> n \<le> 90 \<or> 97 \<le> n \<and> n \<le> 122)
     \<or> c \<in> set ''!#$%&*+-.^_`|~'' \<or> c = CHR 0x27"

fun canon_from :: "bool \<Rightarrow> string \<Rightarrow> string" where
  "canon_from upper [] = []"
| "canon_from upper (c # cs) =
     (let c' = (if upper then to_upper c else to_lower c) in c' # canon_from (c' = CHR ''-'') cs)"

text \<open>\<open>textproto.CanonicalMIMEHeaderKey\<close>: a key with a byte of no token stays as it is.\<close>

definition CanonicalMIMEHeaderKey :: "string \<Rightarrow> string" where
  "CanonicalMIMEHeaderKey s = (if \<forall>c \<in> set s. token_char c then canon_from True s else s)"

text \<open>\<open>strings.ToLower\<close> on keys of ASCII characters, as header keys are.\<close>

definition ToLower :: "string \<Rightarrow> string" where
  "ToLower = map to_lower"

lemma of_to_upper: "(of_char (to_upper c) :: nat) =
    (if 97 \<le> (of_char c :: nat) \<and> (of_char c :: nat) \<le> 122 then of_char c - 32 else of_char c)"
  by (auto simp: to_upper_def intro!: mod_less)

lemma of_to_lower: "(of_char (to_lower c) :: nat) =
    (if 65 \<le> (of_char c :: nat) \<and> (of_char c :: nat) \<le> 90 then of_char c + 32 else of_char c)"
  by (auto simp: to_lower_def intro!: mod_less)

lemma to_upper_idem [simp]: "to_upper (to_upper c) = to_upper c"
  using of_to_upper [of c] by (auto simp: to_upper_def [of "to_upper c"])

lemma to_lower_idem [simp]: "to_lower (to_lower c) = to_lower c"
  using of_to_lower [of c] by (auto simp: to_lower_def [of "to_lower c"])

lemma token_letters:
  "64 < (of_char c :: nat) \<and> (of_char c :: nat) < 91 \<or> 96 < (of_char c :: nat) \<and> (of_char c :: nat) < 123
    \<Longrightarrow> token_char c"
  by (auto simp: token_char_def Let_def)

lemma token_to_upper: "token_char c \<Longrightarrow> token_char (to_upper c)"
proof (cases "97 \<le> (of_char c :: nat) \<and> (of_char c :: nat) \<le> 122")
  case True
  then show ?thesis using of_to_upper [of c] by (intro token_letters) auto
qed (auto simp: to_upper_def)

lemma token_to_lower: "token_char c \<Longrightarrow> token_char (to_lower c)"
proof (cases "65 \<le> (of_char c :: nat) \<and> (of_char c :: nat) \<le> 90")
  case True
  then show ?thesis using of_to_lower [of c] by (intro token_letters) auto
qed (auto simp: to_lower_def)

lemma canon_from_idem: "canon_from u (canon_from u s) = canon_from u s"
  by (induction u s rule: canon_from.induct) (auto simp: Let_def)

lemma canon_from_token: "\<forall>c \<in> set s. token_char c \<Longrightarrow> \<forall>c \<in> set (canon_from u s). token_char c"
  by (induction u s rule: canon_from.induct) (auto simp: Let_def token_to_upper token_to_lower)

lemma canonical_idem [simp]:
  "CanonicalMIMEHeaderKey (CanonicalMIMEHeaderKey s) = CanonicalMIMEHeaderKey s"
  using canon_from_token [of s True] by (auto simp: CanonicalMIMEHeaderKey_def canon_from_idem)

section \<open>Metadata\<close>

type_synonym header = "string \<rightharpoonup> string list"

record client_metadata =
  cm_URL :: string
  cm_Method :: string
  cm_Header :: "header option"

record server_metadata =
  sm_Status :: int
  sm_Header :: "header option"

text \<open>
  The loop over the keys of a header, in the order \<open>keys\<close> in which the map yielded them: a key
  that is not canonical moves, and replaces what is there.
\<close>

definition canonical_step :: "string \<Rightarrow> header \<Rightarrow> header" where
  "canonical_step k0 h =
     (let k1 = CanonicalMIMEHeaderKey k0 in
      if k1 \<noteq> k0 then (h(k1 := h k0))(k0 := None) else h)"

text \<open>
  \<open>ClientMetadata.Unmarshal\<close>; \<open>json\<close> decodes, \<open>order\<close> is the order of a map iteration.
\<close>

definition Unmarshal ::
    "(bytes \<Rightarrow> gerr + client_metadata) \<Rightarrow> (header \<Rightarrow> string list) \<Rightarrow> bytes \<Rightarrow> gerr + client_metadata" where
  "Unmarshal json order data =
     (case json data of
        Inl e \<Rightarrow> Inl e
      | Inr m \<Rightarrow>
          (case cm_Header m of
             None \<Rightarrow> Inr m
           | Some h \<Rightarrow> Inr (m\<lparr>cm_Header := Some (fold canonical_step (order h) h)\<rparr>)))"

text \<open>
  The client's side, \<open>unary\<close> of \<open>client_unary.go\<close>: a new map with the canonical keys, filled in
  the order of the iteration.
\<close>

definition canonical_copy :: "string list \<Rightarrow> header \<Rightarrow> header" where
  "canonical_copy keys h =
     fold (\<lambda>k m. case h k of None \<Rightarrow> m | Some v \<Rightarrow> m(CanonicalMIMEHeaderKey k \<mapsto> v)) keys Map.empty"

lemma canonical_steps:
  "fold canonical_step ks h k = Some v \<Longrightarrow> dom h \<subseteq> set ks \<union> {k. CanonicalMIMEHeaderKey k = k} \<Longrightarrow>
    CanonicalMIMEHeaderKey k = k \<and> (\<exists>k0. h k0 = Some v \<and> CanonicalMIMEHeaderKey k0 = k)"
proof (induction ks arbitrary: h)
  case Nil
  then show ?case by auto
next
  case (Cons a ks)
  let ?h = "canonical_step a h"
  have dom: "dom ?h \<subseteq> set ks \<union> {k. CanonicalMIMEHeaderKey k = k}"
    using Cons(3) by (auto simp: canonical_step_def Let_def split: if_splits)
  obtain k0 where k0: "CanonicalMIMEHeaderKey k = k" "?h k0 = Some v" "CanonicalMIMEHeaderKey k0 = k"
    using Cons(1) [of ?h] Cons(2) dom by auto
  have "\<exists>k0. h k0 = Some v \<and> CanonicalMIMEHeaderKey k0 = k"
  proof (cases "CanonicalMIMEHeaderKey a = a")
    case False
    then have "h a = Some v \<and> k0 = CanonicalMIMEHeaderKey a \<or> h k0 = Some v"
      using k0(2) by (auto simp: canonical_step_def Let_def split: if_splits)
    then show ?thesis using k0(3) canonical_idem [of a] by auto
  qed (use k0 in \<open>auto simp: canonical_step_def\<close>)
  then show ?case using k0(1) by blast
qed

text \<open>
  C37: after decoding, every header key of a request is canonical, whatever the client sent and in
  whatever order the map is walked, and every value is one that the client sent under a key
  with that canonical form.
\<close>

theorem metadata_keys_canonical:
  assumes "json data = Inr m" "cm_Header m = Some h" "set (order h) = dom h"
  shows "\<exists>h'. Unmarshal json order data = Inr (m\<lparr>cm_Header := Some h'\<rparr>)
    \<and> (\<forall>k v. h' k = Some v \<longrightarrow> CanonicalMIMEHeaderKey k = k
        \<and> (\<exists>k0. h k0 = Some v \<and> CanonicalMIMEHeaderKey k0 = k))"
  using assms canonical_steps [of "order h" h]
  by (intro exI [of _ "fold canonical_step (order h) h"]) (auto simp: Unmarshal_def)

definition sample_metadata :: client_metadata where
  "sample_metadata = \<lparr>cm_URL = ''http://a'', cm_Method = ''GET'', cm_Header = Some [''x-id'' \<mapsto> [''1'']]\<rparr>"

theorem metadata_keys_canonical_witness:
  "\<exists>h'. Unmarshal (\<lambda>_. Inr sample_metadata) (\<lambda>_. [''x-id'']) [] = Inr (sample_metadata\<lparr>cm_Header := Some h'\<rparr>)
     \<and> (\<forall>k v. h' k = Some v \<longrightarrow> CanonicalMIMEHeaderKey k = k)"
  using metadata_keys_canonical
      [of "\<lambda>_. Inr sample_metadata" "[]" sample_metadata "[''x-id'' \<mapsto> [''1'']]" "\<lambda>_. [''x-id'']"]
  by (fastforce simp: sample_metadata_def)

end
