(* ===== verification/Forward.thy ===== *)
theory Forward
  imports Metadata ServerOptions Relay
begin

text \<open>
  \<open>server_handler.go\<close> and the requests of \<open>client_unary.go\<close>, \<open>client_tcp.go\<close> and
  \<open>client_websocket.go\<close>: the framing of a request and of its answer on a channel, the checks on
  both sides, and what the server does with a request.  JSON, the parsing of URLs and the
  texts of foreign errors belong to the standard library and are parameters.
\<close>

abbreviation (input) MaxInt64 :: nat where "MaxInt64 \<equiv> 9223372036854775807"

record url =
  u_Scheme :: string
  u_Host :: string
  u_rest :: string

section \<open>The buffer of a forwarded connection\<close>

text \<open>
  \<open>forwardConn.buf\<close> by the length of its slice.  \<open>getBuffer\<close> returns the field, the length of the
  slice it hands out and the lengths of the slices it puts into the pool, whose slices
  have 1024 bytes when they are new.
\<close>

definition getBuffer :: "nat option \<Rightarrow> nat \<Rightarrow> nat option \<times> nat \<times> nat list" where
  "getBuffer buf n =
     (case buf of
        None \<Rightarrow> if n > 1024 then (None, n, []) else (Some 1024, n, [])
      | Some l \<Rightarrow> if l < n then (Some n, n, [l]) else (Some l, n, []))"

definition freeBuffer :: "nat option \<Rightarrow> nat option \<times> nat list" where
  "freeBuffer buf =
     (case buf of None \<Rightarrow> (None, []) | Some l \<Rightarrow> if l = 1024 then (None, [l]) else (Some l, []))"

definition getBytes :: "nat option \<Rightarrow> nat option" where
  "getBytes buf = (case buf of None \<Rightarrow> Some 1024 | Some l \<Rightarrow> Some l)"

section \<open>Requests\<close>

text \<open>What \<open>unary\<close> writes in front of the body, from the encoded metadata.\<close>

definition request_frame :: "bytes \<Rightarrow> nat \<Rightarrow> gerr + bytes" where
  "request_frame meta bodylen =
     (if length meta > MaxUint16 then Inl (ErrText ''metadata length too long'')
      else Inr (PutUint16 (of_nat (length meta)) @ PutUint64 (of_nat bodylen) @ meta))"

text \<open>
  The part of the body that is copied behind it.  The limit is converted to a signed number, and
  without a positive limit the reader is not asked; a nil reader that is asked panics.
\<close>

definition request_body :: "nat \<Rightarrow> bytes option \<Rightarrow> bytes outcome" where
  "request_body bodylen body =
     (if 0 < bodylen \<and> bodylen \<le> MaxInt64
      then (case body of None \<Rightarrow> Panic | Some b \<Rightarrow> Done (take bodylen b)) else Done [])"

record message_request =
  mq_URL :: string
  mq_Method :: string
  mq_Header :: "header option"
  mq_Body :: "bytes option"
  mq_BodyLen :: nat

text \<open>
  The checks of \<open>Unary\<close>: an error, or the metadata and the body length that it hands to
  \<open>unary\<close>.  The length it has checked is a local variable; it passes on the field.
\<close>

definition Unary_check :: "(string \<Rightarrow> gerr + url) \<Rightarrow> message_request \<Rightarrow> gerr + client_metadata \<times> nat" where
  "Unary_check parse req =
     (case parse (mq_URL req) of
        Inl e \<Rightarrow> Inl e
      | Inr uri \<Rightarrow>
          if u_Scheme uri \<noteq> ''http'' \<and> u_Scheme uri \<noteq> ''https'' \<or> u_Host uri = []
          then Inl (ErrText (''not support url: '' @ mq_URL req))
          else if mq_Method req \<notin> {''POST'', ''PUT'', ''PATCH'', ''GET'', ''HEAD'', ''DELETE''}
          then Inl (ErrText (''not support method: '' @ mq_Method req))
          else
            let bodylen = (if mq_Method req \<in> {''POST'', ''PUT'', ''PATCH''}
                              \<and> mq_BodyLen req \<noteq> 0 \<and> mq_Body req \<noteq> None
                           then mq_BodyLen req else 0)
            in if bodylen > MaxInt64 then Inl (ErrText ''body length too long'')
               else Inr (\<lparr>cm_URL = mq_URL req, cm_Method = mq_Method req, cm_Header = mq_Header req\<rparr>,
                         mq_BodyLen req))"

text \<open>The checks of \<open>Connect\<close> and \<open>Websocket\<close>; \<open>port\<close> is \<open>url.URL.Port\<close>.\<close>

definition Connect_check ::
    "(string \<Rightarrow> gerr + url) \<Rightarrow> (url \<Rightarrow> string) \<Rightarrow> string \<Rightarrow> gerr + client_metadata \<times> nat" where
  "Connect_check parse port u =
     (case parse u of
        Inl e \<Rightarrow> Inl e
      | Inr uri \<Rightarrow>
          if u_Scheme uri \<noteq> ''tcp'' \<and> u_Scheme uri \<noteq> ''tls'' \<or> u_Host uri = [] \<or> port uri = []
          then Inl (ErrText (''not support url: '' @ u))
          else Inr (\<lparr>cm_URL = u, cm_Method = [], cm_Header = None\<rparr>, 0))"

definition Websocket_check ::
    "(string \<Rightarrow> gerr + url) \<Rightarrow> string \<Rightarrow> header option \<Rightarrow> gerr + client_metadata \<times> nat" where
  "Websocket_check parse u header =
     (case parse u of
        Inl e \<Rightarrow> Inl e
      | Inr uri \<Rightarrow>
          if u_Scheme uri \<noteq> ''ws'' \<and> u_Scheme uri \<noteq> ''wss'' \<or> u_Host uri = []
          then Inl (ErrText (''not support url: '' @ u))
          else Inr (\<lparr>cm_URL = u, cm_Method = [], cm_Header = header\<rparr>, 0))"

section \<open>What the server does with a request\<close>

datatype forward_action =
    FQuiet
  | FText int string
  | FTcp url client_metadata nat
  | FWebsocket client_metadata nat
  | FUnary client_metadata nat

definition unary_methods :: "string list" where
  "unary_methods = [''GET'', ''POST'', ''HEAD'', ''PUT'', ''PATCH'', ''DELETE'']"

definition forward_dispatch ::
    "(string \<Rightarrow> gerr + url) \<Rightarrow> (url \<Rightarrow> string) \<Rightarrow> (gerr \<Rightarrow> string) \<Rightarrow> (url \<Rightarrow> gerr + url) option
       \<Rightarrow> client_metadata \<Rightarrow> nat \<Rightarrow> forward_action" where
  "forward_dispatch parse url_string err_text hookURL metadata bodylen =
     (if bodylen > MaxInt64 then FText 400 ''bodylen too large''
      else
        case parse (cm_URL metadata) of
          Inl err \<Rightarrow> FText 400 (err_text err)
        | Inr uri \<Rightarrow>
            (case (case hookURL of
                     None \<Rightarrow> Inr (uri, metadata)
                   | Some hook \<Rightarrow>
                       (case hook uri of
                          Inl err \<Rightarrow> Inl err
                        | Inr uri \<Rightarrow> Inr (uri, metadata\<lparr>cm_URL := url_string uri\<rparr>))) of
               Inl err \<Rightarrow> FText 400 (err_text err)
             | Inr (uri, metadata) \<Rightarrow>
                 if u_Scheme uri \<in> {''tcp'', ''tls''} then FTcp uri metadata bodylen
                 else if u_Scheme uri \<in> {''ws'', ''wss''} then FWebsocket metadata bodylen
                 else if u_Scheme uri \<in> {''http'', ''https''} then
                   (if cm_Method metadata \<in> set unary_methods then FUnary metadata bodylen
                    else FText 400 (''not support method: '' @ cm_Method metadata))
                 else FText 400 (''not support scheme: '' @ u_Scheme uri)))"

text \<open>\<open>forwardConn.Serve\<close> on the bytes that arrive on the channel.\<close>

definition Forward_Serve ::
    "(bytes \<Rightarrow> gerr + client_metadata) \<Rightarrow> (header \<Rightarrow> string list) \<Rightarrow> (string \<Rightarrow> gerr + url)
       \<Rightarrow> (url \<Rightarrow> string) \<Rightarrow> (gerr \<Rightarrow> string) \<Rightarrow> (url \<Rightarrow> gerr + url) option \<Rightarrow> bytes
       \<Rightarrow> forward_action \<times> bytes" where
  "Forward_Serve json order parse url_string err_text hookURL inp =
     (case ReadFull 10 inp of
        (_, Some e, r) \<Rightarrow> (FQuiet, r)
      | (b, None, r) \<Rightarrow>
          let metalen = unat (Uint16 b); bodylen = unat (Uint64 (drop 2 b)) in
          (case ReadFull metalen r of
             (_, Some e, r) \<Rightarrow> (FQuiet, r)
           | (b, None, r) \<Rightarrow>
               (case Unmarshal json order b of
                  Inl err \<Rightarrow> (FText 400 (err_text err), r)
                | Inr metadata \<Rightarrow>
                    (forward_dispatch parse url_string err_text hookURL metadata bodylen, r))))"

text \<open>
  What the actions for a tunnel do: \<open>dial\<close> is the error of the outgoing connection, if it
  fails.  Both refuse a body; success is the answer 101, after which bytes are relayed.
\<close>

datatype tunnel_result = TText int string | TSwitch

definition open_tunnel :: "(gerr \<Rightarrow> string) \<Rightarrow> nat \<Rightarrow> gerr option \<Rightarrow> tunnel_result" where
  "open_tunnel err_text bodylen dial =
     (if bodylen \<noteq> 0 then TText 400 ''bodylen invalid''
      else case dial of Some e \<Rightarrow> TText 502 (err_text e) | None \<Rightarrow> TSwitch)"

section \<open>Unary requests on the server\<close>

text \<open>The headers of the outgoing request; \<open>http.NewRequest\<close> starts with an empty map.\<close>

definition unary_header :: "header \<Rightarrow> nat \<Rightarrow> header" where
  "unary_header h bodylen =
     (let h' = (\<lambda>k. if ToLower k = ''connection'' \<or> ToLower k = ''content-length'' then None else h k)
      in if bodylen > 0 \<and> (case h' ''Content-Type'' of None \<Rightarrow> True | Some [] \<Rightarrow> True | Some (v # _) \<Rightarrow> v = [])
         then h'(''Content-Type'' \<mapsto> [''application/x-www-form-urlencoded'']) else h')"

text \<open>\<open>strconv.ParseUint\<close> in base ten with 64 bits.\<close>

definition digit_char :: "char \<Rightarrow> bool" where
  "digit_char c \<longleftrightarrow> 48 \<le> (of_char c :: nat) \<and> (of_char c :: nat) \<le> 57"

definition ParseUint :: "string \<Rightarrow> nat option" where
  "ParseUint s =
     (if s = [] \<or> \<not> (\<forall>c \<in> set s. digit_char c) then None
      else
        let n = foldl (\<lambda>n c. 10 * n + (of_char c - 48)) 0 s
        in if n < 2 ^ 64 then Some n else None)"

text \<open>
  The answer: \<open>URespond\<close> carries the announced length and the bytes copied behind the
  metadata, \<open>UText\<close> an error text.  \<open>num_text\<close> is the text of the error of \<open>strconv\<close> for a string that is
  not a number.  \<open>body\<close> is what the target sends and \<open>berr\<close> the error that
  reading it up to the limit meets.
\<close>

datatype unary_result = URespond nat bytes | UText int string

definition unary_response ::
    "(gerr \<Rightarrow> string) \<Rightarrow> (string \<Rightarrow> string) \<Rightarrow> int \<Rightarrow> string \<Rightarrow> bytes \<Rightarrow> gerr option \<Rightarrow> unary_result" where
  "unary_response err_text num_text status cl body berr =
     (if cl = [] then
        (case berr of
           Some e \<Rightarrow> UText 502 (err_text e)
         | None \<Rightarrow>
             let b = take (1024 * 32) body in
             if length b = 1024 * 32
             then UText 502 (''http response('' @ (if status < 0 then ''-'' @ Itoa (nat (- status)) else Itoa (nat status))
                               @ '') not set header: content-length'')
             else URespond (length b) b)
      else
        case ParseUint cl of
          None \<Rightarrow> UText 502 (''content-length error: '' @ num_text cl)
        | Some len \<Rightarrow>
            if len > MaxInt64 then UText 502 (''content-length too large: '' @ Itoa len)
            else URespond len (if len \<noteq> 0 then body else []))"

section \<open>Answers\<close>

text \<open>
  \<open>sendOk\<close> and \<open>sendText\<close> write the same frame; the length of the metadata is converted to 16 bits
  without a check.
\<close>

definition answer_frame :: "bytes \<Rightarrow> nat \<Rightarrow> bytes \<Rightarrow> bytes" where
  "answer_frame meta bodylen body =
     PutUint16 (of_nat (length meta)) @ PutUint64 (of_nat bodylen) @ meta @ body"

definition sendOk :: "(server_metadata \<Rightarrow> gerr + bytes) \<Rightarrow> gerr option \<Rightarrow> int \<Rightarrow> header option
    \<Rightarrow> nat \<Rightarrow> bytes \<Rightarrow> gerr + bytes" where
  "sendOk encode ctx_err status header bodylen body =
     (case ctx_err of
        Some e \<Rightarrow> Inl e
      | None \<Rightarrow>
          (case encode \<lparr>sm_Status = status, sm_Header = header\<rparr> of
             Inl e \<Rightarrow> Inl e
           | Inr meta \<Rightarrow> Inr (answer_frame meta bodylen (if bodylen \<noteq> 0 then body else []))))"

definition sendText :: "(server_metadata \<Rightarrow> gerr + bytes) \<Rightarrow> gerr option \<Rightarrow> int \<Rightarrow> string \<Rightarrow> bytes" where
  "sendText encode ctx_err status body =
     (case ctx_err of
        Some e \<Rightarrow> []
      | None \<Rightarrow>
          (case encode \<lparr>sm_Status = status,
                  sm_Header = Some [''Content-Type'' \<mapsto> [''text/plain; charset=utf-8'']]\<rparr> of
             Inl e \<Rightarrow> []
           | Inr meta \<Rightarrow> answer_frame meta (length body) (StringToBytes body)))"

text \<open>
  The body of an answer: \<open>nilReadCloser\<close>, or a \<open>readCloser\<close> over the connection with the bytes that
  it will give.  Only closing the second closes the connection.
\<close>

datatype response_body = NilReadCloser | ReadCloser bytes

fun body_bytes :: "response_body \<Rightarrow> bytes" where
  "body_bytes NilReadCloser = []"
| "body_bytes (ReadCloser b) = b"

fun body_closes_conn :: "response_body \<Rightarrow> bool" where
  "body_closes_conn NilReadCloser = False"
| "body_closes_conn (ReadCloser b) = True"

record message_response =
  mr_Status :: int
  mr_Header :: header
  mr_BodyLen :: nat
  mr_Body :: response_body

text \<open>
  What the client's goroutine makes of the answer: \<open>json\<close> decodes the metadata and \<open>order\<close> is the
  order in which the header map is walked.
\<close>

definition read_answer ::
    "(bytes \<Rightarrow> gerr + server_metadata) \<Rightarrow> (header \<Rightarrow> string list) \<Rightarrow> bytes \<Rightarrow> gerr + message_response" where
  "read_answer json order inp =
     (case ReadFull 10 inp of
        (_, Some e, _) \<Rightarrow> Inl e
      | (data, None, r) \<Rightarrow>
          let metalen = unat (Uint16 data); bodylen = unat (Uint64 (drop 2 data)) in
          if metalen = 0 then Inl (ErrText ''metalen invalid'')
          else if bodylen > MaxInt64 then Inl (ErrText ''bodylen invalid'')
          else
            (case ReadFull metalen r of
               (_, Some e, _) \<Rightarrow> Inl e
             | (data, None, r) \<Rightarrow>
                 (case json data of
                    Inl e \<Rightarrow> Inl e
                  | Inr md \<Rightarrow>
                      Inr \<lparr>mr_Status = sm_Status md,
                           mr_Header = (case sm_Header md of None \<Rightarrow> Map.empty
                                        | Some h \<Rightarrow> canonical_copy (order h) h),
                           mr_BodyLen = bodylen,
                           mr_Body = (if bodylen = 0 then NilReadCloser else ReadCloser (take bodylen r))\<rparr>)))"

section \<open>The calls of the client\<close>

text \<open>
  What a call meets: the error of the dialing, of its two writes and of its context, where there
  is one, and the bytes that arrive as the answer.
\<close>

record unary_env =
  ue_dial :: "gerr option"
  ue_write_head :: "gerr option"
  ue_write_body :: "gerr option"
  ue_ctx :: "gerr option"
  ue_in :: bytes

definition unary_goroutine ::
    "(bytes \<Rightarrow> gerr + server_metadata) \<Rightarrow> (header \<Rightarrow> string list) \<Rightarrow> unary_env \<Rightarrow> bytes \<Rightarrow> nat
       \<Rightarrow> bytes option \<Rightarrow> (bytes \<times> (gerr + message_response)) outcome" where
  "unary_goroutine json order env frame bodylen body =
     (case ue_write_head env of
        Some e \<Rightarrow> Done ([], Inl e)
      | None \<Rightarrow>
          bind_outcome (request_body bodylen body) (\<lambda>b.
            case (if bodylen > 0 then ue_write_body env else None) of
              Some e \<Rightarrow> Done (frame, Inl e)
            | None \<Rightarrow> Done (frame @ b, read_answer json order (ue_in env))))"

text \<open>
  \<open>unary\<close>: what its goroutine sends, whether the connection is open at the end, and the answer.  A panic
  of the goroutine ends the process.
\<close>

definition unary ::
    "(client_metadata \<Rightarrow> gerr + bytes) \<Rightarrow> (bytes \<Rightarrow> gerr + server_metadata) \<Rightarrow> (header \<Rightarrow> string list)
       \<Rightarrow> unary_env \<Rightarrow> bytes option \<Rightarrow> nat \<Rightarrow> client_metadata
       \<Rightarrow> (bytes \<times> bool \<times> (gerr + message_response)) outcome" where
  "unary encode json order env body bodylen md =
     (case encode md of
        Inl e \<Rightarrow> Done ([], False, Inl e)
      | Inr meta \<Rightarrow>
          (case request_frame meta bodylen of
             Inl e \<Rightarrow> Done ([], False, Inl e)
           | Inr frame \<Rightarrow>
               (case ue_dial env of
                  Some e \<Rightarrow> Done ([], False, Inl e)
                | None \<Rightarrow>
                    bind_outcome (unary_goroutine json order env frame bodylen body) (\<lambda>(sent, r).
                      case ue_ctx env of
                        Some e \<Rightarrow> Done (sent, False, Inl e)
                      | None \<Rightarrow> (case r of Inl e \<Rightarrow> Done (sent, False, Inl e) | Inr resp \<Rightarrow> Done (sent, True, Inr resp))))))"

text \<open>
  \<open>Unary\<close> closes the connection if the answer has no body; but its body is never nil.
\<close>

definition Unary ::
    "(string \<Rightarrow> gerr + url) \<Rightarrow> (client_metadata \<Rightarrow> gerr + bytes) \<Rightarrow> (bytes \<Rightarrow> gerr + server_metadata)
       \<Rightarrow> (header \<Rightarrow> string list) \<Rightarrow> unary_env \<Rightarrow> message_request
       \<Rightarrow> (bytes \<times> bool \<times> (gerr + message_response)) outcome" where
  "Unary parse encode json order env req =
     (case Unary_check parse req of
        Inl e \<Rightarrow> Done ([], False, Inl e)
      | Inr (md, n) \<Rightarrow> unary encode json order env (mq_Body req) n md)"

text \<open>
  The ends of \<open>Connect\<close> and \<open>Websocket\<close>: anything but the answer 101 is an error with the text of
  the answer's body, and closes the connection.
\<close>

definition Connect_finish :: "message_response \<Rightarrow> gerr option" where
  "Connect_finish resp =
     (if mr_Status resp \<noteq> 101 then
        let b = take 256 (body_bytes (mr_Body resp))
        in Some (ErrText (if b = [] then ''switching protocols error'' else BytesToString b))
      else None)"

definition Websocket_finish :: "message_response \<Rightarrow> gerr option" where
  "Websocket_finish resp =
     (if mr_Status resp \<noteq> 101 then
        (case ReadAll 256 (body_bytes (mr_Body resp)) of
           (_, Some e, _) \<Rightarrow> Some e
         | (b, None, _) \<Rightarrow>
             Some (ErrText (if b = [] then ''switching protocols error'' else BytesToString b)))
      else None)"

definition Connect ::
    "(string \<Rightarrow> gerr + url) \<Rightarrow> (url \<Rightarrow> string) \<Rightarrow> (client_metadata \<Rightarrow> gerr + bytes)
       \<Rightarrow> (bytes \<Rightarrow> gerr + server_metadata) \<Rightarrow> (header \<Rightarrow> string list) \<Rightarrow> unary_env \<Rightarrow> string
       \<Rightarrow> (bytes \<times> bool \<times> (gerr + message_response)) outcome" where
  "Connect parse port encode json order env u =
     (case Connect_check parse port u of
        Inl e \<Rightarrow> Done ([], False, Inl e)
      | Inr (md, n) \<Rightarrow>
          bind_outcome (unary encode json order env None n md) (\<lambda>(sent, opn, r).
            case r of
              Inl e \<Rightarrow> Done (sent, opn, Inl e)
            | Inr resp \<Rightarrow>
                (case Connect_finish resp of
                   Some e \<Rightarrow> Done (sent, False, Inl e)
                 | None \<Rightarrow> Done (sent, opn, Inr resp))))"

definition Websocket ::
    "(string \<Rightarrow> gerr + url) \<Rightarrow> (client_metadata \<Rightarrow> gerr + bytes)
       \<Rightarrow> (bytes \<Rightarrow> gerr + server_metadata) \<Rightarrow> (header \<Rightarrow> string list) \<Rightarrow> unary_env \<Rightarrow> string
       \<Rightarrow> header option \<Rightarrow> (bytes \<times> bool \<times> (gerr + message_response)) outcome" where
  "Websocket parse encode json order env u header =
     (case Websocket_check parse u header of
        Inl e \<Rightarrow> Done ([], False, Inl e)
      | Inr (md, n) \<Rightarrow>
          bind_outcome (unary encode json order env None n md) (\<lambda>(sent, opn, r).
            case r of
              Inl e \<Rightarrow> Done (sent, opn, Inl e)
            | Inr resp \<Rightarrow>
                (case Websocket_finish resp of
                   Some e \<Rightarrow> Done (sent, False, Inl e)
                 | None \<Rightarrow> Done (sent, opn, Inr resp))))"

section \<open>Requests and answers across a channel\<close>

lemma bodylen_roundtrip: "n < 2 ^ 64 \<Longrightarrow> unat (of_nat n :: 64 word) = n"
  by (rule unat_of_nat_le) simp

lemma metalen_roundtrip: "n \<le> MaxUint16 \<Longrightarrow> unat (of_nat n :: 16 word) = n"
  by (rule unat_of_nat_le) simp

lemma header_fields:
  assumes "length m = 2" "length l = 8"
  shows "ReadFull 10 (m @ l @ s) = (m @ l, None, s)"
  using assms by (intro ReadFull_append2) simp

lemma request_exact:
  assumes "bodylen < 2 ^ 64"
  shows "case request_frame meta bodylen of
      Inl e \<Rightarrow> length meta > 65535 \<and> e = ErrText ''metadata length too long''
    | Inr frame \<Rightarrow> length meta \<le> 65535 \<and>
        Forward_Serve json order parse url_string err_text hook (frame @ body) =
          (case Unmarshal json order meta of
             Inl err \<Rightarrow> (FText 400 (err_text err), body)
           | Inr metadata \<Rightarrow> (forward_dispatch parse url_string err_text hook metadata bodylen, body))"
  using assms
  by (auto simp: request_frame_def Forward_Serve_def header_fields u16.drop_put
      bodylen_roundtrip metalen_roundtrip Let_def split: sum.split)

lemma answer_exact:
  assumes "0 < length meta" "length meta \<le> 65535" "bodylen \<le> MaxInt64" "json meta = Inr md"
  shows "\<exists>resp. read_answer json order (answer_frame meta bodylen body) = Inr resp
    \<and> mr_Status resp = sm_Status md
    \<and> mr_Header resp = (case sm_Header md of None \<Rightarrow> Map.empty | Some h \<Rightarrow> canonical_copy (order h) h)
    \<and> mr_BodyLen resp = bodylen \<and> body_bytes (mr_Body resp) = take bodylen body"
proof -
  have "unat (of_nat bodylen :: 64 word) = bodylen"
    using assms(3) by (intro bodylen_roundtrip) simp
  moreover have "unat (of_nat (length meta) :: 16 word) = length meta"
    using assms(2) by (intro metalen_roundtrip)
  ultimately show ?thesis
    using assms by (simp add: read_answer_def answer_frame_def header_fields u16.drop_put Let_def)
qed

lemma read_answer_body:
  "read_answer json order inp = Inr resp \<Longrightarrow> body_closes_conn (mr_Body resp) \<longleftrightarrow> mr_BodyLen resp \<noteq> 0"
  by (auto simp: read_answer_def Let_def split: prod.splits option.splits if_splits sum.splits)

text \<open>
  The server does not check the length of the metadata of an answer: with 65536 bytes the frame
  announces 0, and the client fails although the server has sent everything.
\<close>

theorem answer_metadata_truncated:
  assumes "encode \<lparr>sm_Status = status, sm_Header = header\<rparr> = Inr meta" "length meta = 65536"
  shows "\<exists>frame. sendOk encode None status header bodylen body = Inr frame
    \<and> read_answer json order frame = Inl (ErrText ''metalen invalid'')"
proof -
  have "(of_nat (length meta) :: 16 word) = 0" by (simp add: assms(2))
  then show ?thesis
    using assms(1) by (simp add: sendOk_def read_answer_def answer_frame_def header_fields Let_def)
qed

theorem answer_metadata_truncated_witness:
  "\<exists>frame. sendOk (\<lambda>_. Inr (replicate 65536 32)) None 200 None 0 [] = Inr frame
    \<and> read_answer (\<lambda>_. Inl EOF) (\<lambda>_. []) frame = Inl (ErrText ''metalen invalid'')"
  by (rule answer_metadata_truncated [of "\<lambda>_. Inr (replicate 65536 32)" _ _ "replicate 65536 32"]) simp_all



lemma client_schemes:
  assumes "Unary_check parse req = Inr (md, n)"
  shows "\<exists>uri. parse (mq_URL req) = Inr uri \<and> u_Scheme uri \<in> {''http'', ''https''} \<and> u_Host uri \<noteq> []
    \<and> cm_URL md = mq_URL req \<and> cm_Method md = mq_Method req \<and> cm_Method md \<in> set unary_methods
    \<and> n = mq_BodyLen req"
  using assms by (auto simp: Unary_check_def Let_def unary_methods_def split: sum.splits if_splits)

text \<open>
  Without a hook, a unary request that passes the checks of the client and whose body length is a
  signed number passes those of the server: it is sent on with its method and URL.
\<close>

theorem unary_accepted:
  assumes "Unary_check parse req = Inr (md, n)" "n \<le> MaxInt64"
  shows "forward_dispatch parse url_string err_text None md n = FUnary md n
    \<and> cm_URL md = mq_URL req \<and> cm_Method md = mq_Method req"
  using client_schemes [OF assms(1)] assms(2) by (auto simp: forward_dispatch_def)

definition sample_request :: message_request where
  "sample_request = \<lparr>mq_URL = ''http://a'', mq_Method = ''GET'', mq_Header = None, mq_Body = None,
     mq_BodyLen = 5\<rparr>"

theorem unary_accepted_witness:
  "\<exists>md n. Unary_check (\<lambda>_. Inr \<lparr>u_Scheme = ''http'', u_Host = ''a'', u_rest = []\<rparr>) sample_request = Inr (md, n)
    \<and> n = 5 \<and> cm_Method md = ''GET''"
  using unary_accepted [of "\<lambda>_. Inr \<lparr>u_Scheme = ''http'', u_Host = ''a'', u_rest = []\<rparr>" sample_request
      "\<lparr>cm_URL = ''http://a'', cm_Method = ''GET'', cm_Header = None\<rparr>" 5]
  by (simp add: Unary_check_def sample_request_def)

text \<open>
  The checks replace the length of a missing body by zero but pass on the field: a unary
  request with a length and no body crashes the client once its header is written.
\<close>

theorem unary_nil_body_panics:
  assumes "Unary_check parse req = Inr (md, n)" "encode md = Inr meta" "length meta \<le> 65535"
    "0 < mq_BodyLen req" "mq_BodyLen req \<le> MaxInt64" "mq_Body req = None"
    "ue_dial env = None" "ue_write_head env = None"
  shows "Unary parse encode json order env req = Panic"
  using assms client_schemes [OF assms(1)]
  by (auto simp: Unary_def unary_def unary_goroutine_def request_frame_def request_body_def)

definition quiet_env :: "bytes \<Rightarrow> unary_env" where
  "quiet_env inp = \<lparr>ue_dial = None, ue_write_head = None, ue_write_body = None, ue_ctx = None, ue_in = inp\<rparr>"

theorem unary_nil_body_panics_witness:
  "Unary (\<lambda>_. Inr \<lparr>u_Scheme = ''http'', u_Host = ''a'', u_rest = []\<rparr>) (\<lambda>_. Inr [123, 125])
     (\<lambda>_. Inl EOF) (\<lambda>_. []) (quiet_env []) sample_request = Panic"
  by (rule unary_nil_body_panics
      [of _ sample_request "\<lparr>cm_URL = ''http://a'', cm_Method = ''GET'', cm_Header = None\<rparr>" 5 _ "[123, 125]"])
    (simp_all add: Unary_check_def sample_request_def quiet_env_def)

text \<open>
  A unary call across a channel: when nothing fails, the server receives the request it was made
  for, with as much of the body as announced, and the answer comes back with its status and body.  An
  answer without a body leaves the connection open, and closing that body does not close it.
\<close>

theorem unary_call:
  assumes "Unary_check parse req = Inr (md, n)" "n \<le> MaxInt64" "mq_Body req = Some body"
    "encode md = Inr meta" "length meta \<le> 65535" "Unmarshal sjson sorder meta = Inr md'"
    "0 < length ameta" "length ameta \<le> 65535" "json ameta = Inr amd" "alen \<le> MaxInt64"
  shows "\<exists>sent resp. Unary parse encode json order (quiet_env (answer_frame ameta alen abody)) req
      = Done (sent, True, Inr resp)
    \<and> Forward_Serve sjson sorder parse' url_string err_text hook sent =
        (forward_dispatch parse' url_string err_text hook md' n, take n body)
    \<and> mr_Status resp = sm_Status amd \<and> mr_BodyLen resp = alen
    \<and> body_bytes (mr_Body resp) = take alen abody
    \<and> (body_closes_conn (mr_Body resp) \<longleftrightarrow> alen \<noteq> 0)"
proof -
  obtain resp where r: "read_answer json order (answer_frame ameta alen abody) = Inr resp"
    "mr_Status resp = sm_Status amd" "mr_BodyLen resp = alen" "body_bytes (mr_Body resp) = take alen abody"
    using answer_exact [of ameta alen json amd order abody, OF assms(7,8,10,9)] by blast
  have c: "body_closes_conn (mr_Body resp) \<longleftrightarrow> alen \<noteq> 0"
    using r(1,3) read_answer_body [OF r(1)] by auto
  obtain frame where f: "request_frame meta n = Inr frame"
    "Forward_Serve sjson sorder parse' url_string err_text hook (frame @ take n body) =
        (forward_dispatch parse' url_string err_text hook md' n, take n body)"
    using request_exact [of n meta sjson sorder parse' url_string err_text hook "take n body"] assms(2,5,6)
    by (cases "request_frame meta n") (auto simp: request_frame_def)
  have "Unary parse encode json order (quiet_env (answer_frame ameta alen abody)) req
      = Done (frame @ take n body, True, Inr resp)"
    using assms(1-4) f(1) r(1)
    by (auto simp: Unary_def unary_def unary_goroutine_def request_body_def quiet_env_def)
  then show ?thesis using f(2) r c by blast
qed

theorem unary_call_witness:
  "\<exists>sent resp. Unary (\<lambda>_. Inr \<lparr>u_Scheme = ''http'', u_Host = ''a'', u_rest = []\<rparr>) (\<lambda>_. Inr [123, 125])
      (\<lambda>_. Inr \<lparr>sm_Status = 204, sm_Header = None\<rparr>) (\<lambda>_. []) (quiet_env (answer_frame [123, 125] 0 []))
      (sample_request\<lparr>mq_Body := Some [1, 2, 3, 4, 5, 6]\<rparr>) = Done (sent, True, Inr resp)
    \<and> mr_Status resp = 204 \<and> \<not> body_closes_conn (mr_Body resp)"
  using unary_call [of "\<lambda>_. Inr \<lparr>u_Scheme = ''http'', u_Host = ''a'', u_rest = []\<rparr>"
      "sample_request\<lparr>mq_Body := Some [1, 2, 3, 4, 5, 6]\<rparr>"
      "\<lparr>cm_URL = ''http://a'', cm_Method = ''GET'', cm_Header = None\<rparr>" 5 "[1, 2, 3, 4, 5, 6]"
      "\<lambda>_. Inr [123, 125]" "[123, 125]"
      "\<lambda>_. Inr (sample_metadata\<lparr>cm_Header := None\<rparr>)" "\<lambda>_. []" "sample_metadata\<lparr>cm_Header := None\<rparr>"
      "[123, 125]" "\<lambda>_. Inr \<lparr>sm_Status = 204, sm_Header = None\<rparr>" "\<lparr>sm_Status = 204, sm_Header = None\<rparr>" 0
      "\<lambda>_. []" "[]" "\<lambda>_. Inl EOF" u_Host "\<lambda>_. []" None]
  by (auto simp: Unary_check_def sample_request_def Unmarshal_def)

text \<open>
  An error text of the server reaches the caller of \<open>Connect\<close> and \<open>Websocket\<close>: up to its first 256
  characters it is the error that they return, and the connection is closed.
\<close>

theorem tunnel_error_reported:
  assumes "Connect_check parse port u = Inr (md, 0)" "Websocket_check parse' u' header = Inr (wmd, 0)"
    "encode md = Inr meta" "length meta \<le> 65535" "encode wmd = Inr wmeta" "length wmeta \<le> 65535"
    "status \<noteq> 101" "text \<noteq> []" "length text \<le> MaxInt64"
    "\<forall>h. sencode \<lparr>sm_Status = status, sm_Header = h\<rparr> = Inr ameta"
    "0 < length ameta" "length ameta \<le> 65535" "json ameta = Inr amd" "sm_Status amd = status"
  shows "(\<exists>sent. Connect parse port encode json order (quiet_env (sendText sencode None status text)) u
      = Done (sent, False, Inl (ErrText (take 256 text))))
    \<and> (\<exists>sent. Websocket parse' encode json order (quiet_env (sendText sencode None status text)) u' header
      = Done (sent, False, Inl (ErrText (take 256 text))))"
proof -
  have st: "sendText sencode None status text = answer_frame ameta (length text) (StringToBytes text)"
    using assms(10) by (simp add: sendText_def)
  obtain resp where r: "read_answer json order (answer_frame ameta (length text) (StringToBytes text)) = Inr resp"
    "mr_Status resp = status" "body_bytes (mr_Body resp) = StringToBytes text"
    using answer_exact [of ameta "length text" json amd order "StringToBytes text", OF assms(11,12,9,13)] assms(14)
    by auto
  have b: "BytesToString (take 256 (StringToBytes text)) = take 256 text"
    by (simp add: StringToBytes_def BytesToString_def take_map unat_of_char comp_def)
  have ne: "StringToBytes text \<noteq> []" using assms(8) by (auto simp: StringToBytes_def)
  have fin: "Connect_finish resp = Some (ErrText (take 256 text))"
    "Websocket_finish resp = Some (ErrText (take 256 text))"
    using r(2,3) assms(7,8) b ne by (simp_all add: Connect_finish_def Websocket_finish_def ReadAll_nonempty Let_def)
  show ?thesis
    using assms(1-6) r(1) fin st
    by (simp add: Connect_def Websocket_def unary_def request_frame_def unary_goroutine_def
        request_body_def quiet_env_def)
qed

theorem tunnel_error_reported_witness:
  "\<exists>sent. Connect (\<lambda>_. Inr \<lparr>u_Scheme = ''tcp'', u_Host = ''a:1'', u_rest = []\<rparr>) (\<lambda>_. ''1'')
      (\<lambda>_. Inr [123, 125]) (\<lambda>_. Inr \<lparr>sm_Status = 502, sm_Header = None\<rparr>) (\<lambda>_. [])
      (quiet_env (sendText (\<lambda>_. Inr [123, 125]) None 502 ''refused'')) ''tcp://a:1''
    = Done (sent, False, Inl (ErrText ''refused''))"
  using tunnel_error_reported
    [of "\<lambda>_. Inr \<lparr>u_Scheme = ''tcp'', u_Host = ''a:1'', u_rest = []\<rparr>" "\<lambda>_. ''1''" "''tcp://a:1''"
       "\<lparr>cm_URL = ''tcp://a:1'', cm_Method = [], cm_Header = None\<rparr>"
       "\<lambda>_. Inr \<lparr>u_Scheme = ''ws'', u_Host = ''a'', u_rest = []\<rparr>" "''ws://a''" None
       "\<lparr>cm_URL = ''ws://a'', cm_Method = [], cm_Header = None\<rparr>"
       "\<lambda>_. Inr [123, 125]" "[123, 125]" "[123, 125]" 502 "''refused''" "\<lambda>_. Inr [123, 125]" "[123, 125]"
       "\<lambda>_. Inr \<lparr>sm_Status = 502, sm_Header = None\<rparr>" "\<lparr>sm_Status = 502, sm_Header = None\<rparr>" "\<lambda>_. []"]
  by (simp add: Connect_check_def Websocket_check_def)

section \<open>Headers and lengths of a unary exchange\<close>

text \<open>
  The outgoing request has every header of the metadata except Connection and Content-Length in
  any spelling, and nothing else but a content type when there is a body and no type was given.
\<close>

theorem unary_header_filter:
  "unary_header h n k =
     (if k = ''Content-Type'' \<and> n > 0 \<and> (h k = None \<or> h k = Some [] \<or> (\<exists>vs. h k = Some ([] # vs)))
      then Some [''application/x-www-form-urlencoded'']
      else if ToLower k \<in> {''connection'', ''content-length''} then None else h k)"
proof -
  have ct: "ToLower ''Content-Type'' = ''content-type''"
    by code_simp
  show ?thesis
    by (auto simp: unary_header_def Let_def ct split: option.splits list.splits)
qed

lemma of_char_digit: "d < 10 \<Longrightarrow> (of_char (char_of (48 + d)) :: nat) = 48 + d"
  by (simp add: of_char_of)

lemma Itoa_digits: "c \<in> set (Itoa n) \<Longrightarrow> digit_char c"
proof (induction n rule: Itoa.induct)
  case (1 n)
  then show ?case
    by (subst (asm) (2) Itoa.simps) (auto simp: digit_char_def of_char_digit split: if_splits)
qed

lemma Itoa_value: "foldl (\<lambda>n c. 10 * n + (of_char c - 48)) 0 (Itoa n) = (n :: nat)"
proof (induction n rule: Itoa.induct)
  case (1 n)
  then show ?case
    by (subst Itoa.simps) (auto simp: of_char_digit)
qed

lemma ParseUint_Itoa: "n < 2 ^ 64 \<Longrightarrow> ParseUint (Itoa n) = Some n"
  by (auto simp: ParseUint_def Itoa_value intro: Itoa_digits)

text \<open>
  An answer whose target announced its length in decimal is passed on under that length with
  the target's whole body; without an announcement the length is counted, up to 32 KiB, and a
  longer body is a gateway error.
\<close>

theorem unary_response_length:
  assumes "len \<le> MaxInt64"
  shows "unary_response err_text num_text st (Itoa len) body berr = URespond len (if len \<noteq> 0 then body else [])
    \<and> unary_response err_text num_text st [] body None =
      (if length body < 32768 then URespond (length body) body
       else UText 502 (''http response('' @ (if st < 0 then ''-'' @ Itoa (nat (- st)) else Itoa (nat st))
              @ '') not set header: content-length''))"
  using assms by (auto simp: unary_response_def ParseUint_Itoa Let_def)

theorem unary_response_length_witness:
  "unary_response (\<lambda>_. []) (\<lambda>_. []) 200 (Itoa 3) [1, 2, 3] None = URespond 3 [1, 2, 3]"
  using unary_response_length [of 3] by simp

section \<open>The buffer\<close>

text \<open>
  In the order in which \<open>Serve\<close> and the senders ask for it, the buffer is always large enough,
  only slices of 1024 bytes are returned to the pool, and closing keeps no pooled slice.
\<close>

theorem buffer_pool_sizes:
  "let (b1, n1, p1) = getBuffer None 10; (b2, n2, p2) = getBuffer b1 metalen;
       b3 = getBytes b2; (b4, p4) = freeBuffer b3
   in n1 = 10 \<and> n2 = metalen \<and> (\<exists>l. b3 = Some l \<and> 1024 \<le> l \<and> metalen \<le> l)
      \<and> set (p1 @ p2 @ p4) \<subseteq> {1024} \<and> (b4 = None \<longleftrightarrow> metalen \<le> 1024)"
  by (auto simp: getBuffer_def getBytes_def freeBuffer_def Let_def)

end
