(* ===== verification/ServerHandler.thy ===== *)
theory ServerHandler
  imports Forward
begin

text \<open>
  The handler of a channel, \<open>channelHandler.ServeChannel\<close> of \<open>server_handler.go\<close>, whole: it reads a
  request, decides with the functions of Forward, acts, answers on the channel and closes it.  The
  network is met through the outcomes of the outgoing calls, collected in an environment.
\<close>

section \<open>Actions\<close>

record http_response =
  hp_Status :: int
  hp_Header :: header
  hp_Body :: bytes
  hp_BodyErr :: "gerr option"

text \<open>
  The error of the channel's context when an answer is sent, the encoder of metadata, the texts of
  errors, the error of dialling out for a tunnel and of building a request, and what the HTTP client
  makes of a request with its method, URL, headers and body.
\<close>

record handler_env =
  he_ctx :: "gerr option"
  he_encode :: "server_metadata \<Rightarrow> gerr + bytes"
  he_err_text :: "gerr \<Rightarrow> string"
  he_num_text :: "string \<Rightarrow> string"
  he_dial :: "gerr option"
  he_request :: "gerr option"
  he_do :: "string \<Rightarrow> string \<Rightarrow> header \<Rightarrow> bytes \<Rightarrow> gerr + http_response"

abbreviation he_text :: "handler_env \<Rightarrow> int \<Rightarrow> string \<Rightarrow> bytes" where
  "he_text env \<equiv> sendText (he_encode env) (he_ctx env)"

text \<open>What \<open>sendOk\<close> leaves on the channel: nothing when it fails before its write.\<close>

definition he_ok :: "handler_env \<Rightarrow> int \<Rightarrow> header option \<Rightarrow> nat \<Rightarrow> bytes \<Rightarrow> bytes \<times> bool" where
  "he_ok env status header bodylen body =
     (case sendOk (he_encode env) (he_ctx env) status header bodylen body of
        Inl e \<Rightarrow> ([], False)
      | Inr out \<Rightarrow> (out, True))"

text \<open>\<open>http.Header.Get\<close>: the first value of the canonical key.\<close>

definition header_Get :: "header \<Rightarrow> string \<Rightarrow> string" where
  "header_Get h k = (case h (CanonicalMIMEHeaderKey k) of Some (v # _) \<Rightarrow> v | _ \<Rightarrow> [])"

definition serve_unary :: "handler_env \<Rightarrow> client_metadata \<Rightarrow> nat \<Rightarrow> bytes \<Rightarrow> bytes" where
  "serve_unary env md bodylen rest =
     (case he_request env of
        Some e \<Rightarrow> he_text env 400 (he_err_text env e)
      | None \<Rightarrow>
          (case he_do env (cm_Method md) (cm_URL md)
                  (unary_header (case cm_Header md of None \<Rightarrow> Map.empty | Some h \<Rightarrow> h) bodylen) (take bodylen rest) of
             Inl e \<Rightarrow> he_text env 502 (he_err_text env e)
           | Inr resp \<Rightarrow>
               (case unary_response (he_err_text env) (he_num_text env) (hp_Status resp)
                       (header_Get (hp_Header resp) ''content-length'') (hp_Body resp) (hp_BodyErr resp) of
                  UText st t \<Rightarrow> he_text env st t
                | URespond len b \<Rightarrow> fst (he_ok env (hp_Status resp) (Some (hp_Header resp)) len b))))"

text \<open>The beginning of a tunnel: what is answered, and whether the relays start.\<close>

definition serve_tunnel :: "handler_env \<Rightarrow> nat \<Rightarrow> bytes \<times> bool" where
  "serve_tunnel env bodylen =
     (case open_tunnel (he_err_text env) bodylen (he_dial env) of
        TText st t \<Rightarrow> (he_text env st t, False)
      | TSwitch \<Rightarrow> he_ok env 101 None 0 [])"

definition serve_action :: "handler_env \<Rightarrow> forward_action \<Rightarrow> bytes \<Rightarrow> bytes \<times> bool" where
  "serve_action env act rest =
     (case act of
        FQuiet \<Rightarrow> ([], False)
      | FText st t \<Rightarrow> (he_text env st t, False)
      | FTcp uri md n \<Rightarrow> serve_tunnel env n
      | FWebsocket md n \<Rightarrow> serve_tunnel env n
      | FUnary md n \<Rightarrow> (serve_unary env md n rest, False))"

text \<open>
  \<open>ServeChannel\<close>: what is written on the channel before any relay, whether relays start, and what of the
  input is left to them.
\<close>

definition ServeChannel ::
    "(bytes \<Rightarrow> gerr + client_metadata) \<Rightarrow> (header \<Rightarrow> string list) \<Rightarrow> (string \<Rightarrow> gerr + url)
       \<Rightarrow> (url \<Rightarrow> string) \<Rightarrow> (url \<Rightarrow> gerr + url) option \<Rightarrow> handler_env \<Rightarrow> bytes \<Rightarrow> bytes \<times> bool \<times> bytes" where
  "ServeChannel json order parse url_string hookURL env inp =
     (case Forward_Serve json order parse url_string (he_err_text env) hookURL inp of
        (act, rest) \<Rightarrow> (case serve_action env act rest of (out, relay) \<Rightarrow> (out, relay, rest)))"

text \<open>
  \<open>delayWait\<close>: how many nanoseconds pass between an answer that was written and the return of the handler, which
  closes the channel.  The argument says when the channel's context ends, counted from the answer, if it does.
\<close>

definition delayWait :: "nat option \<Rightarrow> nat" where
  "delayWait ctx_done =
     (case ctx_done of
        None \<Rightarrow> 5 * 1000000000
      | Some t \<Rightarrow> if t < 5 * 1000000000 then t else 5 * 1000000000)"

text \<open>The peer has five seconds to take the answer, or until it closes the channel itself, but never more.\<close>

lemma delayWait_bounds:
  "delayWait d \<le> 5 * 1000000000"
  "d = None \<or> (\<exists>t. d = Some t \<and> t \<ge> 5 * 1000000000) \<Longrightarrow> delayWait d = 5 * 1000000000"
  by (auto simp: delayWait_def split: option.split)

section \<open>Every request is answered\<close>

text \<open>
  The metadata of the answers that a handler may send: a text with status 400 or 502, the switch to a
  tunnel, and the answers of the HTTP client.
\<close>

definition text_md :: "int \<Rightarrow> server_metadata" where
  "text_md st = \<lparr>sm_Status = st, sm_Header = Some [''Content-Type'' \<mapsto> [''text/plain; charset=utf-8'']]\<rparr>"

definition switch_md :: server_metadata where
  "switch_md = \<lparr>sm_Status = 101, sm_Header = None\<rparr>"

definition response_md :: "http_response \<Rightarrow> server_metadata" where
  "response_md resp = \<lparr>sm_Status = hp_Status resp, sm_Header = Some (hp_Header resp)\<rparr>"

text \<open>The encoder's bytes fit the 16 bit length, and \<open>json\<close> reads them back.\<close>

definition readable :: "(bytes \<Rightarrow> gerr + server_metadata) \<Rightarrow> handler_env \<Rightarrow> server_metadata \<Rightarrow> bool" where
  "readable json env md \<longleftrightarrow>
     (\<exists>b. he_encode env md = Inr b \<and> 0 < length b \<and> length b \<le> 65535 \<and> json b = Inr md)"

text \<open>
  An environment whose context is live and whose metadata are readable; the texts of errors have lengths that
  leave room for a prefix in a 63 bit length, and a status is a 64 bit number.
\<close>

definition env_ok :: "(bytes \<Rightarrow> gerr + server_metadata) \<Rightarrow> handler_env \<Rightarrow> bool" where
  "env_ok json env \<longleftrightarrow> he_ctx env = None
     \<and> readable json env (text_md 400) \<and> readable json env (text_md 502) \<and> readable json env switch_md
     \<and> (\<forall>e. length (he_err_text env e) \<le> MaxInt64 - 64) \<and> (\<forall>s. length (he_num_text env s) \<le> MaxInt64 - 64)
     \<and> (\<forall>u m h b resp. he_do env u m h b = Inr resp \<longrightarrow>
          readable json env (response_md resp) \<and> \<bar>hp_Status resp\<bar> \<le> int MaxInt64)"

text \<open>What a client finds at the head of the bytes: an answer with this status and body.\<close>

definition answers :: "(bytes \<Rightarrow> gerr + server_metadata) \<Rightarrow> (header \<Rightarrow> string list) \<Rightarrow> bytes \<Rightarrow> int \<Rightarrow> bytes \<Rightarrow> bool" where
  "answers json order out st body \<longleftrightarrow>
     (\<exists>resp. read_answer json order out = Inr resp \<and> mr_Status resp = st \<and> body_bytes (mr_Body resp) = body)"

lemma answer_frame_answers:
  assumes "readable json env md" "he_encode env md = Inr meta" "bodylen \<le> MaxInt64"
  shows "answers json order (answer_frame meta bodylen body) (sm_Status md) (take bodylen body)"
  using answer_exact [of meta bodylen json md order body] assms by (auto simp: answers_def readable_def)

lemma he_text_answers:
  assumes "env_ok json env" "st = 400 \<or> st = 502" "length msg \<le> MaxInt64"
  shows "answers json order (he_text env st msg) st (StringToBytes msg)"
proof -
  have r: "readable json env (text_md st)" using assms(1,2) by (auto simp: env_ok_def)
  then obtain meta where m: "he_encode env (text_md st) = Inr meta" by (auto simp: readable_def)
  then have "he_text env st msg = answer_frame meta (length msg) (StringToBytes msg)"
    using assms(1) by (simp add: sendText_def env_ok_def text_md_def)
  then show ?thesis
    using answer_frame_answers [OF r m assms(3), of order "StringToBytes msg"] by (simp add: text_md_def)
qed

lemma he_ok_answers:
  assumes "he_ctx env = None" "readable json env \<lparr>sm_Status = st, sm_Header = header\<rparr>" "bodylen \<le> MaxInt64"
  shows "answers json order (fst (he_ok env st header bodylen body)) st (take bodylen body)
    \<and> snd (he_ok env st header bodylen body)"
proof -
  obtain meta where m: "he_encode env \<lparr>sm_Status = st, sm_Header = header\<rparr> = Inr meta"
    using assms(2) by (auto simp: readable_def)
  then have "he_ok env st header bodylen body
      = (answer_frame meta bodylen (if bodylen \<noteq> 0 then body else []), True)"
    using assms(1) by (simp add: he_ok_def sendOk_def)
  then show ?thesis
    using answer_frame_answers [OF assms(2) m assms(3), of order "if bodylen \<noteq> 0 then body else []"]
    by (cases "bodylen = 0") simp_all
qed

lemma Itoa_digits_bound: "n < 10 ^ Suc k \<Longrightarrow> length (Itoa n) \<le> Suc k"
proof (induction k arbitrary: n)
  case 0
  then show ?case by (subst Itoa.simps) simp
next
  case (Suc k)
  show ?case
  proof (cases "n < 10")
    case True
    then show ?thesis by (subst Itoa.simps) simp
  next
    case False
    have "n div 10 < 10 ^ Suc k" using Suc.prems by (simp add: less_mult_imp_div_less)
    then show ?thesis using Suc.IH False by (subst Itoa.simps) simp
  qed
qed

lemma Itoa_length_64: "n < 10 ^ 20 \<Longrightarrow> length (Itoa n) \<le> 20"
  using Itoa_digits_bound [of n 19] by simp

lemma unary_response_text:
  assumes "unary_response err_text num_text st cl body berr = UText c t" "\<bar>st\<bar> \<le> int MaxInt64"
    "\<And>e. length (err_text e) \<le> MaxInt64 - 64" "\<And>s. length (num_text s) \<le> MaxInt64 - 64"
  shows "c = 502 \<and> length t \<le> MaxInt64"
proof -
  have "nat st < 10 ^ 20" "nat (- st) < 10 ^ 20" using assms(2) by auto
  then have st: "length (Itoa (nat st)) \<le> 20" "length (Itoa (nat (- st))) \<le> 20"
    using Itoa_length_64 by blast+
  have len: "length (Itoa n) \<le> 20" if "ParseUint cl = Some n" for n
    using that by (intro Itoa_length_64) (auto simp: ParseUint_def Let_def split: if_splits)
  have num: "length (num_text cl) \<le> MaxInt64 - 22" using assms(4) [of cl] by simp
  have err: "length (err_text e) \<le> MaxInt64" for e using assms(3) [of e] by simp
  show ?thesis
    using assms(1) st len num err
    by (auto simp: unary_response_def Let_def split: if_splits option.splits)
qed

lemma unary_response_len:
  "unary_response err_text num_text st cl body berr = URespond n b \<Longrightarrow> n \<le> MaxInt64"
  by (auto simp: unary_response_def Let_def split: if_splits option.splits)

text \<open>
  What the beginning of a tunnel answers, as the client reads it: 101 exactly when the relays start,
  which is when no body was announced and the target was reached.
\<close>

definition tunnel_answer :: "handler_env \<Rightarrow> nat \<Rightarrow> int \<times> string" where
  "tunnel_answer env n =
     (if n \<noteq> 0 then (400, ''bodylen invalid'')
      else case he_dial env of Some e \<Rightarrow> (502, he_err_text env e) | None \<Rightarrow> (101, []))"

lemma err_text_length: "env_ok json env \<Longrightarrow> length (he_err_text env e) \<le> MaxInt64"
  by (auto simp: env_ok_def intro: order_trans)

lemma serve_tunnel_answers:
  assumes "env_ok json env"
  shows "answers json order (fst (serve_tunnel env n)) (fst (tunnel_answer env n))
      (StringToBytes (snd (tunnel_answer env n)))
    \<and> (snd (serve_tunnel env n) \<longleftrightarrow> n = 0 \<and> he_dial env = None)"
proof -
  have sw: "answers json order (fst (he_ok env 101 None 0 [])) 101 [] \<and> snd (he_ok env 101 None 0 [])"
    using he_ok_answers [of env json 101 None 0 order "[]"] assms by (simp add: env_ok_def switch_md_def)
  show ?thesis
    using sw he_text_answers [OF assms, of 400 "''bodylen invalid''" order]
      he_text_answers [OF assms _ err_text_length [OF assms], of 502 order]
    by (auto simp: serve_tunnel_def open_tunnel_def tunnel_answer_def StringToBytes_def split: option.splits)
qed

lemma serve_unary_answers:
  assumes "env_ok json env"
  shows "\<exists>st body. answers json order (serve_unary env md n rest) st body"
proof -
  note tx = he_text_answers [OF assms _ err_text_length [OF assms]]
  let ?r = "he_do env (cm_Method md) (cm_URL md)
    (unary_header (case cm_Header md of None \<Rightarrow> Map.empty | Some h \<Rightarrow> h) n) (take n rest)"
  show ?thesis
  proof (cases "he_request env")
    case (Some x)
    then show ?thesis using tx [of 400] by (auto simp: serve_unary_def)
  next
    case None
    show ?thesis
    proof (cases ?r)
      case (Inl x)
      then show ?thesis using tx [of 502] None by (auto simp: serve_unary_def)
    next
      case (Inr resp)
      have ok: "he_ctx env = None" "readable json env (response_md resp)" "\<bar>hp_Status resp\<bar> \<le> int MaxInt64"
        "\<And>e. length (he_err_text env e) \<le> MaxInt64 - 64" "\<And>s. length (he_num_text env s) \<le> MaxInt64 - 64"
        using assms Inr unfolding env_ok_def by blast+
      show ?thesis
      proof (cases "unary_response (he_err_text env) (he_num_text env) (hp_Status resp)
                       (header_Get (hp_Header resp) ''content-length'') (hp_Body resp) (hp_BodyErr resp)")
        case (URespond len b)
        then show ?thesis
          using None Inr he_ok_answers [OF ok(1) ok(2) [unfolded response_md_def] unary_response_len [OF URespond], of order b]
          by (auto simp: serve_unary_def)
      next
        case (UText c t)
        have "c = 502 \<and> length t \<le> MaxInt64" using unary_response_text [OF UText ok(3,4,5)] .
        then show ?thesis
          using None Inr UText he_text_answers [OF assms, of 502 t order] by (auto simp: serve_unary_def)
      qed
    qed
  qed
qed

lemma ServeChannel_request:
  assumes "request_frame meta n = Inr frame" "n < 2 ^ 64"
  shows "ServeChannel cjson corder parse url_string hook env (frame @ body) =
    (let act = (case Unmarshal cjson corder meta of
                  Inl err \<Rightarrow> FText 400 (he_err_text env err)
                | Inr md \<Rightarrow> forward_dispatch parse url_string (he_err_text env) hook md n);
         r = serve_action env act body
     in (fst r, snd r, body))"
  using request_exact [OF assms(2), of meta cjson corder parse url_string "he_err_text env" hook body] assms(1)
  by (simp add: ServeChannel_def Let_def split_beta split: sum.splits)

lemma dispatch_text_status:
  "forward_dispatch parse url_string err_text hook md n = FText st t \<Longrightarrow> st = 400"
  by (auto simp: forward_dispatch_def split: if_splits sum.splits option.splits)

lemma serve_action_answers:
  assumes "env_ok json env" "act \<noteq> FQuiet"
    "\<And>st t. act = FText st t \<Longrightarrow> (st = 400 \<or> st = 502) \<and> length t \<le> MaxInt64"
  shows "(\<exists>st body. answers json order (fst (serve_action env act rest)) st body
      \<and> (snd (serve_action env act rest) \<longrightarrow> st = 101 \<and> body = []))
    \<and> (snd (serve_action env act rest) \<longleftrightarrow>
        he_dial env = None \<and> ((\<exists>uri md. act = FTcp uri md 0) \<or> (\<exists>md. act = FWebsocket md 0)))"
proof (cases act)
  case (FText st t)
  then show ?thesis
    using he_text_answers [OF assms(1), of st t order] assms(3) [OF FText] by (auto simp: serve_action_def)
next
  case (FUnary md n)
  then show ?thesis
    using serve_unary_answers [OF assms(1), of order md n rest] by (auto simp: serve_action_def)
next
  case (FTcp uri md n)
  then show ?thesis
    using serve_tunnel_answers [OF assms(1), of order n]
    by (auto simp: serve_action_def tunnel_answer_def StringToBytes_def split: option.splits if_splits)
next
  case (FWebsocket md n)
  then show ?thesis
    using serve_tunnel_answers [OF assms(1), of order n]
    by (auto simp: serve_action_def tunnel_answer_def StringToBytes_def split: option.splits if_splits)
qed (use assms(2) in simp)

text \<open>
  C8: whatever complete request arrives, the handler answers, and the client can read the answer: no
  branch leaves the channel without a word.  Relays start only for a tunnel without a body whose target was
  reached, and then the answer is the empty 101.
\<close>

theorem handler_answers:
  assumes "env_ok json env" "request_frame meta n = Inr frame" "n < 2 ^ 64"
    "\<And>md. Unmarshal cjson corder meta = Inr md \<Longrightarrow> length (cm_Method md) \<le> MaxInt64 - 64"
    "\<And>u uri. parse u = Inr uri \<Longrightarrow> length (u_Scheme uri) \<le> MaxInt64 - 64"
    "\<And>h uri uri'. hook = Some h \<Longrightarrow> h uri = Inr uri' \<Longrightarrow> length (u_Scheme uri') \<le> MaxInt64 - 64"
    "ServeChannel cjson corder parse url_string hook env (frame @ body) = (out, relay, rest)"
  shows "rest = body \<and> (\<exists>st msg. answers json order out st msg \<and> (relay \<longrightarrow> st = 101 \<and> msg = []))
    \<and> (relay \<longrightarrow> n = 0 \<and> he_dial env = None)"
proof -
  define act where "act = (case Unmarshal cjson corder meta of
      Inl err \<Rightarrow> FText 400 (he_err_text env err)
    | Inr md \<Rightarrow> forward_dispatch parse url_string (he_err_text env) hook md n)"
  have "st = 400 \<and> length t \<le> MaxInt64" if "act = FText st t" for st t
    using that err_text_length [OF assms(1)] assms(4-6)
    by (fastforce simp: act_def forward_dispatch_def split: sum.splits if_splits option.splits)
  moreover have "act \<noteq> FQuiet"
    by (auto simp: act_def forward_dispatch_def split: sum.splits if_splits option.splits)
  moreover have "m = n" if "act = FTcp uri md m \<or> act = FWebsocket md m" for uri md m
    using that by (auto simp: act_def forward_dispatch_def split: sum.splits if_splits option.splits)
  moreover have "out = fst (serve_action env act body)" "relay = snd (serve_action env act body)" "rest = body"
    using assms(7) ServeChannel_request [OF assms(2,3), of cjson corder parse url_string hook env body]
    by (auto simp: act_def Let_def)
  ultimately show ?thesis using serve_action_answers [OF assms(1), of act order body] by blast
qed


text \<open>An environment for the examples: the metadata that it sends are encoded as one byte.\<close>

definition sample_response :: http_response where
  "sample_response = \<lparr>hp_Status = 200, hp_Header = [''Content-Length'' \<mapsto> [''2'']], hp_Body = [7, 8], hp_BodyErr = None\<rparr>"

definition sample_encode :: "server_metadata \<Rightarrow> gerr + bytes" where
  "sample_encode md = Inr [if sm_Status md = 400 then 4 else if sm_Status md = 502 then 5
     else if sm_Status md = 101 then 1 else 2]"

definition sample_json :: "bytes \<Rightarrow> gerr + server_metadata" where
  "sample_json b = Inr (if b = [4] then text_md 400 else if b = [5] then text_md 502
     else if b = [1] then switch_md else response_md sample_response)"

definition sample_handler_env :: handler_env where
  "sample_handler_env = \<lparr>he_ctx = None, he_encode = sample_encode, he_err_text = (\<lambda>e. ''refused''),
     he_num_text = (\<lambda>s. ''invalid''), he_dial = None, he_request = None, he_do = (\<lambda>m u h b. Inr sample_response)\<rparr>"

lemma sample_env_ok: "env_ok sample_json (sample_handler_env\<lparr>he_dial := d\<rparr>)"
  by (simp add: env_ok_def readable_def sample_handler_env_def sample_encode_def sample_json_def text_md_def
      switch_md_def response_md_def sample_response_def)

theorem handler_answers_witness:
  "\<exists>st msg. answers sample_json (\<lambda>_. []) (fst (ServeChannel (\<lambda>_. Inl EOF) (\<lambda>_. []) (\<lambda>_. Inl EOF) (\<lambda>_. []) None
      sample_handler_env ((PutUint16 1 @ PutUint64 0 @ [9]) @ []))) st msg"
proof -
  have f: "request_frame [9] 0 = Inr (PutUint16 1 @ PutUint64 0 @ [9])"
    by (simp add: request_frame_def)
  have e: "env_ok sample_json sample_handler_env"
    using sample_env_ok [of None] by (simp add: sample_handler_env_def)
  show ?thesis
    using handler_answers [OF e f, of "\<lambda>_. Inl EOF" "\<lambda>_. []" "\<lambda>_. Inl EOF" None "\<lambda>_. []" "[]"]
    by (simp add: Unmarshal_def) (metis prod.collapse)
qed

section \<open>Calls across a channel\<close>

text \<open>A call of the client sends its request, whatever arrives, and then reads an answer.\<close>

lemma Unary_exchange:
  assumes "Unary_check parse req = Inr (md, n)" "n \<le> MaxInt64" "mq_Body req = Some body"
    "encode md = Inr meta" "length meta \<le> 65535"
  shows "\<exists>frame. request_frame meta n = Inr frame \<and>
    (\<forall>inp resp. read_answer json order inp = Inr resp \<longrightarrow>
       Unary parse encode json order (quiet_env inp) req = Done (frame @ take n body, True, Inr resp))"
proof -
  obtain frame where f: "request_frame meta n = Inr frame" using assms(5) by (simp add: request_frame_def)
  moreover have "Unary parse encode json order (quiet_env inp) req = Done (frame @ take n body, True, Inr resp)"
    if "read_answer json order inp = Inr resp" for inp resp
    using assms(1-4) f that
    by (auto simp: Unary_def unary_def unary_goroutine_def request_body_def quiet_env_def)
  ultimately show ?thesis by blast
qed

lemma Connect_exchange:
  assumes "Connect_check parse port u = Inr (md, 0)" "encode md = Inr meta" "length meta \<le> 65535"
  shows "\<exists>frame. request_frame meta 0 = Inr frame \<and>
    (\<forall>inp resp. read_answer json order inp = Inr resp \<longrightarrow>
       Connect parse port encode json order (quiet_env inp) u =
         Done (frame, Connect_finish resp = None,
               case Connect_finish resp of None \<Rightarrow> Inr resp | Some e \<Rightarrow> Inl e))"
proof -
  obtain frame where f: "request_frame meta 0 = Inr frame" using assms(3) by (simp add: request_frame_def)
  moreover have "Connect parse port encode json order (quiet_env inp) u =
         Done (frame, Connect_finish resp = None,
               case Connect_finish resp of None \<Rightarrow> Inr resp | Some e \<Rightarrow> Inl e)"
    if "read_answer json order inp = Inr resp" for inp resp
    using assms(1,2) f that
    by (auto simp: Connect_def unary_def unary_goroutine_def request_body_def quiet_env_def split: option.splits)
  ultimately show ?thesis by blast
qed



text \<open>
  C7: a tunnel from end to end: \<open>Connect\<close> succeeds, with its connection open, exactly when the server has reached
  the target and relays; otherwise the caller gets the text of the server's dialing error, up to 256
  characters of it, and the connection is closed.
\<close>

theorem connect_end_to_end:
  assumes "Connect_check parse port u = Inr (md, 0)" "encode md = Inr meta" "length meta \<le> 65535"
    "Unmarshal cjson corder meta = Inr md" "env_ok json env"
  shows "\<exists>sent out relay r. Connect parse port encode json order (quiet_env out) u = Done (sent, relay, r)
    \<and> ServeChannel cjson corder parse url_string None env sent = (out, relay, [])
    \<and> (case he_dial env of
         None \<Rightarrow> relay \<and> (\<exists>resp. r = Inr resp \<and> mr_Status resp = 101)
       | Some e \<Rightarrow> \<not> relay \<and> r = Inl (ErrText
           (if he_err_text env e = [] then ''switching protocols error'' else take 256 (he_err_text env e))))"
proof -
  obtain frame where f: "request_frame meta 0 = Inr frame"
    "\<And>inp resp. read_answer json order inp = Inr resp \<Longrightarrow>
       Connect parse port encode json order (quiet_env inp) u =
         Done (frame, Connect_finish resp = None,
               case Connect_finish resp of None \<Rightarrow> Inr resp | Some e \<Rightarrow> Inl e)"
    using Connect_exchange [of parse port u md encode meta json order] assms(1-3) by blast
  obtain uri where "forward_dispatch parse url_string (he_err_text env) None md 0 = FTcp uri md 0"
    using assms(1) by (auto simp: Connect_check_def forward_dispatch_def split: sum.splits if_splits)
  then have srv: "ServeChannel cjson corder parse url_string None env frame
      = (fst (serve_tunnel env 0), snd (serve_tunnel env 0), [])"
    using ServeChannel_request [OF f(1), of cjson corder parse url_string None env "[]"] assms(4)
    by (simp add: serve_action_def Let_def)
  obtain resp where r: "read_answer json order (fst (serve_tunnel env 0)) = Inr resp"
    "mr_Status resp = fst (tunnel_answer env 0)" "body_bytes (mr_Body resp) = StringToBytes (snd (tunnel_answer env 0))"
    using serve_tunnel_answers [OF assms(5), of order 0] by (auto simp: answers_def)
  have rel: "snd (serve_tunnel env 0) \<longleftrightarrow> he_dial env = None"
    using serve_tunnel_answers [OF assms(5), of order 0] by simp
  have b: "BytesToString (take 256 (StringToBytes s)) = take 256 s" for s
    by (simp add: StringToBytes_def BytesToString_def take_map unat_of_char comp_def)
  have ne: "StringToBytes s = [] \<longleftrightarrow> s = []" for s by (simp add: StringToBytes_def)
  show ?thesis
    by (intro exI [of _ frame] exI [of _ "fst (serve_tunnel env 0)"] exI [of _ "snd (serve_tunnel env 0)"]
          exI [of _ "case Connect_finish resp of None \<Rightarrow> Inr resp | Some e \<Rightarrow> Inl e"])
      (use f(2) r rel b ne srv in \<open>auto simp: tunnel_answer_def Connect_finish_def Let_def split: option.splits\<close>)
qed

theorem connect_end_to_end_witness:
  "\<exists>sent out. Connect (\<lambda>_. Inr \<lparr>u_Scheme = ''tcp'', u_Host = ''a:1'', u_rest = []\<rparr>) (\<lambda>_. ''1'')
      (\<lambda>_. Inr [123, 125]) sample_json (\<lambda>_. []) (quiet_env out) ''tcp://a:1''
    = Done (sent, False, Inl (ErrText ''refused''))"
proof -
  let ?md = "\<lparr>cm_URL = ''tcp://a:1'', cm_Method = [], cm_Header = None\<rparr>"
  show ?thesis
    using connect_end_to_end [of "\<lambda>_. Inr \<lparr>u_Scheme = ''tcp'', u_Host = ''a:1'', u_rest = []\<rparr>" "\<lambda>_. ''1''"
       "''tcp://a:1''" ?md "\<lambda>_. Inr [123, 125]" "[123, 125]" "\<lambda>_. Inr ?md" "\<lambda>_. []"
       sample_json "sample_handler_env\<lparr>he_dial := Some EOF\<rparr>" "\<lambda>_. []"] sample_env_ok [of "Some EOF"]
    by (fastforce simp: Connect_check_def Unmarshal_def sample_handler_env_def)
qed

end
