(* ===== verification/ServeLoop.thy ===== *)
theory ServeLoop
  imports Server
begin

text \<open>
  \<open>server.go\<close>: \<open>Server.Serve\<close> with the goroutines it waits for, the two functions that open the listener, and
  the getters.
\<close>

section \<open>Serve and its goroutines\<close>

text \<open>
  The loop is at \<open>Accept\<close> with its \<open>tempDelay\<close> in milliseconds, at \<open>wait.Wait()\<close> with the error it will return, or has
  returned.  One goroutine closes the listener when the server is closed; with an HTTP handler there is a second
  one, which runs \<open>http.Serve\<close> on the inner listener.
\<close>

datatype serve_pc = SvAccept nat | SvWait gerr | SvReturned gerr

record 'c serving =
  se_done :: bool
  se_open :: bool
  se_pc :: serve_pc
  se_closer :: bool
  se_http :: bool
  se_conns :: "'c list"

definition serve_begin :: "server_options \<Rightarrow> bool \<Rightarrow> 'c serving" where
  "serve_begin opts closed =
     \<lparr>se_done = closed, se_open = True, se_pc = SvAccept 0, se_closer = True, se_http = (so_handler opts \<noteq> None),
      se_conns = []\<rparr>"

text \<open>What the loop does with the outcome of \<open>Accept\<close>.\<close>

definition accept_turn :: "'c serving \<Rightarrow> nat \<Rightarrow> 'c accept_event \<Rightarrow> 'c serving" where
  "accept_turn s tempDelay ev =
     (case ev of
        AcceptConn c \<Rightarrow> s\<lparr>se_pc := SvAccept 0, se_conns := se_conns s @ [c]\<rparr>
      | AcceptTimeout closed \<Rightarrow>
          if closed then s\<lparr>se_pc := SvWait ErrServerClosed\<rparr> else s\<lparr>se_pc := SvAccept (next_delay tempDelay)\<rparr>
      | AcceptError closed err \<Rightarrow> s\<lparr>se_pc := SvWait (if closed then ErrServerClosed else err)\<rparr>)"

fun event_closed :: "'c accept_event \<Rightarrow> bool option" where
  "event_closed (AcceptConn c) = None"
| "event_closed (AcceptTimeout closed) = Some closed"
| "event_closed (AcceptError closed err) = Some closed"

text \<open>
  A closed listener accepts nothing and fails for good; \<open>http.Serve\<close> ends with the first error of the inner listener,
  whose \<open>Accept\<close> fails only when the server is closed.
\<close>

inductive serving_step :: "'c serving \<Rightarrow> 'c serving \<Rightarrow> bool" where
  sv_accept: "se_pc s = SvAccept d \<Longrightarrow> event_closed ev = None \<or> event_closed ev = Some (se_done s) \<Longrightarrow>
     (\<not> se_open s \<Longrightarrow> \<exists>err. ev = AcceptError (se_done s) err) \<Longrightarrow> serving_step s (accept_turn s d ev)"
| sv_close: "serving_step s (s\<lparr>se_done := True\<rparr>)"
| sv_closer: "se_closer s \<Longrightarrow> se_done s \<Longrightarrow> serving_step s (s\<lparr>se_open := False, se_closer := False\<rparr>)"
| sv_http: "se_http s \<Longrightarrow> se_done s \<Longrightarrow> serving_step s (s\<lparr>se_http := False\<rparr>)"
| sv_return: "se_pc s = SvWait err \<Longrightarrow> \<not> se_closer s \<Longrightarrow> \<not> se_http s \<Longrightarrow>
     serving_step s (s\<lparr>se_pc := SvReturned err\<rparr>)"

inductive serving_reachable :: "server_options \<Rightarrow> bool \<Rightarrow> 'c serving \<Rightarrow> bool" for opts closed where
  sg_start: "serving_reachable opts closed (serve_begin opts closed)"
| sg_step: "serving_reachable opts closed s \<Longrightarrow> serving_step s s' \<Longrightarrow> serving_reachable opts closed s'"

definition serving_inv :: "'c serving \<Rightarrow> bool" where
  "serving_inv s \<longleftrightarrow> (se_open s \<longleftrightarrow> se_closer s) \<and> (\<not> se_closer s \<longrightarrow> se_done s)
     \<and> (\<forall>err. se_pc s = SvReturned err \<longrightarrow> \<not> se_closer s \<and> \<not> se_http s)"

lemma serving_inv_step: "serving_step s s' \<Longrightarrow> serving_inv s \<Longrightarrow> serving_inv s'"
  by (induction rule: serving_step.induct)
    (auto simp: serving_inv_def accept_turn_def split: accept_event.splits if_splits)

lemma serving_reachable_inv: "serving_reachable opts closed s \<Longrightarrow> serving_inv s"
proof (induction rule: serving_reachable.induct)
  case sg_start then show ?case by (simp add: serving_inv_def serve_begin_def)
next
  case sg_step then show ?case by (blast intro: serving_inv_step)
qed

text \<open>A server that is closed comes to its end: the goroutines first, then the loop.\<close>

lemma serving_ends:
  assumes "serving_inv s" "se_done s" "\<forall>err. se_pc s \<noteq> SvReturned err"
  obtains s' err where "serving_step\<^sup>*\<^sup>* s s'" "se_pc s' = SvReturned err"
    "case se_pc s of SvAccept d \<Rightarrow> err = ErrServerClosed | SvWait e \<Rightarrow> err = e | SvReturned e \<Rightarrow> False"
proof -
  define s1 where "s1 = (if se_closer s then s\<lparr>se_open := False, se_closer := False\<rparr> else s)"
  have 1: "serving_step\<^sup>*\<^sup>* s s1" using sv_closer [of s] assms(2) by (auto simp: s1_def)
  have p1: "\<not> se_closer s1" "\<not> se_open s1" "se_done s1" "se_pc s1 = se_pc s" "se_http s1 = se_http s"
    using assms(1,2) by (auto simp: s1_def serving_inv_def)
  define s2 where "s2 = (if se_http s1 then s1\<lparr>se_http := False\<rparr> else s1)"
  have 2: "serving_step\<^sup>*\<^sup>* s1 s2" using sv_http [of s1] p1(3) by (auto simp: s2_def)
  have p2: "\<not> se_closer s2" "\<not> se_open s2" "\<not> se_http s2" "se_done s2" "se_pc s2 = se_pc s"
    using p1 by (auto simp: s2_def)
  have last: "serving_step (t\<lparr>se_pc := SvWait e\<rparr>) (t\<lparr>se_pc := SvReturned e\<rparr>)" if "\<not> se_closer t" "\<not> se_http t" for t e
    using sv_return [of "t\<lparr>se_pc := SvWait e\<rparr>" e] that by simp
  show thesis
  proof (cases "se_pc s")
    case (SvAccept d)
    have "serving_step s2 (s2\<lparr>se_pc := SvWait ErrServerClosed\<rparr>)"
      using sv_accept [of s2 d "AcceptError True EOF"] p2 SvAccept by (simp add: accept_turn_def)
    with 1 2 last [OF p2(1,3), of ErrServerClosed] have "serving_step\<^sup>*\<^sup>* s (s2\<lparr>se_pc := SvReturned ErrServerClosed\<rparr>)"
      by (meson rtranclp.rtrancl_into_rtrancl rtranclp_trans)
    then show ?thesis using that SvAccept by simp
  next
    case (SvWait e)
    then have "s2\<lparr>se_pc := SvWait e\<rparr> = s2" using p2(5) by simp
    then have "serving_step s2 (s2\<lparr>se_pc := SvReturned e\<rparr>)" using last [OF p2(1,3), of e] by simp
    with 1 2 have "serving_step\<^sup>*\<^sup>* s (s2\<lparr>se_pc := SvReturned e\<rparr>)"
      by (meson rtranclp.rtrancl_into_rtrancl rtranclp_trans)
    then show ?thesis using that SvWait by simp
  qed (use assms(3) in simp)
qed

text \<open>
  C36: \<open>Serve\<close> returns only after \<open>Close\<close>, with the listener closed: an error of the listener that ends the
  accept loop is not reported until then.  Once the server is closed some schedule makes \<open>Serve\<close> return, with
  \<open>ErrServerClosed\<close> or with the error that ended the loop before.
\<close>

theorem serve_returns_when_closed:
  assumes "serving_reachable opts closed s"
  shows "(\<forall>err. se_pc s = SvReturned err \<longrightarrow> se_done s \<and> \<not> se_open s)
    \<and> (se_done s \<longrightarrow> (\<exists>s' err. serving_step\<^sup>*\<^sup>* s s' \<and> se_pc s' = SvReturned err
        \<and> (case se_pc s of SvAccept d \<Rightarrow> err = ErrServerClosed | SvWait e \<Rightarrow> err = e | SvReturned e \<Rightarrow> err = e)))"
proof -
  have inv: "serving_inv s" by (rule serving_reachable_inv [OF assms])
  have "\<exists>s' err. serving_step\<^sup>*\<^sup>* s s' \<and> se_pc s' = SvReturned err
      \<and> (case se_pc s of SvAccept d \<Rightarrow> err = ErrServerClosed | SvWait e \<Rightarrow> err = e | SvReturned e \<Rightarrow> err = e)"
    if closed: "se_done s"
  proof (cases "\<exists>err. se_pc s = SvReturned err")
    case True
    then show ?thesis by auto
  next
    case False
    then show ?thesis using serving_ends [OF inv closed] by (cases "se_pc s") force+
  qed
  then show ?thesis using inv by (auto simp: serving_inv_def)
qed

text \<open>A listener that fails for good under a server that nobody closes.\<close>

definition stuck_serve :: "nat serving" where
  "stuck_serve = (serve_begin defaultServerOptions False)\<lparr>se_pc := SvWait ErrUnexpectedEOF\<rparr>"

lemma stuck_serve_reachable: "serving_reachable defaultServerOptions False stuck_serve"
proof -
  have "serving_step (serve_begin defaultServerOptions False :: nat serving)
      (accept_turn (serve_begin defaultServerOptions False) 0 (AcceptError False ErrUnexpectedEOF))"
    by (rule sv_accept) (simp_all add: serve_begin_def)
  then show ?thesis using sg_step [OF sg_start] by (simp add: accept_turn_def stuck_serve_def)
qed

lemma stuck_serve_waits: "serving_step stuck_serve s \<Longrightarrow> s = stuck_serve\<lparr>se_done := True\<rparr>"
  by (erule serving_step.cases) (auto simp: stuck_serve_def serve_begin_def)

theorem serve_returns_when_closed_witness:
  "serving_reachable defaultServerOptions False (stuck_serve\<lparr>se_done := True\<rparr>)
   \<and> (\<exists>s' err. serving_step\<^sup>*\<^sup>* (stuck_serve\<lparr>se_done := True\<rparr>) s' \<and> se_pc s' = SvReturned ErrUnexpectedEOF)"
proof -
  have r: "serving_reachable defaultServerOptions False (stuck_serve\<lparr>se_done := True\<rparr>)"
    by (rule sg_step [OF stuck_serve_reachable sv_close])
  have "se_pc (stuck_serve\<lparr>se_done := True\<rparr>) = SvWait ErrUnexpectedEOF" by (simp add: stuck_serve_def)
  then show ?thesis using serve_returns_when_closed [OF r] r by simp
qed


section \<open>Opening the listener\<close>

text \<open>
  \<open>net.Listen\<close>, \<open>tls.LoadX509KeyPair\<close> and \<open>Serve\<close> by their outcomes: the error returned, if any, and the listener that
  is left open by the return.
\<close>

definition ListenAndServe :: "gerr + 'l \<Rightarrow> ('l \<Rightarrow> gerr option) \<Rightarrow> gerr option \<times> 'l option" where
  "ListenAndServe listen Serve =
     (case listen of
        Inl e \<Rightarrow> (Some e, None)
      | Inr l \<Rightarrow> (Serve l, None))"

definition ListenAndServeTLS ::
    "gerr + 'l \<Rightarrow> gerr + 'cert \<Rightarrow> ('cert \<Rightarrow> 'l \<Rightarrow> 'l) \<Rightarrow> ('l \<Rightarrow> gerr option) \<Rightarrow> gerr option \<times> 'l option" where
  "ListenAndServeTLS listen certificate NewListener Serve =
     (case listen of
        Inl e \<Rightarrow> (Some e, None)
      | Inr l \<Rightarrow>
          (case certificate of
             Inl e \<Rightarrow> (Some e, Some l)
           | Inr cert \<Rightarrow> (Serve (NewListener cert l), None)))"

text \<open>The listener is opened before the certificate is read, and stays open if that fails.\<close>

lemma ListenAndServeTLS_leaves_open:
  "snd (ListenAndServeTLS listen certificate NewListener Serve) = Some l \<longleftrightarrow>
     listen = Inr l \<and> (\<exists>e. certificate = Inl e)"
  by (auto simp: ListenAndServeTLS_def split: sum.split)

section \<open>The getters\<close>

definition Server_Window :: "server \<Rightarrow> 32 word" where "Server_Window s = so_window (sv_opts s)"
definition Server_HTTP :: "server \<Rightarrow> go_ref" where "Server_HTTP s = so_handler (sv_opts s)"
definition Server_Handler :: "server \<Rightarrow> handler_ref" where "Server_Handler s = so_channelHandler (sv_opts s)"
definition Server_Backend :: "server \<Rightarrow> go_ref" where "Server_Backend s = so_backend (sv_opts s)"
definition Server_Timeout :: "server \<Rightarrow> int" where "Server_Timeout s = so_timeout (sv_opts s)"
definition Server_ReadBuffer :: "server \<Rightarrow> int" where "Server_ReadBuffer s = so_readBuffer (sv_opts s)"
definition Server_WriteBuffer :: "server \<Rightarrow> int" where "Server_WriteBuffer s = so_writeBuffer (sv_opts s)"
definition Server_Channels :: "server \<Rightarrow> int" where "Server_Channels s = so_channels (sv_opts s)"
definition Server_Ping :: "server \<Rightarrow> int" where "Server_Ping s = so_ping (sv_opts s)"
definition Server_TCPDialer :: "server \<Rightarrow> dialer_ref" where "Server_TCPDialer s = so_tcpDialer (sv_opts s)"
definition Server_HookURL :: "server \<Rightarrow> go_ref" where "Server_HookURL s = so_hookURL (sv_opts s)"
definition Server_HookDo :: "server \<Rightarrow> go_ref" where "Server_HookDo s = so_hookDo (sv_opts s)"

lemmas server_getters =
  Server_Window_def Server_HTTP_def Server_Handler_def Server_Backend_def Server_Timeout_def Server_ReadBuffer_def
  Server_WriteBuffer_def Server_Channels_def Server_Ping_def Server_TCPDialer_def Server_HookURL_def Server_HookDo_def

text \<open>The option given last wins, except that a window of zero is passed over and nil stands for the default.\<close>

lemma last_option_wins:
  "Server_Window (NewServer (os @ [ServerWindow w])) = (if w = 0 then Server_Window (NewServer os) else w)"
  "Server_HTTP (NewServer (os @ [ServerHTTP h])) = h"
  "Server_Handler (NewServer (os @ [ServerHandler h])) = (case h of None \<Rightarrow> HDefault | Some x \<Rightarrow> HUser x)"
  "Server_Backend (NewServer (os @ [ServerBackend h])) = h"
  "Server_Timeout (NewServer (os @ [ServerTimeout n])) = n"
  "Server_ReadBuffer (NewServer (os @ [ServerReadBuffer n])) = n"
  "Server_WriteBuffer (NewServer (os @ [ServerWriteBuffer n])) = n"
  "Server_Channels (NewServer (os @ [ServerChannels n])) = n"
  "Server_Channels (NewServer (os @ [ServerWriteBufferChannels n])) = n"
  "Server_Ping (NewServer (os @ [ServerPing n])) = n"
  "Server_TCPDialer (NewServer (os @ [ServerTCPDialer h])) = (case h of None \<Rightarrow> DDefault | Some x \<Rightarrow> DUser x)"
  "Server_HookURL (NewServer (os @ [ServerHookURL h])) = h"
  "Server_HookDo (NewServer (os @ [ServerHookDo h])) = h"
  by (simp_all add: server_getters NewServer_def NewServer_opts_def ServerWindow_def ServerHTTP_def ServerHandler_def
      ServerBackend_def ServerTimeout_def ServerReadBuffer_def ServerWriteBuffer_def ServerChannels_def
      ServerWriteBufferChannels_def ServerPing_def ServerTCPDialer_def ServerHookURL_def ServerHookDo_def
      word_gt_0 split: option.split)

end
