(* ===== verification/ClientPool.thy ===== *)
theory ClientPool
  imports ServerOptions
begin

text \<open>
  \<open>client.go\<close>: the goroutine \<open>serve\<close> that hands out the transport of a client, the calls of
  \<open>DialContext\<close> that ask it, and \<open>Close\<close>.  Transports are Go pointers, named by numbers in the order
  of their creation.  \<open>cl_handed\<close> is not a variable of the code: it counts how often a transport
  was handed out.
\<close>

section \<open>The state\<close>

record client_pool =
  cl_t :: "nat option"
  cl_keys :: "nat list"
  cl_used :: "nat \<Rightarrow> 64 word"
  cl_next :: nat
  cl_closed :: "nat \<Rightarrow> bool"
  cl_handed :: "nat \<Rightarrow> nat"

definition NewClient_pool :: client_pool where
  "NewClient_pool =
     \<lparr>cl_t = None, cl_keys = [], cl_used = (\<lambda>_. 0), cl_next = 0, cl_closed = (\<lambda>_. False),
      cl_handed = (\<lambda>_. 0)\<rparr>"

text \<open>
  \<open>newTransport\<close>: the error of dialling or of the handshake, or a transport whose counter is 1.
\<close>

definition newTransport :: "client_pool \<Rightarrow> gerr option \<Rightarrow> client_pool \<times> (gerr + nat)" where
  "newTransport p err =
     (case err of
        Some e \<Rightarrow> (p, Inl e)
      | None \<Rightarrow> (p\<lparr>cl_next := Suc (cl_next p), cl_used := (cl_used p)(cl_next p := 1)\<rparr>, Inr (cl_next p)))"

definition hand_out :: "client_pool \<Rightarrow> nat \<Rightarrow> client_pool" where
  "hand_out p t =
     (let p = p\<lparr>cl_handed := (cl_handed p)(t := Suc (cl_handed p t))\<rparr> in
      if cl_used p t = 18446744073709551615 then p\<lparr>cl_t := None\<rparr>
      else p\<lparr>cl_used := (cl_used p)(t := cl_used p t + 1)\<rparr>)"

text \<open>
  The case of a request: \<open>ended\<close> says which transports have their \<open>done\<close> closed, \<open>err\<close> how a new
  transport would come out.  A transport that is used up or has ended is forgotten.
\<close>

definition serve_request ::
    "client_pool \<Rightarrow> (nat \<Rightarrow> bool) \<Rightarrow> gerr option \<Rightarrow> client_pool \<times> (gerr + nat)" where
  "serve_request p ended err =
     (let p = (case cl_t p of None \<Rightarrow> p | Some t \<Rightarrow> if ended t then p\<lparr>cl_t := None\<rparr> else p) in
      case cl_t p of
        Some t \<Rightarrow> (hand_out p t, Inr t)
      | None \<Rightarrow>
          (case newTransport p err of
             (p, Inl e) \<Rightarrow> (p, Inl e)
           | (p, Inr t) \<Rightarrow>
               (hand_out (p\<lparr>cl_t := Some t, cl_keys := cl_keys p @ [t]\<rparr>) t, Inr t)))"

text \<open>The case of \<open>remove\<close>, which nothing sends on, and the cleaning up.\<close>

definition serve_remove :: "client_pool \<Rightarrow> nat \<Rightarrow> client_pool" where
  "serve_remove p k = p\<lparr>cl_keys := filter (\<lambda>t. t \<noteq> k) (cl_keys p)\<rparr>"

definition serve_cleanup :: "client_pool \<Rightarrow> client_pool" where
  "serve_cleanup p = p\<lparr>cl_closed := (\<lambda>t. cl_closed p t \<or> t \<in> set (cl_keys p))\<rparr>"

text \<open>A run of the loop: the requests in the order in which they are taken, then the end.\<close>

fun serve_requests ::
    "client_pool \<Rightarrow> ((nat \<Rightarrow> bool) \<times> gerr option) list \<Rightarrow> client_pool \<times> (gerr + nat) list" where
  "serve_requests p [] = (p, [])"
| "serve_requests p ((ended, err) # rs) =
     (case serve_request p ended err of
        (p, r) \<Rightarrow> (case serve_requests p rs of (p, out) \<Rightarrow> (p, r # out)))"

definition serve_run :: "((nat \<Rightarrow> bool) \<times> gerr option) list \<Rightarrow> client_pool \<times> (gerr + nat) list" where
  "serve_run rs = (case serve_requests NewClient_pool rs of (p, out) \<Rightarrow> (serve_cleanup p, out))"

section \<open>Calls\<close>

text \<open>\<open>Close\<close> on the flag \<open>closed\<close>: a second call returns the error of the server.\<close>

definition Client_Close :: "bool \<Rightarrow> bool \<times> gerr option" where
  "Client_Close closed = (if \<not> closed then (True, None) else (True, Some ErrServerClosed))"

text \<open>
  The outcomes of the two \<open>select\<close> statements of \<open>DialContext\<close>: \<open>ctx\<close> is the error of the context, if it
  has ended, \<open>closed\<close> tells whether the client is closed, and \<open>answer\<close> what \<open>serve\<close> answered, if it
  takes the request.  An empty list is a call that waits.
\<close>

definition dial_select :: "gerr option \<Rightarrow> bool \<Rightarrow> 'a option \<Rightarrow> (gerr + 'a) list" where
  "dial_select ctx closed ready =
     (case ctx of None \<Rightarrow> [] | Some e \<Rightarrow> [Inl e])
     @ (if closed then [Inl ErrClientClosed] else [])
     @ (case ready of None \<Rightarrow> [] | Some x \<Rightarrow> [Inr x])"

definition DialContext ::
    "gerr option \<Rightarrow> bool \<Rightarrow> (gerr + nat) option \<Rightarrow> (gerr + nat) list" where
  "DialContext ctx closed answer =
     concat (map (\<lambda>r. case r of
         Inl e \<Rightarrow> [Inl e]
       | Inr _ \<Rightarrow> map (\<lambda>r. case r of Inl e \<Rightarrow> Inl e | Inr a \<Rightarrow> a) (dial_select ctx closed answer))
       (dial_select ctx closed (map_option (\<lambda>_. ()) answer)))"

text \<open>\<open>Dial\<close>: the background context never ends.\<close>

definition Client_Dial :: "bool \<Rightarrow> (gerr + nat) option \<Rightarrow> (gerr + nat) list" where
  "Client_Dial closed answer = DialContext None closed answer"

lemma Client_Dial_blocks: "Client_Dial closed answer = [] \<longleftrightarrow> \<not> closed \<and> answer = None"
  by (cases answer) (auto simp: Client_Dial_def DialContext_def dial_select_def)

section \<open>No transport runs out of ids\<close>

text \<open>
  The counter of a transport that is on hand is one ahead of its calls; a transport that is not is never
  handed out again.
\<close>

definition pool_inv :: "client_pool \<Rightarrow> bool" where
  "pool_inv p \<longleftrightarrow>
     (\<forall>t. cl_handed p t \<le> 18446744073709551615)
     \<and> (\<forall>t \<ge> cl_next p. cl_handed p t = 0)
     \<and> (case cl_t p of None \<Rightarrow> True
        | Some t \<Rightarrow> t < cl_next p \<and> unat (cl_used p t) = Suc (cl_handed p t))
     \<and> set (cl_keys p) = {..<cl_next p}"

lemma pool_inv_D:
  assumes "pool_inv p"
  shows "cl_handed p t \<le> 18446744073709551615" "t \<ge> cl_next p \<Longrightarrow> cl_handed p t = 0"
    "cl_t p = Some t \<Longrightarrow> t < cl_next p \<and> unat (cl_used p t) = Suc (cl_handed p t)"
    "set (cl_keys p) = {..<cl_next p}"
  using assms by (auto simp: pool_inv_def)

lemma unat_64_max: "unat (w :: 64 word) \<le> 18446744073709551615"
  using unsigned_less [of w, where ?'a = nat] by simp

lemma unat_64_top: "w = 18446744073709551615 \<longleftrightarrow> unat (w :: 64 word) = 18446744073709551615"
  by (simp add: word_unat_eq_iff)

lemma pool_inv_hand_out:
  assumes "pool_inv p" "cl_t p = Some t"
  shows "pool_inv (hand_out p t)"
proof -
  note d = pool_inv_D [OF assms(1)]
  have t: "t < cl_next p" "unat (cl_used p t) = Suc (cl_handed p t)" using d(3) [OF assms(2)] by auto
  have le: "Suc (cl_handed p t) \<le> 18446744073709551615" using unat_64_max [of "cl_used p t"] t(2) by simp
  show ?thesis
  proof (cases "cl_used p t = 18446744073709551615")
    case True
    then show ?thesis using d t le by (auto simp: hand_out_def pool_inv_def Let_def)
  next
    case False
    then have "Suc (cl_handed p t) \<noteq> 18446744073709551615" using t(2) by (simp add: unat_64_top)
    then have "unat (cl_used p t + 1) = Suc (Suc (cl_handed p t))"
      using le t(2) by (subst unat_plus_no_wrap) simp_all
    then show ?thesis using False d t le assms(2) by (auto simp: hand_out_def pool_inv_def Let_def)
  qed
qed

lemma pool_inv_request:
  assumes "pool_inv p"
  shows "pool_inv (fst (serve_request p ended err))"
proof -
  define q where "q = (case cl_t p of None \<Rightarrow> p | Some t \<Rightarrow> if ended t then p\<lparr>cl_t := None\<rparr> else p)"
  have q: "pool_inv q" using assms by (auto simp: q_def pool_inv_def split: option.splits)
  show ?thesis
  proof (cases "cl_t q")
    case (Some t)
    then show ?thesis using pool_inv_hand_out [OF q Some]
      by (simp add: serve_request_def Let_def flip: q_def)
  next
    case None
    show ?thesis
    proof (cases err)
      case (Some e)
      then show ?thesis using None q by (simp add: serve_request_def newTransport_def Let_def flip: q_def)
    next
      case err: None
      let ?n = "cl_next q"
      let ?q = "q\<lparr>cl_next := Suc ?n, cl_used := (cl_used q)(?n := 1), cl_t := Some ?n, cl_keys := cl_keys q @ [?n]\<rparr>"
      have "pool_inv ?q" using pool_inv_D [OF q] by (auto simp: pool_inv_def)
      then have "pool_inv (hand_out ?q ?n)" by (rule pool_inv_hand_out) simp
      then show ?thesis using None err by (simp add: serve_request_def newTransport_def Let_def flip: q_def)
    qed
  qed
qed

lemma pool_inv_requests: "pool_inv p \<Longrightarrow> pool_inv (fst (serve_requests p rs))"
proof (induction p rs rule: serve_requests.induct)
  case (2 p ended err rs)
  then show ?case using pool_inv_request [of p ended err] by (auto split: prod.splits)
qed simp

lemma pool_inv_start: "pool_inv NewClient_pool"
  by (simp add: pool_inv_def NewClient_pool_def)

lemma hand_out_handed: "cl_handed (hand_out p t) x = cl_handed p x + (if x = t then 1 else 0)"
  by (simp add: hand_out_def Let_def)

lemma hand_out_keeps: "cl_keys (hand_out p t) = cl_keys p" "cl_closed (hand_out p t) = cl_closed p"
  by (simp_all add: hand_out_def Let_def)

lemma request_handed:
  "serve_request p ended err = (p', r) \<Longrightarrow> cl_handed p' t = cl_handed p t + (if r = Inr t then 1 else 0)"
  by (auto simp: serve_request_def newTransport_def Let_def hand_out_handed split: option.splits if_splits)

lemma requests_handed:
  "serve_requests p rs = (p', out) \<Longrightarrow> cl_handed p' t = cl_handed p t + count_list out (Inr t)"
proof (induction p rs arbitrary: p' out rule: serve_requests.induct)
  case (2 p ended err rs)
  obtain q r where q: "serve_request p ended err = (q, r)" by (cases "serve_request p ended err")
  obtain q' out' where q': "serve_requests q rs = (q', out')" by (cases "serve_requests q rs")
  show ?case using 2(1) [OF q [symmetric] q'] request_handed [OF q, of t] 2(2) q q' by auto
qed simp

text \<open>
  No transport is handed out 2^64 times, however many calls there are, so the 64 bit ids that its calls of
  \<open>Create\<close> take from one counter never repeat and are never zero.
\<close>

lemma handed_out_bounded: "count_list (snd (serve_run rs)) (Inr t) < 2 ^ 64"
proof -
  obtain p out where r: "serve_requests NewClient_pool rs = (p, out)" by (cases "serve_requests NewClient_pool rs")
  have "pool_inv p" using pool_inv_requests [OF pool_inv_start, of rs] r by simp
  from pool_inv_D(1) [OF this, of t] show ?thesis
    using requests_handed [OF r, of t] r by (simp add: serve_run_def NewClient_pool_def)
qed

lemma request_answer:
  assumes "serve_request p ended err = (p', r)"
  shows "case r of
      Inr t \<Rightarrow> (cl_t p = Some t \<and> \<not> ended t) \<or> (err = None \<and> t = cl_next p)
    | Inl e \<Rightarrow> err = Some e \<and> (case cl_t p of None \<Rightarrow> True | Some t \<Rightarrow> ended t)"
  using assms
  by (auto simp: serve_request_def newTransport_def Let_def split: option.splits if_splits)

lemma requests_created:
  "serve_requests p rs = (p', out) \<Longrightarrow> pool_inv p \<Longrightarrow> Inr t \<in> set out \<Longrightarrow> t < cl_next p'"
proof -
  assume r: "serve_requests p rs = (p', out)" and i: "pool_inv p" and t: "Inr t \<in> set out"
  have "pool_inv p'" using pool_inv_requests [OF i, of rs] r by simp
  moreover have "count_list out (Inr t) \<noteq> 0" using t by (simp add: count_list_0_iff)
  then have "cl_handed p' t \<noteq> 0" using requests_handed [OF r, of t] by simp
  ultimately show ?thesis using pool_inv_D(2) [of p' t] not_less by blast
qed

text \<open>
  C38: a call gets the transport on hand only while that one has not ended, otherwise a new one or the
  error of making it; and when the client is closed, every transport it has handed out is closed.
\<close>

theorem pool_live_and_closed:
  assumes "serve_run (rs @ [(ended, err)]) = (p, out @ [r])"
  shows "(case r of
      Inr t \<Rightarrow> (Inr t \<in> set out \<longrightarrow> \<not> ended t) \<and> cl_closed p t
    | Inl e \<Rightarrow> err = Some e)
    \<and> (\<forall>t. Inr t \<in> set out \<longrightarrow> cl_closed p t)"
proof -
  have app: "serve_requests q (rs @ [(ended, err)]) =
      (case serve_requests q rs of (q, out) \<Rightarrow> (case serve_request q ended err of (q, r) \<Rightarrow> (q, out @ [r])))" for q
    by (induction q rs rule: serve_requests.induct) (auto split: prod.splits)
  obtain q o1 where q: "serve_requests NewClient_pool rs = (q, o1)" by (cases "serve_requests NewClient_pool rs")
  obtain q' r' where q': "serve_request q ended err = (q', r')" by (cases "serve_request q ended err")
  have eq: "p = serve_cleanup q'" "out = o1" "r = r'"
    using assms app [of NewClient_pool] q q' by (simp_all add: serve_run_def)
  have all: "serve_requests NewClient_pool (rs @ [(ended, err)]) = (q', out @ [r])"
    using app [of NewClient_pool] q q' eq by simp
  have inv: "pool_inv q" "pool_inv q'"
    using pool_inv_requests [OF pool_inv_start] q all by (metis fst_conv)+
  have closed: "cl_closed p t" if "Inr t \<in> set (out @ [r])" for t
    using requests_created [OF all pool_inv_start that] pool_inv_D(4) [OF inv(2)] eq(1)
    by (simp add: serve_cleanup_def)
  have "t < cl_next q" if "Inr t \<in> set out" for t
    using requests_created [OF q pool_inv_start] that eq(2) by simp
  then show ?thesis
    using request_answer [OF q'] closed eq(3) by (auto split: sum.splits)
qed

theorem pool_live_and_closed_witness:
  "\<exists>p. serve_run [(\<lambda>_. False, None), (\<lambda>t. t = 0, None)] = (p, [Inr 0, Inr 1]) \<and> cl_closed p 0 \<and> cl_closed p 1"
proof -
  let ?rs = "[(\<lambda>_. False, None)] :: ((nat \<Rightarrow> bool) \<times> gerr option) list"
  obtain p where p: "serve_run (?rs @ [(\<lambda>t. t = 0, None)]) = (p, [Inr 0] @ [Inr 1])"
    by (simp add: serve_run_def serve_request_def newTransport_def hand_out_def NewClient_pool_def Let_def)
  from pool_live_and_closed [OF p] p show ?thesis by auto
qed

end
