(* ===== verification/Rewriter.thy ===== *)
theory Rewriter
  imports Forward
begin

text \<open>
  The rules of \<open>cmd/httpadapter/server.go\<close>: matchers of strings, rules that match a URL and rewrite or
  refuse it, the hook made of a list of rules, and the choice of the HTTP client.  Regular
  expressions and \<open>url.URL.Hostname\<close> are the library's: \<open>compile\<close> says whether an expression is
  accepted and \<open>regex\<close> whether it matches.
\<close>

section \<open>Matchers\<close>

datatype matcher =
    MatcherAny | MatcherPrefix string | MatcherSuffix string | MatcherRegexp string | MatcherEqual string

definition HasPrefix :: "string \<Rightarrow> string \<Rightarrow> bool" where
  "HasPrefix s p \<longleftrightarrow> length p \<le> length s \<and> take (length p) s = p"

definition HasSuffix :: "string \<Rightarrow> string \<Rightarrow> bool" where
  "HasSuffix s p \<longleftrightarrow> length p \<le> length s \<and> drop (length s - length p) s = p"

text \<open>An expression that does not compile ends the program.\<close>

definition newMatcher :: "(string \<Rightarrow> bool) \<Rightarrow> string \<Rightarrow> matcher outcome" where
  "newMatcher compile s =
     (if s = ''*'' then Done MatcherAny
      else if HasPrefix s ''^'' then Done (MatcherPrefix (drop 1 s))
      else if HasSuffix s ''$'' then Done (MatcherSuffix (take (length s - 1) s))
      else if HasPrefix s ''@'' then
        (if compile (drop 1 s) then Done (MatcherRegexp (drop 1 s)) else Panic)
      else Done (MatcherEqual s))"

fun matcher_Match :: "(string \<Rightarrow> string \<Rightarrow> bool) \<Rightarrow> matcher \<Rightarrow> string \<Rightarrow> bool" where
  "matcher_Match regex MatcherAny s = True"
| "matcher_Match regex (MatcherPrefix p) s = HasPrefix s p"
| "matcher_Match regex (MatcherSuffix p) s = HasSuffix s p"
| "matcher_Match regex (MatcherRegexp r) s = regex r s"
| "matcher_Match regex (MatcherEqual t) s = (s = t)"

fun matcher_String :: "matcher \<Rightarrow> string" where
  "matcher_String MatcherAny = ''any: *''"
| "matcher_String (MatcherPrefix m) = ''prefix: '' @ m"
| "matcher_String (MatcherSuffix m) = ''suffix: '' @ m"
| "matcher_String (MatcherRegexp m) = ''regexp: '' @ m"
| "matcher_String (MatcherEqual m) = ''equal: '' @ m"

fun newMatchers :: "(string \<Rightarrow> bool) \<Rightarrow> string list \<Rightarrow> matcher list outcome" where
  "newMatchers compile [] = Done []"
| "newMatchers compile (s # ss) =
     bind_outcome (newMatcher compile s) (\<lambda>m. bind_outcome (newMatchers compile ss) (\<lambda>ms. Done (m # ms)))"

section \<open>Rules\<close>

text \<open>A rule in the configuration, and made ready.\<close>

record rewriter =
  rc_Schemes :: "string list"
  rc_Hosts :: "string list"
  rc_Hostnames :: "string list"
  rc_Reject :: bool
  rc_Scheme :: string
  rc_Host :: string

record unary_rewriter =
  ur_Reject :: bool
  ur_Scheme :: string
  ur_Host :: string
  ur_Schemes :: "matcher list"
  ur_Hosts :: "matcher list"
  ur_Hostnames :: "matcher list"

definition newUnaryRewriter :: "(string \<Rightarrow> bool) \<Rightarrow> rewriter \<Rightarrow> unary_rewriter outcome" where
  "newUnaryRewriter compile o1 =
     bind_outcome (newMatchers compile (rc_Schemes o1)) (\<lambda>schemes.
     bind_outcome (newMatchers compile (rc_Hosts o1)) (\<lambda>hosts.
     bind_outcome (newMatchers compile (rc_Hostnames o1)) (\<lambda>hostnames.
       Done \<lparr>ur_Reject = rc_Reject o1, ur_Scheme = rc_Scheme o1, ur_Host = rc_Host o1,
             ur_Schemes = schemes, ur_Hosts = hosts, ur_Hostnames = hostnames\<rparr>)))"

fun ur_match :: "(string \<Rightarrow> string \<Rightarrow> bool) \<Rightarrow> matcher list \<Rightarrow> string \<Rightarrow> bool" where
  "ur_match regex [] s = False"
| "ur_match regex (m # ms) s = (if matcher_Match regex m s then True else ur_match regex ms s)"

definition ur_Match ::
    "(string \<Rightarrow> string \<Rightarrow> bool) \<Rightarrow> (url \<Rightarrow> string) \<Rightarrow> unary_rewriter \<Rightarrow> url \<Rightarrow> bool" where
  "ur_Match regex hostname r u =
     (if ur_Schemes r \<noteq> [] \<and> \<not> ur_match regex (ur_Schemes r) (u_Scheme u) then False
      else if ur_Hosts r \<noteq> [] \<and> \<not> ur_match regex (ur_Hosts r) (u_Host u) then False
      else if ur_Hostnames r \<noteq> [] \<and> \<not> ur_match regex (ur_Hostnames r) (hostname u) then False
      else True)"

text \<open>\<open>%v\<close> of a slice puts its elements between brackets with a space between two.\<close>

definition matchers_text :: "matcher list \<Rightarrow> string" where
  "matchers_text ms = ''['' @ Join (CHR '' '') (map matcher_String ms) @ '']''"

definition ur_String :: "unary_rewriter \<Rightarrow> string" where
  "ur_String r =
     ''rewriter''
     @ (if ur_Reject r then '' reject''
        else if ur_Scheme r \<noteq> [] then
          (if ur_Host r = [] then '' '' @ ur_Scheme r
           else '' '' @ ur_Scheme r @ ''://'' @ ur_Host r)
        else if ur_Host r \<noteq> [] then '' '' @ ur_Host r
        else [])
     @ (if ur_Schemes r \<noteq> [] then '' schemes='' @ matchers_text (ur_Schemes r) else [])
     @ (if ur_Hosts r \<noteq> [] then '' hosts='' @ matchers_text (ur_Hosts r) else [])
     @ (if ur_Hostnames r \<noteq> [] then '' hostnames='' @ matchers_text (ur_Hostnames r) else [])"

section \<open>The hook\<close>

fun rewriter_hook ::
    "(string \<Rightarrow> string \<Rightarrow> bool) \<Rightarrow> (url \<Rightarrow> string) \<Rightarrow> unary_rewriter list \<Rightarrow> url \<Rightarrow> gerr + url" where
  "rewriter_hook regex hostname [] u = Inr u"
| "rewriter_hook regex hostname (r # rs) u =
     (if ur_Match regex hostname r u then
        (if ur_Reject r then Inl (ErrText ''url not allowed'')
         else
           let u = (if ur_Scheme r \<noteq> [] then u\<lparr>u_Scheme := ur_Scheme r\<rparr> else u);
               u = (if ur_Host r \<noteq> [] then u\<lparr>u_Host := ur_Host r\<rparr> else u)
           in Inr u)
      else rewriter_hook regex hostname rs u)"

fun newRewriters :: "(string \<Rightarrow> bool) \<Rightarrow> rewriter list \<Rightarrow> unary_rewriter list outcome" where
  "newRewriters compile [] = Done []"
| "newRewriters compile (c # cs) =
     bind_outcome (newUnaryRewriter compile c) (\<lambda>r.
       bind_outcome (newRewriters compile cs) (\<lambda>rs. Done (r # rs)))"

text \<open>No hook is installed for an empty list.\<close>

definition cnf_hookURL ::
    "(string \<Rightarrow> bool) \<Rightarrow> (string \<Rightarrow> string \<Rightarrow> bool) \<Rightarrow> (url \<Rightarrow> string) \<Rightarrow> rewriter list
       \<Rightarrow> (url \<Rightarrow> gerr + url) option outcome" where
  "cnf_hookURL compile regex hostname cs =
     (if cs = [] then Done None
      else bind_outcome (newRewriters compile cs) (\<lambda>rs. Done (Some (rewriter_hook regex hostname rs))))"

section \<open>The choice of the HTTP client\<close>

definition use_h2c ::
    "(string \<Rightarrow> string \<Rightarrow> bool) \<Rightarrow> (url \<Rightarrow> string) \<Rightarrow> matcher list \<Rightarrow> matcher list \<Rightarrow> url \<Rightarrow> bool" where
  "use_h2c regex hostname h2cHosts h2cHostnames u =
     (if h2cHosts = [] \<and> h2cHostnames = [] then False
      else if ur_match regex h2cHosts (u_Host u) then True
      else ur_match regex h2cHostnames (hostname u))"

section \<open>What the rules decide\<close>

lemma ur_match_iff: "ur_match regex ms s \<longleftrightarrow> (\<exists>m \<in> set ms. matcher_Match regex m s)"
  by (induction ms) auto

lemma HasPrefix_iff: "HasPrefix s p \<longleftrightarrow> (\<exists>t. s = p @ t)"
  by (auto simp: HasPrefix_def intro: exI [of _ "drop (length p) s"]) (metis append_take_drop_id)

lemma HasSuffix_iff: "HasSuffix s p \<longleftrightarrow> (\<exists>t. s = t @ p)"
  by (auto simp: HasSuffix_def) (metis append_take_drop_id)

text \<open>The rules as a partial function from URLs to decisions: the first that matches.\<close>

definition rule_decision :: "unary_rewriter \<Rightarrow> url \<Rightarrow> gerr + url" where
  "rule_decision r u =
     (if ur_Reject r then Inl (ErrText ''url not allowed'')
      else Inr (u\<lparr>u_Scheme := if ur_Scheme r = [] then u_Scheme u else ur_Scheme r,
                  u_Host := if ur_Host r = [] then u_Host u else ur_Host r\<rparr>))"

text \<open>
  C39: the hook applies the first rule that matches the URL and no other, each rule matching if
  every kind of condition it has is met by one of its matchers; a URL that no rule matches passes
  unchanged.
\<close>

theorem rewriter_first_match:
  "rewriter_hook regex hostname rs u =
     (case find (\<lambda>r. (ur_Schemes r = [] \<or> (\<exists>m \<in> set (ur_Schemes r). matcher_Match regex m (u_Scheme u)))
            \<and> (ur_Hosts r = [] \<or> (\<exists>m \<in> set (ur_Hosts r). matcher_Match regex m (u_Host u)))
            \<and> (ur_Hostnames r = [] \<or> (\<exists>m \<in> set (ur_Hostnames r). matcher_Match regex m (hostname u)))) rs of
        None \<Rightarrow> Inr u
      | Some r \<Rightarrow> rule_decision r u)"
  by (induction rs) (auto simp: rule_decision_def ur_Match_def ur_match_iff Let_def)

text \<open>
  An expression that ends with a dollar sign is never a regular expression: the test for a suffix
  comes first, so the rule matches only strings that end with the text of the expression.
\<close>

theorem dollar_regexp_is_suffix:
  "newMatcher compile (''@'' @ r @ ''$'') = Done (MatcherSuffix (''@'' @ r))
   \<and> (\<forall>s. matcher_Match regex (MatcherSuffix (''@'' @ r)) s \<longleftrightarrow> (\<exists>t. s = t @ ''@'' @ r))"
  by (auto simp: newMatcher_def HasPrefix_def HasSuffix_def) (metis append_take_drop_id)

text \<open>
  A request whose URL the first matching rule refuses gets the answer 400 and no connection is
  made for it.
\<close>

theorem rejected_url_refused:
  assumes "cnf_hookURL compile regex hostname cs = Done (Some hook)"
    "newRewriters compile cs = Done (rs1 @ r # rs2)" "parse (cm_URL md) = Inr u" "n \<le> MaxInt64"
    "\<forall>r' \<in> set rs1. \<not> ur_Match regex hostname r' u" "ur_Match regex hostname r u" "ur_Reject r"
  shows "forward_dispatch parse url_string err_text (Some hook) md n
    = FText 400 (err_text (ErrText ''url not allowed''))"
proof -
  have "rewriter_hook regex hostname (rs1 @ r # rs2) u = Inl (ErrText ''url not allowed'')"
    using assms(5-7) by (induction rs1) auto
  moreover have "hook = rewriter_hook regex hostname (rs1 @ r # rs2)"
    using assms(1,2) by (auto simp: cnf_hookURL_def split: if_splits)
  ultimately show ?thesis using assms(3,4) by (simp add: forward_dispatch_def)
qed

definition local_rule :: rewriter where
  "local_rule = \<lparr>rc_Schemes = [], rc_Hosts = [''^10.''], rc_Hostnames = [], rc_Reject = True, rc_Scheme = [],
     rc_Host = []\<rparr>"

definition local_ready :: unary_rewriter where
  "local_ready = \<lparr>ur_Reject = True, ur_Scheme = [], ur_Host = [], ur_Schemes = [],
     ur_Hosts = [MatcherPrefix ''10.''], ur_Hostnames = []\<rparr>"

lemma newRewriters_local: "newRewriters (\<lambda>_. True) [local_rule] = Done [local_ready]"
  by (simp add: local_rule_def local_ready_def newUnaryRewriter_def newMatcher_def HasPrefix_def)

theorem rejected_url_refused_witness:
  "\<exists>hook. cnf_hookURL (\<lambda>_. True) (\<lambda>_ _. False) u_Host [local_rule] = Done (Some hook)
    \<and> forward_dispatch (\<lambda>_. Inr \<lparr>u_Scheme = ''http'', u_Host = ''10.0.0.1'', u_rest = []\<rparr>) u_Host (\<lambda>_. ''no'')
        (Some hook) sample_metadata 0 = FText 400 ''no''"
proof -
  let ?hook = "rewriter_hook (\<lambda>_ _. False) u_Host [local_ready]"
  have c: "cnf_hookURL (\<lambda>_. True) (\<lambda>_ _. False) u_Host [local_rule] = Done (Some ?hook)"
    by (simp add: cnf_hookURL_def newRewriters_local del: newRewriters.simps)
  have "ur_Match (\<lambda>_ _. False) u_Host local_ready \<lparr>u_Scheme = ''http'', u_Host = ''10.0.0.1'', u_rest = []\<rparr>"
    "ur_Reject local_ready"
    by (simp_all add: local_ready_def ur_Match_def HasPrefix_def)
  then show ?thesis
    using rejected_url_refused [OF c, of "[]" local_ready "[]"
        "\<lambda>_. Inr \<lparr>u_Scheme = ''http'', u_Host = ''10.0.0.1'', u_rest = []\<rparr>" sample_metadata
        "\<lparr>u_Scheme = ''http'', u_Host = ''10.0.0.1'', u_rest = []\<rparr>" 0 u_Host "\<lambda>_. ''no''"]
      newRewriters_local c by (auto simp del: newRewriters.simps)
qed

end
