(* ===== verification/Commands.thy ===== *)
theory Commands
  imports Rewriter
begin

text \<open>
  The commands of \<open>cmd/httpadapter\<close>: what \<open>server\<close> makes of its configuration, the clients that
  the tunnels of \<open>tunnel\<close> share, and the request that \<open>client\<close> sends.  Listening, flags, files and
  logging are not modelled; \<open>log.Fatalln\<close> ends the program, which is \<open>Panic\<close> here.
\<close>

section \<open>The server command\<close>

record server_cnf =
  sc_Listen :: string
  sc_CertFile :: string
  sc_KeyFile :: string
  sc_Backend :: string
  sc_Window :: "32 word"
  sc_Timeout :: int
  sc_ReadBuffer :: int
  sc_WriteBuffer :: int
  sc_Channels :: int
  sc_Ping :: int
  sc_Rewriter :: "rewriter list"
  sc_H2C_Hosts :: "string list"
  sc_H2C_Hostnames :: "string list"

definition default_server_cnf :: server_cnf where
  "default_server_cnf =
     \<lparr>sc_Listen = '':8000'', sc_CertFile = [], sc_KeyFile = [], sc_Backend = [], sc_Window = 0,
      sc_Timeout = 0, sc_ReadBuffer = 0, sc_WriteBuffer = 0, sc_Channels = 0, sc_Ping = 0,
      sc_Rewriter = [], sc_H2C_Hosts = [], sc_H2C_Hostnames = []\<rparr>"

text \<open>The configuration of a run: \<open>load\<close> reads the file, \<open>addr\<close> is the flag for the address.\<close>

definition server_cmd_cnf :: "(string \<Rightarrow> server_cnf option) \<Rightarrow> string \<Rightarrow> string \<Rightarrow> server_cnf outcome" where
  "server_cmd_cnf load cnfpath addr =
     bind_outcome
       (if cnfpath = [] then Done default_server_cnf
        else case load cnfpath of None \<Rightarrow> Panic | Some cnf \<Rightarrow> Done cnf)
       (\<lambda>cnf. Done (if addr \<noteq> [] then cnf\<lparr>sc_Listen := addr\<rparr> else cnf))"

definition server_cmd_tls :: "server_cnf \<Rightarrow> bool" where
  "server_cmd_tls cnf \<longleftrightarrow> sc_CertFile cnf \<noteq> [] \<and> sc_KeyFile cnf \<noteq> []"

text \<open>
  The options: \<open>web\<close>, \<open>backend\<close>, \<open>hook\<close> and \<open>hook_do\<close> name the objects that the command creates.
\<close>

definition server_cmd_options :: "nat \<Rightarrow> nat \<Rightarrow> nat \<Rightarrow> nat \<Rightarrow> server_cnf \<Rightarrow> server_option list" where
  "server_cmd_options web backend hook hook_do cnf =
     (if sc_Backend cnf = [] then [ServerHTTP (Some web)] else [ServerBackend (Some backend)])
     @ (if sc_Window cnf > 0 then [ServerWindow (sc_Window cnf)] else [])
     @ (if sc_Timeout cnf > 0 then [ServerTimeout (sc_Timeout cnf)] else [])
     @ (if sc_ReadBuffer cnf > 0 then [ServerReadBuffer (sc_ReadBuffer cnf)] else [])
     @ (if sc_WriteBuffer cnf > 0 then [ServerReadBuffer (sc_WriteBuffer cnf)] else [])
     @ (if sc_Channels cnf > 0 then [ServerChannels (sc_Channels cnf)] else [])
     @ (if sc_Ping cnf > 0 then [ServerPing (sc_Ping cnf)] else [])
     @ (if sc_Rewriter cnf \<noteq> [] then [ServerHookURL (Some hook)] else [])
     @ [ServerHookDo (Some hook_do)]"

text \<open>
  The options a configured server runs with: every setting has its effect, except that the size of
  the write buffer ends up as that of the read buffer and the write buffer keeps its default.
\<close>

theorem server_cmd_effect:
  "NewServer_opts (server_cmd_options web backend hook hook_do cnf) =
     \<lparr>so_window = (if sc_Window cnf > 0 then sc_Window cnf else 32 * 1024),
      so_timeout = (if sc_Timeout cnf > 0 then sc_Timeout cnf else 10000000000),
      so_handler = (if sc_Backend cnf = [] then Some web else None),
      so_backend = (if sc_Backend cnf = [] then None else Some backend),
      so_readBuffer = (if sc_WriteBuffer cnf > 0 then sc_WriteBuffer cnf
                       else if sc_ReadBuffer cnf > 0 then sc_ReadBuffer cnf else 4096),
      so_writeBuffer = 4096,
      so_channels = (if sc_Channels cnf > 0 then sc_Channels cnf else 0),
      so_channelHandler = HDefault,
      so_ping = (if sc_Ping cnf > 0 then sc_Ping cnf else 0),
      so_tcpDialer = DDefault,
      so_hookURL = (if sc_Rewriter cnf \<noteq> [] then Some hook else None),
      so_hookDo = Some hook_do\<rparr>"
  by (simp add: server_cmd_options_def NewServer_opts_def defaultServerOptions_def ServerHTTP_def
      ServerBackend_def ServerWindow_def ServerTimeout_def ServerReadBuffer_def ServerChannels_def
      ServerPing_def ServerHookURL_def ServerHookDo_def)

section \<open>Tunnels\<close>

record tunnel_cnf =
  tn_Listen :: string
  tn_Server :: string
  tn_TLS :: bool
  tn_Insecure :: bool
  tn_Backend :: string
  tn_Window :: "32 word"
  tn_ReadBuffer :: int
  tn_WriteBuffer :: int
  tn_Ping :: int

record tunnel_server =
  ts_client :: nat
  ts_listen :: string
  ts_backend :: string

text \<open>\<open>dial insecure\<close> names the TLS dialer with that setting.\<close>

definition tunnel_options :: "(bool \<Rightarrow> nat) \<Rightarrow> tunnel_cnf \<Rightarrow> client_option list" where
  "tunnel_options dial cnf =
     (if tn_Window cnf > 0 then [WithWindow (tn_Window cnf)] else [])
     @ (if tn_ReadBuffer cnf > 0 then [WithReadBuffer (tn_ReadBuffer cnf)] else [])
     @ (if tn_WriteBuffer cnf > 0 then [WithWriteBuffer (tn_WriteBuffer cnf)] else [])
     @ (if tn_Ping cnf > 0 then [WithPing (tn_Ping cnf)] else [])
     @ (if tn_TLS cnf then [WithDialer (DUser (dial (tn_Insecure cnf)))] else [])"

definition tunnel_key :: "(string \<Rightarrow> string) \<Rightarrow> tunnel_cnf \<Rightarrow> string" where
  "tunnel_key json cnf =
     json (tn_Server cnf)
     @ (if tn_TLS cnf then ''-1'' @ (if tn_Insecure cnf then ''-1'' else ''-0'') else ''-0-0'')"

text \<open>
  \<open>NewTunnelServer\<close> on the clients made so far and the table of their keys; \<open>listen\<close> is the error of
  listening on an address, if there is one.  A client made before that error stays in the table.
\<close>

record tunnels =
  tt_clients :: "(string \<times> client_options) list"
  tt_keys :: "string \<rightharpoonup> nat"

definition NewTunnelServer ::
    "(string \<Rightarrow> string) \<Rightarrow> (bool \<Rightarrow> nat) \<Rightarrow> (string \<Rightarrow> gerr option) \<Rightarrow> tunnels \<Rightarrow> tunnel_cnf
       \<Rightarrow> (tunnels \<times> (gerr + tunnel_server)) outcome" where
  "NewTunnelServer json dial listen t cnf =
     (if tn_Server cnf = [] then Panic
      else if tn_Backend cnf = [] then Panic
      else
        let key = tunnel_key json cnf;
            (t, client) = (case tt_keys t key of
                Some c \<Rightarrow> (t, c)
              | None \<Rightarrow>
                  (t\<lparr>tt_clients := tt_clients t @ [(tn_Server cnf, NewClient_opts (tunnel_options dial cnf))],
                     tt_keys := (tt_keys t)(key \<mapsto> length (tt_clients t))\<rparr>,
                   length (tt_clients t)))
        in case listen (tn_Listen cnf) of
             Some e \<Rightarrow> Done (t, Inl e)
           | None \<Rightarrow>
               Done (t, Inr \<lparr>ts_client = client, ts_listen = tn_Listen cnf, ts_backend = tn_Backend cnf\<rparr>))"

text \<open>The loop of the command; an empty configuration or an error of a tunnel ends the program.\<close>

fun new_tunnels ::
    "(string \<Rightarrow> string) \<Rightarrow> (bool \<Rightarrow> nat) \<Rightarrow> (string \<Rightarrow> gerr option) \<Rightarrow> tunnels \<Rightarrow> tunnel_cnf list
       \<Rightarrow> (tunnels \<times> tunnel_server list) outcome" where
  "new_tunnels json dial listen t [] = Done (t, [])"
| "new_tunnels json dial listen t (cnf # cnfs) =
     bind_outcome (NewTunnelServer json dial listen t cnf) (\<lambda>(t, r).
       case r of
         Inl e \<Rightarrow> Panic
       | Inr srv \<Rightarrow>
           bind_outcome (new_tunnels json dial listen t cnfs) (\<lambda>(t, srvs). Done (t, srv # srvs)))"

definition tunnel_cmd ::
    "(string \<Rightarrow> string) \<Rightarrow> (bool \<Rightarrow> nat) \<Rightarrow> (string \<Rightarrow> gerr option) \<Rightarrow> tunnel_cnf list
       \<Rightarrow> (tunnels \<times> tunnel_server list) outcome" where
  "tunnel_cmd json dial listen cnfs =
     (if cnfs = [] then Panic
      else new_tunnels json dial listen \<lparr>tt_clients = [], tt_keys = Map.empty\<rparr> cnfs)"

section \<open>The client command\<close>

text \<open>\<open>http.Header.Add\<close> and the header flags, each \<open>key=value\<close>.\<close>

definition header_Add :: "header \<Rightarrow> string \<Rightarrow> string \<Rightarrow> header" where
  "header_Add h k v =
     (let k = CanonicalMIMEHeaderKey k
      in h(k \<mapsto> (case h k of None \<Rightarrow> [] | Some vs \<Rightarrow> vs) @ [v]))"

fun add_headers :: "header \<Rightarrow> string list \<Rightarrow> header outcome" where
  "add_headers h [] = Done h"
| "add_headers h (val # vals) =
     (if CHR ''='' \<notin> set val then Panic
      else
        let k = takeWhile (\<lambda>c. c \<noteq> CHR ''='') val
        in add_headers (header_Add h k (drop (Suc (length k)) val)) vals)"

definition getHeader :: "string list \<Rightarrow> header option outcome" where
  "getHeader vals =
     (if vals = [] then Done None else bind_outcome (add_headers Map.empty vals) (\<lambda>h. Done (Some h)))"

definition client_cmd_request :: "string \<Rightarrow> string \<Rightarrow> string \<Rightarrow> string list \<Rightarrow> message_request outcome" where
  "client_cmd_request uri method body header =
     bind_outcome (getHeader header) (\<lambda>h.
       Done \<lparr>mq_URL = uri, mq_Method = method, mq_Header = h, mq_Body = Some (StringToBytes body),
             mq_BodyLen = length body\<rparr>)"

section \<open>Which tunnels share a client\<close>

definition same_server :: "tunnel_cnf \<Rightarrow> tunnel_cnf \<Rightarrow> bool" where
  "same_server a b \<longleftrightarrow> tn_Server a = tn_Server b \<and> tn_TLS a = tn_TLS b
     \<and> (tn_TLS a \<longrightarrow> tn_Insecure a = tn_Insecure b)"

lemma tunnel_key_iff:
  assumes "inj json"
  shows "tunnel_key json a = tunnel_key json b \<longleftrightarrow> same_server a b"
proof -
  define tail where "tail c = (if tn_TLS c then ''-1'' @ (if tn_Insecure c then ''-1'' else ''-0'') else ''-0-0'')"
    for c :: tunnel_cnf
  have "tunnel_key json c = json (tn_Server c) @ tail c" "length (tail c) = 4" for c
    by (simp_all add: tunnel_key_def tail_def)
  then have "tunnel_key json a = tunnel_key json b \<longleftrightarrow> tn_Server a = tn_Server b \<and> tail a = tail b"
    using assms by (auto simp: inj_eq)
  then show ?thesis by (auto simp: same_server_def tail_def)
qed

lemma same_server_fun: "same_server a b \<Longrightarrow> same_server a = same_server b"
  by (auto simp: same_server_def fun_eq_iff)

lemma find_snoc: "find P (xs @ [x]) = (case find P xs of Some y \<Rightarrow> Some y | None \<Rightarrow> if P x then Some x else None)"
  by (induction xs) auto

text \<open>
  The table after the tunnels \<open>seen\<close>: each key of one of them leads to a client of its own, made with
  the options of the first tunnel with that key.
\<close>

definition tunnels_inv :: "(string \<Rightarrow> string) \<Rightarrow> (bool \<Rightarrow> nat) \<Rightarrow> tunnel_cnf list \<Rightarrow> tunnels \<Rightarrow> bool" where
  "tunnels_inv json dial seen t \<longleftrightarrow>
     (\<forall>c. tt_keys t (tunnel_key json c) = None \<longleftrightarrow> find (same_server c) seen = None)
     \<and> (\<forall>c k. tt_keys t (tunnel_key json c) = Some k \<longrightarrow> (\<exists>f. find (same_server c) seen = Some f
          \<and> k < length (tt_clients t) \<and> tt_clients t ! k = (tn_Server f, NewClient_opts (tunnel_options dial f))))
     \<and> (\<forall>c d k. tt_keys t (tunnel_key json c) = Some k \<and> tt_keys t (tunnel_key json d) = Some k \<longrightarrow> same_server c d)"

lemma tunnels_inv_D:
  assumes "tunnels_inv json dial seen t"
  shows "tt_keys t (tunnel_key json c) = None \<longleftrightarrow> find (same_server c) seen = None"
    "tt_keys t (tunnel_key json c) = Some k \<Longrightarrow> \<exists>f. find (same_server c) seen = Some f \<and> k < length (tt_clients t)
       \<and> tt_clients t ! k = (tn_Server f, NewClient_opts (tunnel_options dial f))"
    "tt_keys t (tunnel_key json c) = Some k \<Longrightarrow> tt_keys t (tunnel_key json d) = Some k \<Longrightarrow> same_server c d"
  using assms unfolding tunnels_inv_def by blast+

lemma new_tunnel_inv:
  assumes "inj json" "tunnels_inv json dial seen t" "NewTunnelServer json dial listen t cnf = Done (t', Inr srv)"
  shows "tunnels_inv json dial (seen @ [cnf]) t' \<and> tt_keys t' (tunnel_key json cnf) = Some (ts_client srv)
    \<and> tt_keys t \<subseteq>\<^sub>m tt_keys t'"
proof (cases "tt_keys t (tunnel_key json cnf)")
  case (Some k)
  then have t': "t' = t" "ts_client srv = k"
    using assms(3) by (auto simp: NewTunnelServer_def Let_def split: if_splits option.splits)
  have "find (same_server c) (seen @ [cnf]) = find (same_server c) seen" for c
    using tunnels_inv_D(1) [OF assms(2), of cnf] Some same_server_fun [of c cnf]
    by (auto simp: find_snoc split: option.split)
  then show ?thesis using assms(2) Some t' by (simp add: tunnels_inv_def)
next
  case None
  let ?n = "length (tt_clients t)"
  let ?cl = "(tn_Server cnf, NewClient_opts (tunnel_options dial cnf))"
  have t': "tt_clients t' = tt_clients t @ [?cl]" "tt_keys t' = (tt_keys t)(tunnel_key json cnf \<mapsto> ?n)"
    "ts_client srv = ?n"
    using assms(3) None by (auto simp: NewTunnelServer_def Let_def split: if_splits option.splits)
  note d = tunnels_inv_D [OF assms(2)]
  have key: "tt_keys t' (tunnel_key json c) = (if same_server c cnf then Some ?n else tt_keys t (tunnel_key json c))" for c
    using tunnel_key_iff [OF assms(1), of c cnf] t'(2) by simp
  have fnd: "find (same_server c) (seen @ [cnf]) = (if same_server c cnf then Some cnf else find (same_server c) seen)" for c
    using d(1) [of cnf] None same_server_fun [of c cnf] by (auto simp: find_snoc split: option.split)
  have lt: "tt_keys t (tunnel_key json c) = Some k \<Longrightarrow> k < ?n" for c k using d(2) by blast
  have "tunnels_inv json dial (seen @ [cnf]) t'"
    unfolding tunnels_inv_def key fnd t'(1)
  proof (intro conjI allI impI)
    fix c e k
    assume "(if same_server c cnf then Some ?n else tt_keys t (tunnel_key json c)) = Some k
      \<and> (if same_server e cnf then Some ?n else tt_keys t (tunnel_key json e)) = Some k"
    then show "same_server c e"
      using lt [of c k] lt [of e k] d(3) [of c k e] by (auto simp: same_server_def split: if_splits)
  next
    fix c k
    assume "(if same_server c cnf then Some ?n else tt_keys t (tunnel_key json c)) = Some k"
    then show "\<exists>f. (if same_server c cnf then Some cnf else find (same_server c) seen) = Some f
        \<and> k < length (tt_clients t @ [?cl])
        \<and> (tt_clients t @ [?cl]) ! k = (tn_Server f, NewClient_opts (tunnel_options dial f))"
      using d(2) [of c k] by (auto simp: nth_append split: if_splits)
  qed (use d(1) in auto)
  moreover have "tt_keys t \<subseteq>\<^sub>m tt_keys t'" using None t'(2) by (auto simp: map_le_def)
  ultimately show ?thesis using t' by simp
qed

lemma new_tunnels_inv:
  assumes "inj json" "tunnels_inv json dial seen t" "new_tunnels json dial listen t cnfs = Done (t', srvs)"
  shows "tunnels_inv json dial (seen @ cnfs) t' \<and> length srvs = length cnfs \<and> tt_keys t \<subseteq>\<^sub>m tt_keys t'
    \<and> (\<forall>i < length cnfs. tt_keys t' (tunnel_key json (cnfs ! i)) = Some (ts_client (srvs ! i)))"
  using assms(2,3)
proof (induction cnfs arbitrary: seen t srvs)
  case (Cons cnf cnfs)
  obtain u r where ur: "NewTunnelServer json dial listen t cnf = Done (u, r)"
    using Cons.prems(2) by (auto simp: bind_outcome_Done_iff)
  then obtain srv where r: "r = Inr srv" using Cons.prems(2) by (cases r) auto
  then obtain ss where u: "NewTunnelServer json dial listen t cnf = Done (u, Inr srv)"
    "new_tunnels json dial listen u cnfs = Done (t', ss)" "srvs = srv # ss"
    using Cons.prems(2) ur by (auto simp: bind_outcome_Done_iff)
  from new_tunnel_inv [OF assms(1) Cons.prems(1) u(1)]
  have 1: "tunnels_inv json dial (seen @ [cnf]) u" "tt_keys u (tunnel_key json cnf) = Some (ts_client srv)"
    "tt_keys t \<subseteq>\<^sub>m tt_keys u" by auto
  from Cons.IH [OF 1(1) u(2)]
  have 2: "tunnels_inv json dial (seen @ cnf # cnfs) t'" "length ss = length cnfs" "tt_keys u \<subseteq>\<^sub>m tt_keys t'"
    "\<forall>i < length cnfs. tt_keys t' (tunnel_key json (cnfs ! i)) = Some (ts_client (ss ! i))" by auto
  have "tt_keys t' (tunnel_key json cnf) = Some (ts_client srv)"
    using 1(2) 2(3) by (auto simp: map_le_def dom_def)
  then show ?case using 2 u(3) map_le_trans [OF 1(3) 2(3)] by (auto simp: nth_Cons split: nat.split)
qed simp


definition sample_tunnel :: "32 word \<Rightarrow> tunnel_cnf" where
  "sample_tunnel window = \<lparr>tn_Listen = ''l'', tn_Server = ''s'', tn_TLS = False, tn_Insecure = False,
     tn_Backend = ''tcp://b:1'', tn_Window = window, tn_ReadBuffer = 0, tn_WriteBuffer = 0, tn_Ping = 0\<rparr>"

definition quoted :: "string \<Rightarrow> string" where
  "quoted s = CHR ''\"'' # s @ ''\"''"


end
