(* ===== verification/WebRoutes.thy ===== *)
theory WebRoutes
  imports Rewriter
begin

text \<open>
  The web pages that come with the commands: \<open>cmd/httpadapter/web.go\<close> and \<open>cmd/httpadapter/web/document.go\<close>.  The
  patterns are looked up as \<open>http.ServeMux\<close> does, on paths that are clean; the gin library serves the path that a
  route is registered for, and markdown becomes HTML by a function.
\<close>

section \<open>The multiplexer of the standard library\<close>

text \<open>
  A pattern that ends in a slash stands for all paths below it; the longest pattern that fits wins, and a path that
  lacks only the final slash of a pattern is redirected.
\<close>

fun mux_longest :: "(string \<times> 'h) list \<Rightarrow> string \<Rightarrow> (string \<times> 'h) option" where
  "mux_longest [] path = None"
| "mux_longest ((p, h) # ps) path =
     (let rest = mux_longest ps path in
      if HasSuffix p ''/'' \<and> HasPrefix path p then
        (case rest of
           None \<Rightarrow> Some (p, h)
         | Some (q, g) \<Rightarrow> if length q > length p then Some (q, g) else Some (p, h))
      else rest)"

datatype 'h mux_answer = MuxServe 'h | MuxRedirect string | MuxNotFound

definition ServeMux_Handler :: "(string \<times> 'h) list \<Rightarrow> string \<Rightarrow> 'h mux_answer" where
  "ServeMux_Handler ps path =
     (case map_of ps path of
        Some h \<Rightarrow> MuxServe h
      | None \<Rightarrow>
          if \<not> HasSuffix path ''/'' \<and> map_of ps (path @ ''/'') \<noteq> None then MuxRedirect (path @ ''/'')
          else case mux_longest ps path of
                 Some (p, h) \<Rightarrow> MuxServe h
               | None \<Rightarrow> MuxNotFound)"

section \<open>The handlers of the commands\<close>

datatype web_handler = WebEngine | PprofIndex | PprofCmdline | PprofProfile | PprofSymbol | PprofTrace

definition registerWeb :: "(string \<times> web_handler) list" where
  "registerWeb =
     [(''/'', WebEngine), (''/debug/pprof/'', PprofIndex), (''/debug/pprof/cmdline'', PprofCmdline),
      (''/debug/pprof/profile'', PprofProfile), (''/debug/pprof/symbol'', PprofSymbol),
      (''/debug/pprof/trace'', PprofTrace)]"

section \<open>The documentation\<close>

text \<open>The files that are built into the program, and the pages made of them when it starts.\<close>

record document_files =
  df_css :: bytes
  df_httpadapter :: bytes
  df_transport :: bytes
  df_forward :: bytes

record document_pages =
  dp_css :: bytes
  dp_httpadapter :: bytes
  dp_transport :: bytes
  dp_forward :: bytes

text \<open>\<open>render\<close> makes a complete page of a title, the address of the style sheet and a text; titles are UTF-8.\<close>

definition document_init :: "(bytes \<Rightarrow> string \<Rightarrow> bytes \<Rightarrow> bytes) \<Rightarrow> document_files \<Rightarrow> document_pages" where
  "document_init render fs =
     (let css = ''/document/markdown.css'' in
      \<lparr>dp_css = df_css fs,
       dp_httpadapter = render (StringToBytes ''httpadapter '' @ [0xE5, 0x8D, 0x94, 0xE8, 0xAD, 0xB0]) css (df_httpadapter fs),
       dp_transport = render [0xE5, 0x82, 0xB3, 0xE8, 0xBC, 0xB8, 0xE5, 0xB1, 0xA4] css (df_transport fs),
       dp_forward = render [0xE4, 0xB8, 0xAD, 0xE8, 0xBD, 0x89, 0xE5, 0xB1, 0xA4] css (df_forward fs)\<rparr>)"

text \<open>A redirect with its status, or the content type, the name and the body that \<open>http.ServeContent\<close> gets.\<close>

datatype web_page = WebRedirect nat string | WebContent string string bytes

definition Document_index :: web_page where
  "Document_index = WebRedirect 301 ''/document/httpadapter.md''"

definition Document_markdown :: "document_pages \<Rightarrow> web_page" where
  "Document_markdown d = WebContent ''text/css; charset=utf-8'' ''markdown.css'' (dp_css d)"

definition Document_httpadapter :: "document_pages \<Rightarrow> web_page" where
  "Document_httpadapter d = WebContent ''text/html; charset=utf-8'' ''index.md'' (dp_httpadapter d)"

definition Document_transport :: "document_pages \<Rightarrow> web_page" where
  "Document_transport d = WebContent ''text/html; charset=utf-8'' ''transport.md'' (dp_transport d)"

definition Document_forward :: "document_pages \<Rightarrow> web_page" where
  "Document_forward d = WebContent ''text/html; charset=utf-8'' ''forward.md'' (dp_forward d)"

text \<open>\<open>Register\<close>: the routes of the group \<open>document\<close>, all for GET.\<close>

definition Document_Register :: "document_pages \<Rightarrow> (string \<times> web_page) list" where
  "Document_Register d =
     [(''/document'', Document_index), (''/document/markdown.css'', Document_markdown d),
      (''/document/httpadapter.md'', Document_httpadapter d), (''/document/transport.md'', Document_transport d),
      (''/document/forward.md'', Document_forward d)]"

section \<open>What is served\<close>

lemma mux_longest_below:
  "mux_longest ps path = Some (p, h) \<Longrightarrow> (p, h) \<in> set ps \<and> HasPrefix path p"
  by (induction ps arbitrary: p h) (auto simp: Let_def split: if_splits option.splits prod.splits)

lemma HasPrefix_append: "HasPrefix path (p @ q) \<Longrightarrow> HasPrefix path p"
  by (auto simp: HasPrefix_def) (metis append_eq_conv_conj append_take_drop_id append.assoc length_append)

text \<open>
  Everything outside \<open>/debug/pprof\<close> goes to the pages of the command, and everything below it to the profiler,
  whoever asks: the server command serves the profiler on its own port when it has no backend.
\<close>

lemma registerWeb_engine:
  assumes "HasPrefix path ''/''" "\<not> HasPrefix path ''/debug/pprof''"
  shows "ServeMux_Handler registerWeb path = MuxServe WebEngine"
proof -
  have pre: "\<not> HasPrefix path (''/debug/pprof'' @ q)" for q using assms(2) HasPrefix_append by blast
  have ne: "path \<noteq> ''/debug/pprof'' @ q" "path @ ''/'' \<noteq> ''/debug/pprof'' @ q @ ''/''" for q
    using pre [of q] by (auto simp: HasPrefix_def)
  have "path \<noteq> []" using assms(1) by (auto simp: HasPrefix_def)
  moreover have "mux_longest registerWeb path = Some (''/'', WebEngine)"
    using assms(1) pre [of "''/''"] by (simp add: registerWeb_def HasSuffix_def)
  moreover have "map_of registerWeb path = (if path = ''/'' then Some WebEngine else None)"
    using ne(1) [of "''/''"] ne(1) [of "''/cmdline''"] ne(1) [of "''/profile''"] ne(1) [of "''/symbol''"]
      ne(1) [of "''/trace''"] by (simp add: registerWeb_def)
  moreover have "map_of registerWeb (path @ ''/'') = None" if "path \<noteq> []"
    using that ne(2) [of "[]"] by (auto simp: registerWeb_def append_eq_Cons_conv)
  ultimately show ?thesis by (simp add: ServeMux_Handler_def)
qed

lemma registerWeb_pprof: "ServeMux_Handler registerWeb (''/debug/pprof/heap'') = MuxServe PprofIndex"
  "ServeMux_Handler registerWeb (''/debug/pprof'') = MuxRedirect ''/debug/pprof/''"
  by (simp_all add: ServeMux_Handler_def registerWeb_def HasPrefix_def HasSuffix_def)

text \<open>The redirect leads to a page, and no two routes have the same path.\<close>

lemma document_redirect:
  "map_of (Document_Register d) ''/document/httpadapter.md'' = Some (Document_httpadapter d)"
  "distinct (map fst (Document_Register d))"
  by (simp_all add: Document_Register_def)

end
