(* ===== verification/Dialers.thy ===== *)
theory Dialers
  imports ServerOptions
begin

text \<open>
  The objects that the options of \<open>server_options.go\<close> name: the wrappers that make an interface value of a
  function, the package's own dialer and the TCP backend.  What dials is the standard library, here a
  function with the network and the address as arguments.
\<close>

section \<open>Functions as hooks\<close>

record ('req, 'resp) hookDoFunc =
  hd_f :: "'req \<Rightarrow> gerr + 'resp"

definition HookDoFunc :: "('req \<Rightarrow> gerr + 'resp) \<Rightarrow> ('req, 'resp) hookDoFunc" where
  "HookDoFunc f = \<lparr>hd_f = f\<rparr>"

definition hookDoFunc_Do :: "('req, 'resp) hookDoFunc \<Rightarrow> 'req \<Rightarrow> gerr + 'resp" where
  "hookDoFunc_Do h req = hd_f h req"

record 'url hookURLFunc =
  hu_f :: "'url \<Rightarrow> gerr + 'url"

definition HookURLFunc :: "('url \<Rightarrow> gerr + 'url) \<Rightarrow> 'url hookURLFunc" where
  "HookURLFunc f = \<lparr>hu_f = f\<rparr>"

definition hookURLFunc_Hook :: "'url hookURLFunc \<Rightarrow> 'url \<Rightarrow> gerr + 'url" where
  "hookURLFunc_Hook h u = hu_f h u"

text \<open>A function as the handler of channels.\<close>

record ('srv, 'conn, 'r) handlerFunc =
  hf_f :: "'srv \<Rightarrow> 'conn \<Rightarrow> 'r"

definition HandleFunc :: "('srv \<Rightarrow> 'conn \<Rightarrow> 'r) \<Rightarrow> ('srv, 'conn, 'r) handlerFunc" where
  "HandleFunc f = \<lparr>hf_f = f\<rparr>"

definition handlerFunc_ServeChannel :: "('srv, 'conn, 'r) handlerFunc \<Rightarrow> 'srv \<Rightarrow> 'conn \<Rightarrow> 'r" where
  "handlerFunc_ServeChannel h srv c = hf_f h srv c"

section \<open>Dialers\<close>

record ('ctx, 'conn) tcpTCPDialerFunc =
  td_f :: "'ctx \<Rightarrow> string \<Rightarrow> bool \<Rightarrow> gerr + 'conn"

definition TCPDialerFunc :: "('ctx \<Rightarrow> string \<Rightarrow> bool \<Rightarrow> gerr + 'conn) \<Rightarrow> ('ctx, 'conn) tcpTCPDialerFunc" where
  "TCPDialerFunc f = \<lparr>td_f = f\<rparr>"

definition tcpTCPDialerFunc_DialContext ::
    "('ctx, 'conn) tcpTCPDialerFunc \<Rightarrow> 'ctx \<Rightarrow> string \<Rightarrow> bool \<Rightarrow> gerr + 'conn" where
  "tcpTCPDialerFunc_DialContext d ctx addr tls = td_f d ctx addr tls"

definition DefaultTCPDialer_DialContext ::
    "('ctx \<Rightarrow> string \<Rightarrow> string \<Rightarrow> gerr + 'conn) \<Rightarrow> ('ctx \<Rightarrow> string \<Rightarrow> string \<Rightarrow> gerr + 'conn)
       \<Rightarrow> 'ctx \<Rightarrow> string \<Rightarrow> bool \<Rightarrow> gerr + 'conn" where
  "DefaultTCPDialer_DialContext tls_dial net_dial ctx addr safe =
     (if safe then tls_dial ctx ''tcp'' addr else net_dial ctx ''tcp'' addr)"

text \<open>The call through the interface: the dialer of the options, or a user's one by its name.\<close>

definition TCPDialer_DialContext ::
    "('ctx \<Rightarrow> string \<Rightarrow> string \<Rightarrow> gerr + 'conn) \<Rightarrow> ('ctx \<Rightarrow> string \<Rightarrow> string \<Rightarrow> gerr + 'conn)
       \<Rightarrow> (nat \<Rightarrow> ('ctx, 'conn) tcpTCPDialerFunc) \<Rightarrow> dialer_ref \<Rightarrow> 'ctx \<Rightarrow> string \<Rightarrow> bool \<Rightarrow> gerr + 'conn" where
  "TCPDialer_DialContext tls_dial net_dial user d =
     (case d of
        DDefault \<Rightarrow> DefaultTCPDialer_DialContext tls_dial net_dial
      | DUser n \<Rightarrow> tcpTCPDialerFunc_DialContext (user n))"

section \<open>The TCP backend\<close>

record tcpBackend =
  tb_addr :: string

definition NewTCPBackend :: "string \<Rightarrow> tcpBackend" where
  "NewTCPBackend addr = \<lparr>tb_addr = addr\<rparr>"

definition tcpBackend_Dial :: "(string \<Rightarrow> string \<Rightarrow> gerr + 'conn) \<Rightarrow> tcpBackend \<Rightarrow> gerr + 'conn" where
  "tcpBackend_Dial net_dial b = net_dial ''tcp'' (tb_addr b)"

text \<open>Until a dialer is set, a server dials in the clear exactly when it is asked to.\<close>

lemma default_dialer_safe:
  "TCPDialer_DialContext tls_dial net_dial user (so_tcpDialer (NewServer_opts [])) ctx addr safe =
     (if safe then tls_dial else net_dial) ctx ''tcp'' addr"
  by (simp add: NewServer_opts_def defaultServerOptions_def TCPDialer_DialContext_def DefaultTCPDialer_DialContext_def)

text \<open>The last dialer that the options set is the one whose function is called.\<close>

lemma last_dialer_called:
  "TCPDialer_DialContext tls_dial net_dial user (so_tcpDialer (NewServer_opts (os @ [ServerTCPDialer (Some n)]))) ctx addr safe =
     td_f (user n) ctx addr safe"
  by (simp add: NewServer_opts_def ServerTCPDialer_def TCPDialer_DialContext_def tcpTCPDialerFunc_DialContext_def)

end
