(* ===== verification/ServerRun.thy ===== *)
theory ServerRun
  imports Commands WebRoutes Dialers
begin

text \<open>
  A run of the \<open>server\<close> command from \<open>cmd/httpadapter/server.go\<close> and \<open>cnf.go\<close>: the paths of the flags, the file of
  the configuration, the listener, the rules, the two HTTP clients and their hook, up to the call of \<open>Serve\<close>.
  Jsonnet, JSON, certificates, listening and the round trips of HTTP are functions of the environment;
  \<open>log.Fatalln\<close> is \<open>Panic\<close>.
\<close>

section \<open>Paths\<close>

text \<open>\<open>filepath.Clean\<close>, \<open>Dir\<close> and \<open>Join\<close> where the separator is a slash; \<open>out\<close> has the elements so far, the last one first.\<close>

fun clean_elems :: "bool \<Rightarrow> string list \<Rightarrow> string list \<Rightarrow> string list" where
  "clean_elems rooted out [] = rev out"
| "clean_elems rooted out (e # es) =
     (if e = [] \<or> e = ''.'' then clean_elems rooted out es
      else if e = ''..'' then
        (case out of
           [] \<Rightarrow> clean_elems rooted (if rooted then [] else [e]) es
         | o1 # os \<Rightarrow> clean_elems rooted (if o1 = ''..'' then e # out else os) es)
      else clean_elems rooted (e # out) es)"

definition path_Clean :: "string \<Rightarrow> string" where
  "path_Clean p =
     (let rooted = HasPrefix p ''/'';
          es = clean_elems rooted [] (Split (CHR ''/'') p)
      in if rooted then CHR ''/'' # Join (CHR ''/'') es
         else if es = [] then ''.'' else Join (CHR ''/'') es)"

definition path_Dir :: "string \<Rightarrow> string" where
  "path_Dir p = path_Clean (rev (dropWhile (\<lambda>c. c \<noteq> CHR ''/'') (rev p)))"

definition path_Join :: "string list \<Rightarrow> string" where
  "path_Join es =
     (case dropWhile (\<lambda>e. e = []) es of
        [] \<Rightarrow> []
      | es \<Rightarrow> path_Clean (Join (CHR ''/'') es))"

text \<open>\<open>look_path\<close> finds the program and \<open>absolute\<close> makes its path absolute.\<close>

definition BasePath :: "(string \<Rightarrow> gerr + string) \<Rightarrow> (string \<Rightarrow> gerr + string) \<Rightarrow> string \<Rightarrow> string outcome" where
  "BasePath look_path absolute arg0 =
     (case look_path arg0 of
        Inl e \<Rightarrow> Panic
      | Inr filename \<Rightarrow>
          (case absolute filename of
             Inl e \<Rightarrow> Panic
           | Inr filename \<Rightarrow> Done (path_Dir filename)))"

section \<open>Flags\<close>

datatype flag_value = FlagString string | FlagBool bool | FlagStrings "string list"

record cmd_flag =
  fl_name :: string
  fl_short :: string
  fl_default :: flag_value

definition server_flags :: "string \<Rightarrow> cmd_flag list" where
  "server_flags base =
     [\<lparr>fl_name = ''addr'', fl_short = ''a'', fl_default = FlagString []\<rparr>,
      \<lparr>fl_name = ''cnf'', fl_short = ''c'', fl_default = FlagString (path_Join [base, ''etc'', ''server.jsonnet''])\<rparr>]"

section \<open>The configuration file\<close>

text \<open>\<open>unmarshal\<close> fills an object that it is given; both loaders start with an empty one.\<close>

definition loadObject :: "(string \<Rightarrow> gerr + bytes) \<Rightarrow> ('a \<Rightarrow> bytes \<Rightarrow> gerr + 'a) \<Rightarrow> string \<Rightarrow> 'a \<Rightarrow> gerr + 'a" where
  "loadObject evaluate unmarshal filename obj =
     (case evaluate filename of
        Inl e \<Rightarrow> Inl e
      | Inr str \<Rightarrow> unmarshal obj str)"

definition LoadServer ::
    "(string \<Rightarrow> gerr + bytes) \<Rightarrow> (server_cnf \<Rightarrow> bytes \<Rightarrow> gerr + server_cnf) \<Rightarrow> string \<Rightarrow> gerr + server_cnf" where
  "LoadServer evaluate unmarshal filename =
     (case loadObject evaluate unmarshal filename (default_server_cnf\<lparr>sc_Listen := []\<rparr>) of
        Inl e \<Rightarrow> Inl e
      | Inr tmp \<Rightarrow> Inr tmp)"

definition LoadTunnel ::
    "(string \<Rightarrow> gerr + bytes) \<Rightarrow> (tunnel_cnf list \<Rightarrow> bytes \<Rightarrow> gerr + tunnel_cnf list) \<Rightarrow> string \<Rightarrow> gerr + tunnel_cnf list" where
  "LoadTunnel evaluate unmarshal filename =
     (case loadObject evaluate unmarshal filename [] of
        Inl e \<Rightarrow> Inl e
      | Inr tmp \<Rightarrow> Inr tmp)"

section \<open>The listener\<close>

datatype 'cert listener = ListenTLS 'cert string | ListenTCP string

definition server_listen ::
    "(string \<Rightarrow> string \<Rightarrow> gerr + 'cert) \<Rightarrow> ('cert \<Rightarrow> string \<Rightarrow> gerr option) \<Rightarrow> (string \<Rightarrow> gerr option)
       \<Rightarrow> server_cnf \<Rightarrow> 'cert listener outcome" where
  "server_listen load_pair tls_listen net_listen cnf =
     (if server_cmd_tls cnf then
        (case load_pair (sc_CertFile cnf) (sc_KeyFile cnf) of
           Inl e \<Rightarrow> Panic
         | Inr cert \<Rightarrow>
             (case tls_listen cert (sc_Listen cnf) of
                Some e \<Rightarrow> Panic
              | None \<Rightarrow> Done (ListenTLS cert (sc_Listen cnf))))
      else
        (case net_listen (sc_Listen cnf) of
           Some e \<Rightarrow> Panic
         | None \<Rightarrow> Done (ListenTCP (sc_Listen cnf))))"

section \<open>The HTTP clients\<close>

definition ErrUseLastResponse :: gerr where
  "ErrUseLastResponse = ErrText ''net/http: use last response''"

text \<open>\<open>http.Client\<close>: whether it speaks HTTP/2 in the clear, and what it says of a redirect after some requests.\<close>

record 'req http_client =
  hc_h2c :: bool
  hc_CheckRedirect :: "'req \<Rightarrow> 'req list \<Rightarrow> gerr option"

text \<open>
  \<open>http.Client.Do\<close>: \<open>round_trip\<close> makes one exchange and \<open>redirect\<close> is the request that a response leads to; the
  requests so far are \<open>via\<close>.  \<open>None\<close> says that the fuel did not suffice.
\<close>

fun http_Do ::
    "'req http_client \<Rightarrow> (bool \<Rightarrow> 'req \<Rightarrow> gerr + 'resp) \<Rightarrow> ('resp \<Rightarrow> 'req option) \<Rightarrow> nat \<Rightarrow> 'req list \<Rightarrow> 'req
       \<Rightarrow> (gerr + 'resp) option" where
  "http_Do c round_trip redirect 0 via req = None"
| "http_Do c round_trip redirect (Suc n) via req =
     (case round_trip (hc_h2c c) req of
        Inl e \<Rightarrow> Some (Inl e)
      | Inr resp \<Rightarrow>
          (case redirect resp of
             None \<Rightarrow> Some (Inr resp)
           | Some req' \<Rightarrow>
               (case hc_CheckRedirect c req' (via @ [req]) of
                  Some e \<Rightarrow> if e = ErrUseLastResponse then Some (Inr resp) else Some (Inl e)
                | None \<Rightarrow> http_Do c round_trip redirect n (via @ [req]) req')))"

definition server_client :: "'req http_client" where
  "server_client = \<lparr>hc_h2c = False, hc_CheckRedirect = (\<lambda>req via. Some ErrUseLastResponse)\<rparr>"

definition server_h2cClient :: "matcher list \<Rightarrow> matcher list \<Rightarrow> 'req http_client option" where
  "server_h2cClient h2cHosts h2cHostnames =
     (if h2cHosts \<noteq> [] \<or> h2cHostnames \<noteq> [] then
        Some \<lparr>hc_h2c = True, hc_CheckRedirect = (\<lambda>req via. Some ErrUseLastResponse)\<rparr>
      else None)"

text \<open>
  The hook for requests; \<open>u\<close> is the URL of the request and \<open>send\<close> is \<open>Do\<close> of a client.  Without a client for HTTP/2
  its use is a panic.
\<close>

definition server_hookDo ::
    "(string \<Rightarrow> string \<Rightarrow> bool) \<Rightarrow> (url \<Rightarrow> string) \<Rightarrow> matcher list \<Rightarrow> matcher list \<Rightarrow> ('req \<Rightarrow> url)
       \<Rightarrow> ('req http_client \<Rightarrow> 'req \<Rightarrow> 'r) \<Rightarrow> 'req \<Rightarrow> 'r outcome" where
  "server_hookDo regex hostname h2cHosts h2cHostnames u send req =
     (if use_h2c regex hostname h2cHosts h2cHostnames (u req) then
        (case server_h2cClient h2cHosts h2cHostnames of
           None \<Rightarrow> Panic
         | Some h2cClient \<Rightarrow> Done (send h2cClient req))
      else Done (send server_client req))"

section \<open>A run\<close>

text \<open>What \<open>Serve\<close> is called with: the listener, the options, the URL hook, and the patterns that the request hook uses.\<close>

record 'cert server_run =
  sr_listener :: "'cert listener"
  sr_opts :: server_options
  sr_hookURL :: "(url \<Rightarrow> gerr + url) option"
  sr_h2cHosts :: "matcher list"
  sr_h2cHostnames :: "matcher list"

definition server_cmd ::
    "(string \<Rightarrow> gerr + server_cnf) \<Rightarrow> (string \<Rightarrow> string \<Rightarrow> gerr + 'cert) \<Rightarrow> ('cert \<Rightarrow> string \<Rightarrow> gerr option)
       \<Rightarrow> (string \<Rightarrow> gerr option) \<Rightarrow> (string \<Rightarrow> bool) \<Rightarrow> (string \<Rightarrow> string \<Rightarrow> bool) \<Rightarrow> (url \<Rightarrow> string)
       \<Rightarrow> nat \<Rightarrow> nat \<Rightarrow> nat \<Rightarrow> nat \<Rightarrow> string \<Rightarrow> string \<Rightarrow> 'cert server_run outcome" where
  "server_cmd load load_pair tls_listen net_listen compile regex hostname web backend hook hook_do cnfpath addr =
     bind_outcome (server_cmd_cnf (\<lambda>f. case load f of Inl e \<Rightarrow> None | Inr cnf \<Rightarrow> Some cnf) cnfpath addr) (\<lambda>cnf.
     bind_outcome (server_listen load_pair tls_listen net_listen cnf) (\<lambda>l.
     bind_outcome (cnf_hookURL compile regex hostname (sc_Rewriter cnf)) (\<lambda>h.
     bind_outcome (newMatchers compile (sc_H2C_Hosts cnf)) (\<lambda>h2cHosts.
     bind_outcome (newMatchers compile (sc_H2C_Hostnames cnf)) (\<lambda>h2cHostnames.
       Done \<lparr>sr_listener = l, sr_opts = NewServer_opts (server_cmd_options web backend hook hook_do cnf),
             sr_hookURL = h, sr_h2cHosts = h2cHosts, sr_h2cHostnames = h2cHostnames\<rparr>)))))"

section \<open>What a run does\<close>

text \<open>An element that names a file or a directory.\<close>

definition plain_elem :: "string \<Rightarrow> bool" where
  "plain_elem e \<longleftrightarrow> e \<noteq> [] \<and> e \<noteq> ''.'' \<and> e \<noteq> ''..'' \<and> CHR ''/'' \<notin> set e"

lemma clean_plain: "\<forall>e \<in> set es. plain_elem e \<Longrightarrow> clean_elems rooted out es = rev out @ es"
  by (induction es arbitrary: out) (auto simp: plain_elem_def)

lemma Join_snoc: "es \<noteq> [] \<Longrightarrow> Join c (es @ [e]) = Join c es @ c # e"
  by (induction c es rule: Join.induct) (auto simp: neq_Nil_conv)

lemma Clean_root:
  "\<forall>e \<in> set es. plain_elem e \<Longrightarrow> path_Clean (CHR ''/'' # Join (CHR ''/'') es) = CHR ''/'' # Join (CHR ''/'') es"
  by (cases "es = []") (auto simp: path_Clean_def Let_def HasPrefix_def clean_plain Split_Join plain_elem_def)

lemma Clean_double_root:
  assumes "\<forall>e \<in> set es. plain_elem e"
  shows "path_Clean (Join (CHR ''/'') ([] # [] # es)) = CHR ''/'' # Join (CHR ''/'') es"
proof -
  have "Split (CHR ''/'') (Join (CHR ''/'') ([] # [] # es)) = [] # [] # es"
    using assms by (intro Split_Join) (auto simp: plain_elem_def)
  moreover have "HasPrefix (Join (CHR ''/'') ([] # [] # es)) ''/''" by (simp add: HasPrefix_def)
  ultimately show ?thesis using clean_plain [OF assms] by (simp add: path_Clean_def Let_def del: Join.simps)
qed

lemma Clean_root_slash:
  assumes "\<forall>e \<in> set es. plain_elem e" "es \<noteq> []"
  shows "path_Clean (CHR ''/'' # Join (CHR ''/'') es @ ''/'') = CHR ''/'' # Join (CHR ''/'') es"
proof -
  have "CHR ''/'' # Join (CHR ''/'') es @ ''/'' = Join (CHR ''/'') ([] # es @ [[]])"
    using assms(2) Join_snoc [OF assms(2), of "CHR ''/''" "[]"] by (simp add: Join_Cons)
  moreover have "Split (CHR ''/'') (Join (CHR ''/'') ([] # es @ [[]])) = [] # es @ [[]]"
    using assms(1) by (intro Split_Join) (auto simp: plain_elem_def)
  ultimately have "Split (CHR ''/'') (CHR ''/'' # Join (CHR ''/'') es @ ''/'') = [] # es @ [[]]" by (rule ssubst)
  moreover have "clean_elems True [] (es @ [[]]) = es"
  proof -
    have "clean_elems True out (es @ [[]]) = rev out @ es" for out
      using assms(1) by (induction es arbitrary: out) (auto simp: plain_elem_def)
    then show ?thesis by simp
  qed
  ultimately show ?thesis by (simp add: path_Clean_def Let_def HasPrefix_def)
qed

lemma Dir_root:
  assumes "\<forall>e \<in> set es. plain_elem e" "plain_elem f"
  shows "path_Dir (CHR ''/'' # Join (CHR ''/'') (es @ [f])) = CHR ''/'' # Join (CHR ''/'') es"
proof -
  have d: "dropWhile (\<lambda>c. c \<noteq> CHR ''/'') (rev f @ CHR ''/'' # s) = CHR ''/'' # s" for s
    using assms(2) by (subst dropWhile_append2) (auto simp: plain_elem_def)
  show ?thesis
  proof (cases "es = []")
    case True
    then show ?thesis using d [of "[]"] by (simp add: path_Dir_def path_Clean_def Let_def HasPrefix_def)
  next
    case False
    then have "CHR ''/'' # Join (CHR ''/'') (es @ [f]) = (CHR ''/'' # Join (CHR ''/'') es) @ CHR ''/'' # f"
      by (simp add: Join_snoc)
    moreover have "path_Dir ((CHR ''/'' # Join (CHR ''/'') es) @ CHR ''/'' # f) = path_Clean (CHR ''/'' # Join (CHR ''/'') es @ ''/'')"
      using d [of "rev (CHR ''/'' # Join (CHR ''/'') es)"] by (simp add: path_Dir_def)
    ultimately show ?thesis using Clean_root_slash [OF assms(1) False] by (simp only:)
  qed
qed

text \<open>
  The file that is read when no flag names one: the program's directory, then \<open>etc/server.jsonnet\<close>.
\<close>

lemma server_default_cnf:
  assumes "look_path arg0 = Inr f" "absolute f = Inr (CHR ''/'' # Join (CHR ''/'') (es @ [prog]))"
    "\<forall>e \<in> set es. plain_elem e" "plain_elem prog"
  shows "\<exists>base. BasePath look_path absolute arg0 = Done base
    \<and> fl_default (server_flags base ! 1) = FlagString (CHR ''/'' # Join (CHR ''/'') (es @ [''etc'', ''server.jsonnet'']))"
proof -
  let ?base = "CHR ''/'' # Join (CHR ''/'') es"
  let ?p = "es @ [''etc'', ''server.jsonnet'']"
  have "BasePath look_path absolute arg0 = Done ?base"
    using assms Dir_root [of es prog] by (simp add: BasePath_def)
  moreover have "path_Join [?base, ''etc'', ''server.jsonnet''] = CHR ''/'' # Join (CHR ''/'') ?p"
  proof (cases "es = []")
    case True
    then show ?thesis
      using Clean_double_root [of "[''etc'', ''server.jsonnet'']"] by (simp add: path_Join_def plain_elem_def)
  next
    case False
    then have "Join (CHR ''/'') ?p = Join (CHR ''/'') es @ ''/etc/server.jsonnet''"
      using Join_snoc [of "es @ [''etc'']" "CHR ''/''" "''server.jsonnet''"] Join_snoc [of es "CHR ''/''" "''etc''"] by simp
    moreover have "path_Clean (CHR ''/'' # Join (CHR ''/'') ?p) = CHR ''/'' # Join (CHR ''/'') ?p"
      using assms(3) by (intro Clean_root) (auto simp: plain_elem_def)
    ultimately show ?thesis by (simp add: path_Join_def)
  qed
  ultimately show ?thesis by (simp add: server_flags_def)
qed

text \<open>Neither client follows a redirect: one exchange, and its response is the answer, a redirect included.\<close>

lemma redirects_not_followed:
  fixes c :: "'req http_client" and round_trip :: "bool \<Rightarrow> 'req \<Rightarrow> gerr + 'resp"
  assumes "c = server_client \<or> server_h2cClient hosts hostnames = Some c"
  shows "http_Do c round_trip redirect (Suc n) [] req = Some (round_trip (hc_h2c c) req)"
  using assms
  by (auto simp: server_client_def server_h2cClient_def split: sum.split option.split if_splits)

text \<open>The hook never meets a missing client, and the client that it takes is the one of the patterns.\<close>

lemma hookDo_one_exchange:
  fixes round_trip :: "bool \<Rightarrow> 'req \<Rightarrow> gerr + 'resp"
  shows "server_hookDo regex hostname hosts hostnames u
       (\<lambda>c. http_Do c round_trip redirect (Suc n) []) req
     = Done (Some (round_trip (use_h2c regex hostname hosts hostnames (u req)) req))"
proof (cases "use_h2c regex hostname hosts hostnames (u req)")
  case True
  then obtain c :: "'req http_client" where c: "server_h2cClient hosts hostnames = Some c" "hc_h2c c"
    by (auto simp: use_h2c_def server_h2cClient_def split: if_splits)
  then show ?thesis
    using True redirects_not_followed [of c hosts hostnames round_trip redirect n req] by (simp add: server_hookDo_def)
next
  case False
  then show ?thesis
    using redirects_not_followed [of server_client hosts hostnames round_trip redirect n req]
    by (simp add: server_hookDo_def, simp add: server_client_def)
qed

text \<open>
  A run that comes to \<open>Serve\<close>: the listener is on the address of the flag or else of the configuration, with TLS
  exactly when the configuration names both files; the hooks are those of its rules and patterns.
\<close>

lemma server_cmd_serves:
  assumes "server_cmd load load_pair tls_listen net_listen compile regex hostname web backend hook hook_do cnfpath addr = Done r"
  obtains cnf where
    "server_cmd_cnf (\<lambda>f. case load f of Inl e \<Rightarrow> None | Inr cnf \<Rightarrow> Some cnf) cnfpath addr = Done cnf"
    "if sc_CertFile cnf \<noteq> [] \<and> sc_KeyFile cnf \<noteq> []
     then \<exists>cert. load_pair (sc_CertFile cnf) (sc_KeyFile cnf) = Inr cert \<and> sr_listener r = ListenTLS cert (sc_Listen cnf)
     else sr_listener r = ListenTCP (sc_Listen cnf)"
    "addr \<noteq> [] \<Longrightarrow> sc_Listen cnf = addr"
    "sr_opts r = NewServer_opts (server_cmd_options web backend hook hook_do cnf)"
    "cnf_hookURL compile regex hostname (sc_Rewriter cnf) = Done (sr_hookURL r)"
    "newMatchers compile (sc_H2C_Hosts cnf) = Done (sr_h2cHosts r)"
    "newMatchers compile (sc_H2C_Hostnames cnf) = Done (sr_h2cHostnames r)"
proof -
  obtain cnf where c: "server_cmd_cnf (\<lambda>f. case load f of Inl e \<Rightarrow> None | Inr cnf \<Rightarrow> Some cnf) cnfpath addr = Done cnf"
    "server_listen load_pair tls_listen net_listen cnf = Done (sr_listener r)"
    "sr_opts r = NewServer_opts (server_cmd_options web backend hook hook_do cnf)"
    "cnf_hookURL compile regex hostname (sc_Rewriter cnf) = Done (sr_hookURL r)"
    "newMatchers compile (sc_H2C_Hosts cnf) = Done (sr_h2cHosts r)"
    "newMatchers compile (sc_H2C_Hostnames cnf) = Done (sr_h2cHostnames r)"
    using assms by (auto simp: server_cmd_def bind_outcome_Done_iff)
  have "addr \<noteq> [] \<Longrightarrow> sc_Listen cnf = addr"
    using c(1) by (auto simp: server_cmd_cnf_def bind_outcome_Done_iff)
  moreover have "if sc_CertFile cnf \<noteq> [] \<and> sc_KeyFile cnf \<noteq> []
     then \<exists>cert. load_pair (sc_CertFile cnf) (sc_KeyFile cnf) = Inr cert \<and> sr_listener r = ListenTLS cert (sc_Listen cnf)
     else sr_listener r = ListenTCP (sc_Listen cnf)"
    using c(2) by (auto simp: server_listen_def server_cmd_tls_def split: sum.splits option.splits if_splits)
  ultimately show ?thesis using that c by blast
qed

text \<open>A file that names no address leaves it empty: the default is that of a run without a file.\<close>

lemma loaded_listen_empty:
  assumes "evaluate f = Inr str" "\<And>obj. unmarshal obj str = Inr obj"
  shows "LoadServer evaluate unmarshal f = Inr (default_server_cnf\<lparr>sc_Listen := []\<rparr>)"
  using assms by (simp add: LoadServer_def loadObject_def)

end
