(* ===== verification/ClientCommand.thy ===== *)
theory ClientCommand
  imports Commands Relay
begin

text \<open>
  The interactive part of the \<open>client\<close> command and the accept loop of a tunnel: \<open>getInput\<close> with the
  decoders that it calls, the loop of a TCP session, and \<open>TunnelServer.Serve\<close>.
\<close>

section \<open>Input lines\<close>

text \<open>\<open>strings.TrimSpace\<close> on ASCII text.\<close>

definition space_char :: "char \<Rightarrow> bool" where
  "space_char c \<longleftrightarrow> c \<in> {CHR '' '', CHR 0x09, CHR 0x0A, CHR 0x0B, CHR 0x0C, CHR 0x0D}"

definition TrimSpace :: "string \<Rightarrow> string" where
  "TrimSpace s = rev (dropWhile space_char (rev (dropWhile space_char s)))"

text \<open>\<open>hex.DecodeString\<close>.\<close>

definition hex_digit :: "char \<Rightarrow> nat option" where
  "hex_digit c =
     (let n = (of_char c :: nat) in
      if 48 \<le> n \<and> n \<le> 57 then Some (n - 48)
      else if 97 \<le> n \<and> n \<le> 102 then Some (n - 87)
      else if 65 \<le> n \<and> n \<le> 70 then Some (n - 55) else None)"

fun hex_decode :: "string \<Rightarrow> bytes option" where
  "hex_decode [] = Some []"
| "hex_decode [c] = None"
| "hex_decode (c # d # s) =
     (case (hex_digit c, hex_digit d, hex_decode s) of
        (Some h, Some l, Some bs) \<Rightarrow> Some (of_nat (16 * h + l) # bs)
      | _ \<Rightarrow> None)"

text \<open>
  \<open>base64.StdEncoding.DecodeString\<close>: line breaks are skipped, groups of four digits, and padding only at
  the end; the bits that padding leaves over are not checked.
\<close>

definition base64_digit :: "char \<Rightarrow> nat option" where
  "base64_digit c =
     (let n = (of_char c :: nat) in
      if 65 \<le> n \<and> n \<le> 90 then Some (n - 65)
      else if 97 \<le> n \<and> n \<le> 122 then Some (n - 71)
      else if 48 \<le> n \<and> n \<le> 57 then Some (n + 4)
      else if n = 43 then Some 62 else if n = 47 then Some 63 else None)"

definition base64_group :: "nat \<Rightarrow> nat \<Rightarrow> nat \<Rightarrow> nat \<Rightarrow> bytes" where
  "base64_group a b c d =
     (let n = 262144 * a + 4096 * b + 64 * c + d in [of_nat (n div 65536), of_nat (n div 256), of_nat n])"

fun base64_groups :: "string \<Rightarrow> bytes option" where
  "base64_groups [] = Some []"
| "base64_groups (a # b # c # d # s) =
     (case (base64_digit a, base64_digit b) of
        (Some a, Some b) \<Rightarrow>
          if d = CHR ''='' \<and> s = [] then
            (if c = CHR ''='' then Some (take 1 (base64_group a b 0 0))
             else case base64_digit c of
                    Some c \<Rightarrow> Some (take 2 (base64_group a b c 0))
                  | None \<Rightarrow> None)
          else
            (case (base64_digit c, base64_digit d, base64_groups s) of
               (Some c, Some d, Some bs) \<Rightarrow> Some (base64_group a b c d @ bs)
             | _ \<Rightarrow> None)
      | _ \<Rightarrow> None)"
| "base64_groups _ = None"

definition base64_decode :: "string \<Rightarrow> bytes option" where
  "base64_decode s = base64_groups (filter (\<lambda>c. c \<noteq> CHR 0x0A \<and> c \<noteq> CHR 0x0D) s)"

text \<open>
  \<open>getInput\<close> on the lines that follow: text or not, the message, and the lines left.  The end of the input is
  fatal.
\<close>

fun getInput :: "string list \<Rightarrow> (bool \<times> bytes \<times> string list) outcome" where
  "getInput [] = Panic"
| "getInput (l # ls) =
     (let s = TrimSpace l in
      if s = [] then getInput ls
      else if HasPrefix s ''hex:'' then
        (case hex_decode (drop 4 s) of Some b \<Rightarrow> Done (False, b, ls) | None \<Rightarrow> getInput ls)
      else if HasPrefix s ''base64:'' then
        (case base64_decode (drop 7 s) of Some b \<Rightarrow> Done (False, b, ls) | None \<Rightarrow> getInput ls)
      else Done (True, StringToBytes s, ls))"

section \<open>Sessions\<close>

text \<open>
  A TCP session: the goroutine that reads the input and the loop that reads the connection share the slice
  \<open>b\<close>, here its length and capacity; \<open>tc_read\<close> is what has been read and not yet printed.  \<open>TcInput\<close> is an
  input line whose message has this length and capacity.  \<open>None\<close> says that a turn is not possible.
\<close>

record tcp_session =
  tc_len :: nat
  tc_cap :: nat
  tc_read :: "nat option"

datatype tcp_event = TcInput nat nat | TcRead nat | TcPrint

definition tcp_session_start :: tcp_session where
  "tcp_session_start = \<lparr>tc_len = 1024, tc_cap = 1024, tc_read = None\<rparr>"

fun tcp_turn :: "tcp_session \<Rightarrow> tcp_event \<Rightarrow> tcp_session outcome option" where
  "tcp_turn s (TcInput len cap) = (if len \<le> cap then Some (Done (s\<lparr>tc_len := len, tc_cap := cap\<rparr>)) else None)"
| "tcp_turn s (TcRead n) =
     (if tc_read s = None \<and> n \<le> tc_len s then Some (Done (s\<lparr>tc_read := Some n\<rparr>)) else None)"
| "tcp_turn s TcPrint =
     (case tc_read s of
        None \<Rightarrow> None
      | Some n \<Rightarrow> if n \<le> tc_cap s then Some (Done (s\<lparr>tc_read := None\<rparr>)) else Some Panic)"

fun tcp_run :: "tcp_session \<Rightarrow> tcp_event list \<Rightarrow> tcp_session outcome option" where
  "tcp_run s [] = Some (Done s)"
| "tcp_run s (e # es) =
     (case tcp_turn s e of
        None \<Rightarrow> None
      | Some Panic \<Rightarrow> Some Panic
      | Some (Done s) \<Rightarrow> tcp_run s es)"

text \<open>
  \<open>TunnelServer.Serve\<close> on what \<open>Accept\<close> returns: an error is ignored; a connection is what \<open>Connect\<close>
  reports and, if that is no error, the turns of the two copies.  The result is what each connection carried
  to the server and back, or nothing when it was closed at once.
\<close>

record tunnel_conn =
  tn_connect :: "gerr option"
  tn_up :: "copy_turn list"
  tn_down :: "copy_turn list"

fun tunnel_Serve :: "(gerr + tunnel_conn) list \<Rightarrow> (bytes \<times> bytes) option list" where
  "tunnel_Serve [] = []"
| "tunnel_Serve (Inl e # as) = tunnel_Serve as"
| "tunnel_Serve (Inr c # as) =
     (case tn_connect c of
        Some e \<Rightarrow> None
      | None \<Rightarrow> Some (fst (Copy (tn_up c)), fst (Copy (tn_down c)))) # tunnel_Serve as"

section \<open>What a line means\<close>

text \<open>Encoders, as a user would apply them, and that the decoders undo them.\<close>

definition hex_char :: "nat \<Rightarrow> char" where
  "hex_char n = (if n < 10 then char_of (48 + n) else char_of (87 + n))"

definition hex_encode :: "bytes \<Rightarrow> string" where
  "hex_encode bs = concat (map (\<lambda>b. [hex_char (unat b div 16), hex_char (unat b mod 16)]) bs)"

lemma hex_digit_char: "n < 16 \<Longrightarrow> hex_digit (hex_char n) = Some n"
  by (auto simp: hex_digit_def hex_char_def of_char_of)

lemma hex_roundtrip: "hex_decode (hex_encode bs) = Some bs"
proof (induction bs)
  case (Cons b bs)
  have "unat b div 16 < 16" by (rule less_mult_imp_div_less) simp
  then have "hex_digit (hex_char (unat b div 16)) = Some (unat b div 16)" "hex_digit (hex_char (unat b mod 16)) = Some (unat b mod 16)"
    by (simp_all add: hex_digit_char)
  then show ?case using Cons by (simp add: hex_encode_def)
qed (simp add: hex_encode_def)

definition base64_char :: "nat \<Rightarrow> char" where
  "base64_char n =
     (if n < 26 then char_of (65 + n) else if n < 52 then char_of (71 + n)
      else if n < 62 then char_of (n - 4) else if n = 62 then char_of (43 :: nat) else char_of (47 :: nat))"

definition base64_chars :: "nat \<Rightarrow> string" where
  "base64_chars n = map base64_char [n div 262144 mod 64, n div 4096 mod 64, n div 64 mod 64, n mod 64]"

fun base64_encode :: "bytes \<Rightarrow> string" where
  "base64_encode [] = []"
| "base64_encode [x] = take 2 (base64_chars (65536 * unat x)) @ ''==''"
| "base64_encode [x, y] = take 3 (base64_chars (65536 * unat x + 256 * unat y)) @ ''=''"
| "base64_encode (x # y # z # bs) = base64_chars (65536 * unat x + 256 * unat y + unat z) @ base64_encode bs"

lemma base64_digit_char: "n < 64 \<Longrightarrow> base64_digit (base64_char n) = Some n"
  by (auto simp: base64_digit_def base64_char_def of_char_of Let_def)

lemma base64_char_neq:
  "n < 64 \<Longrightarrow> base64_char n \<noteq> CHR ''=''" "n < 64 \<Longrightarrow> base64_char n \<noteq> CHR 0x0A" "n < 64 \<Longrightarrow> base64_char n \<noteq> CHR 0x0D"
proof -
  have "base64_digit (CHR ''='') = None" "base64_digit (CHR 0x0A) = None" "base64_digit (CHR 0x0D) = None"
    by (simp_all add: base64_digit_def)
  then show "n < 64 \<Longrightarrow> base64_char n \<noteq> CHR ''=''" "n < 64 \<Longrightarrow> base64_char n \<noteq> CHR 0x0A" "n < 64 \<Longrightarrow> base64_char n \<noteq> CHR 0x0D"
    using base64_digit_char [of n] by auto
qed

lemma sextets: "262144 * (n div 262144 mod 64) + 4096 * (n div 4096 mod 64) + 64 * (n div 64 mod 64) + n mod 64 = n"
  if "n < 16777216" for n :: nat
proof -
  have "n div 64 div 64 = n div 4096" "n div 4096 div 64 = n div 262144" by (simp_all flip: div_mult2_eq)
  then have "n = 64 * (n div 64) + n mod 64" "n div 64 = 64 * (n div 4096) + n div 64 mod 64"
    "n div 4096 = 64 * (n div 262144) + n div 4096 mod 64"
    using mult_div_mod_eq [of 64 n] mult_div_mod_eq [of 64 "n div 64"] mult_div_mod_eq [of 64 "n div 4096"] by simp_all
  moreover have "n div 262144 mod 64 = n div 262144" using that by (simp add: less_mult_imp_div_less)
  ultimately show ?thesis by linarith
qed

lemma word8_of_nat: "(of_nat (256 * k + unat b) :: byte) = b"
proof -
  have "(256 :: byte) = 0" by simp
  then have "(256 :: byte) * of_nat k = 0" by (metis mult_zero_left)
  then show ?thesis by simp
qed

lemma base64_group_chars:
  fixes x y z :: byte
  shows "(let n = 65536 * unat x + 256 * unat y + unat z in
    base64_group (n div 262144 mod 64) (n div 4096 mod 64) (n div 64 mod 64) (n mod 64)) = [x, y, z]"
proof -
  define n where "n = 65536 * unat x + 256 * unat y + unat z"
  have b: "unat x \<le> 255" "unat y \<le> 255" "unat z \<le> 255" by (simp_all flip: less_Suc_eq_le)
  then have "n < 16777216" by (simp add: n_def)
  moreover have "n div 65536 = unat x" "n div 256 = 256 * unat x + unat y" "n = 256 * (256 * unat x + unat y) + unat z"
    using b by (simp_all add: n_def)
  ultimately show ?thesis
    unfolding n_def [symmetric] Let_def base64_group_def
    using word8_of_nat [of "256 * unat x + unat y" z] word8_of_nat [of "unat x" y]
    by (simp only: sextets Let_def) simp
qed


lemma base64_groups_chars:
  fixes x y z :: byte
  shows "base64_groups (base64_chars (65536 * unat x + 256 * unat y + unat z) @ s)
    = map_option (\<lambda>bs. [x, y, z] @ bs) (base64_groups s)"
  using base64_group_chars [of x y z] base64_char_neq(1)
  by (simp add: base64_chars_def base64_digit_char Let_def split: option.split)

lemma base64_roundtrip: "base64_groups (base64_encode bs) = Some bs"
proof (induction bs rule: base64_encode.induct)
  case (2 x)
  then show ?case
    using base64_group_chars [of x 0 0]
    by (simp add: base64_chars_def base64_digit_char Let_def)
next
  case (3 x y)
  then show ?case
    using base64_group_chars [of x y 0] base64_char_neq(1)
    by (simp add: base64_chars_def base64_digit_char Let_def)
next
  case (4 x y z bs)
  then show ?case by (simp only: base64_encode.simps base64_groups_chars) simp
qed simp

lemma base64_encode_plain: "c \<in> set (base64_encode bs) \<Longrightarrow> c \<noteq> CHR 0x0A \<and> c \<noteq> CHR 0x0D"
  by (induction bs rule: base64_encode.induct) (auto simp: base64_chars_def base64_char_neq)

lemma base64_decode_encode: "base64_decode (base64_encode bs) = Some bs"
proof -
  have "filter (\<lambda>c. c \<noteq> CHR 0x0A \<and> c \<noteq> CHR 0x0D) (base64_encode bs) = base64_encode bs"
    using base64_encode_plain by (auto simp: filter_id_conv)
  then show ?thesis by (simp add: base64_decode_def base64_roundtrip)
qed


text \<open>A line that \<open>getInput\<close> passes over: blank, or a broken encoding.\<close>

definition skipped_line :: "string \<Rightarrow> bool" where
  "skipped_line l \<longleftrightarrow>
     (let s = TrimSpace l in
      s = [] \<or> HasPrefix s ''hex:'' \<and> hex_decode (drop 4 s) = None
      \<or> HasPrefix s ''base64:'' \<and> base64_decode (drop 7 s) = None)"

lemma prefixes_exclusive: "HasPrefix s ''hex:'' \<Longrightarrow> \<not> HasPrefix s ''base64:''"
  by (cases s) (auto simp: HasPrefix_def)

lemma getInput_skips: "\<forall>l \<in> set junk. skipped_line l \<Longrightarrow> getInput (junk @ ls) = getInput ls"
  by (induction junk) (auto simp: skipped_line_def Let_def dest: prefixes_exclusive split: option.splits)

lemma TrimSpace_ends:
  assumes "\<not> space_char c" "s = [] \<or> \<not> space_char (last s)"
  shows "TrimSpace (c # s) = c # s"
proof -
  have "dropWhile space_char (rev (c # s)) = rev (c # s)"
    using assms by (cases s rule: rev_cases) auto
  then show ?thesis using assms(1) by (simp add: TrimSpace_def)
qed

lemma hex_char_space: "n < 16 \<Longrightarrow> \<not> space_char (hex_char n)"
proof -
  have "hex_digit c = None" if "space_char c" for c using that by (auto simp: space_char_def hex_digit_def)
  then show "n < 16 \<Longrightarrow> \<not> space_char (hex_char n)" using hex_digit_char [of n] by auto
qed

lemma hex_encode_last: "hex_encode bs = [] \<or> \<not> space_char (last (hex_encode bs))"
  by (cases bs rule: rev_cases) (auto simp: hex_encode_def hex_char_space)

lemma base64_chars_space: "c \<in> set (base64_encode bs) \<Longrightarrow> \<not> space_char c"
proof -
  have "base64_digit c = None" if "space_char c" for c using that by (auto simp: space_char_def base64_digit_def)
  then have "n < 64 \<Longrightarrow> \<not> space_char (base64_char n)" for n using base64_digit_char [of n] by auto
  then show "c \<in> set (base64_encode bs) \<Longrightarrow> \<not> space_char c"
    by (induction bs rule: base64_encode.induct) (auto simp: base64_chars_def space_char_def)
qed

text \<open>
  \<open>getInput\<close> passes over blank and broken lines and gives the first message: the bytes that were encoded in
  hex or base64, or the text of a line with neither prefix.
\<close>

theorem getInput_message:
  assumes "\<forall>l \<in> set junk. skipped_line l"
  shows "getInput (junk @ (''hex:'' @ hex_encode bs) # ls) = Done (False, bs, ls)"
    "getInput (junk @ (''base64:'' @ base64_encode bs) # ls) = Done (False, bs, ls)"
    "s \<noteq> [] \<Longrightarrow> \<not> space_char (hd s) \<Longrightarrow> \<not> space_char (last s) \<Longrightarrow> \<not> HasPrefix s ''hex:'' \<Longrightarrow> \<not> HasPrefix s ''base64:''
      \<Longrightarrow> getInput (junk @ s # ls) = Done (True, StringToBytes s, ls)"
proof -
  have "TrimSpace (''hex:'' @ hex_encode bs) = ''hex:'' @ hex_encode bs"
    using TrimSpace_ends [of "CHR ''h''" "''ex:'' @ hex_encode bs"] hex_encode_last [of bs] by (auto simp: space_char_def)
  then show "getInput (junk @ (''hex:'' @ hex_encode bs) # ls) = Done (False, bs, ls)"
    using getInput_skips [OF assms] by (simp add: HasPrefix_def hex_roundtrip)
  have "base64_encode bs = [] \<or> \<not> space_char (last (base64_encode bs))"
    using base64_chars_space last_in_set by blast
  then have "TrimSpace (''base64:'' @ base64_encode bs) = ''base64:'' @ base64_encode bs"
    using TrimSpace_ends [of "CHR ''b''" "''ase64:'' @ base64_encode bs"] by (auto simp: space_char_def)
  then show "getInput (junk @ (''base64:'' @ base64_encode bs) # ls) = Done (False, bs, ls)"
    using getInput_skips [OF assms] by (simp add: HasPrefix_def base64_decode_encode)
  show "getInput (junk @ s # ls) = Done (True, StringToBytes s, ls)"
    if "s \<noteq> []" "\<not> space_char (hd s)" "\<not> space_char (last s)" "\<not> HasPrefix s ''hex:''" "\<not> HasPrefix s ''base64:''"
  proof -
    have "TrimSpace s = s" using that TrimSpace_ends [of "hd s" "tl s"] by (cases s) (auto split: if_splits)
    then show ?thesis using getInput_skips [OF assms] that by (simp add: Let_def)
  qed
qed

text \<open>
  The shared slice: a short input between a read and its printing makes the slice expression panic; and after an
  input without bytes every read of the connection returns nothing.
\<close>

theorem tcp_session_panics: "tcp_run tcp_session_start [TcRead 10, TcInput 1 1, TcPrint] = Some Panic"
  by (simp add: tcp_session_start_def)

theorem tcp_session_spins: "tcp_turn (s\<lparr>tc_len := 0, tc_cap := c\<rparr>) (TcRead n) \<noteq> None \<Longrightarrow> n = 0"
  by (simp split: if_splits)

text \<open>A tunnel serves every connection that it accepts, and never ends because of an error of \<open>Accept\<close>.\<close>

theorem tunnel_serves_all:
  "tunnel_Serve as = map (\<lambda>c. case tn_connect c of Some e \<Rightarrow> None
      | None \<Rightarrow> Some (fst (Copy (tn_up c)), fst (Copy (tn_down c)))) [c. Inr c \<leftarrow> as]"
  by (induction as rule: tunnel_Serve.induct) auto

section \<open>What the client command does\<close>

text \<open>
  The command by the scheme of its URL, which \<open>url.Parse\<close> gives, or nothing when it does not parse: a unary request, a
  web socket with headers or a connection.  Other schemes do nothing.
\<close>

datatype client_action =
    CmdUnary message_request
  | CmdWebsocket "header option"
  | CmdConnect
  | CmdNothing

definition client_cmd :: "string option \<Rightarrow> string \<Rightarrow> string \<Rightarrow> string \<Rightarrow> string list \<Rightarrow> client_action outcome" where
  "client_cmd scheme uri method body header =
     (case scheme of
        None \<Rightarrow> Done CmdNothing
      | Some s \<Rightarrow>
          if s \<in> {''http'', ''https''} then
            bind_outcome (client_cmd_request uri method body header) (\<lambda>r. Done (CmdUnary r))
          else if s \<in> {''ws'', ''wss''} then
            bind_outcome (getHeader header) (\<lambda>h. Done (CmdWebsocket h))
          else if s \<in> {''tcp'', ''tls''} then Done CmdConnect
          else Done CmdNothing)"

text \<open>\<open>dialer\<close> names the TLS dialer that the command creates; \<open>insecure\<close> is a setting of it.\<close>

definition client_cmd_options :: "nat \<Rightarrow> bool \<Rightarrow> client_option list" where
  "client_cmd_options dialer usetls = (if usetls then [WithDialer (DUser dialer)] else [])"

text \<open>The message that the web socket client sends for an input: its type, 1 for text and 2 for binary, and its data.\<close>

definition client_ws_message :: "bool \<times> bytes \<Rightarrow> nat \<times> bytes" where
  "client_ws_message inp = (case inp of (text_line, b) \<Rightarrow> (if text_line then 1 else 2, b))"

text \<open>
  A header without an equals sign ends the command for requests and web sockets, whatever else is given; a connection
  ignores the headers.
\<close>

lemma client_cmd_bad_header:
  assumes "getHeader header = Panic"
  shows "client_cmd (Some s) uri method body header = Panic \<longleftrightarrow> s \<in> {''http'', ''https'', ''ws'', ''wss''}"
    "client_cmd (Some ''tcp'') uri method body header = Done CmdConnect"
  using assms by (auto simp: client_cmd_def client_cmd_request_def)

end
