(* ===== verification/WebsocketFrames.thy ===== *)
theory WebsocketFrames
  imports Protocol Framing
begin

text \<open>
  \<open>websocket.go\<close>: the messages of a web socket on a channel.  A message is a byte with its type and
  then chunks, each a byte that says whether it is the last, two bytes with the size, and the
  data.  The writer and the reader are state passing functions over the bytes that the channel
  took and the bytes that are still to arrive on it.
\<close>

section \<open>The writer\<close>

record websocket_writer =
  ww_t :: byte
  ww_closed :: bool
  ww_writerd :: bool
  ww_err :: "gerr option"
  ww_out :: bytes

text \<open>The message types of the web socket library: text, binary, close, ping and pong.\<close>

definition ws_type_ok :: "int \<Rightarrow> bool" where
  "ws_type_ok t \<longleftrightarrow> t \<in> {1, 2, 8, 9, 10}"

definition NextWriter :: "int \<Rightarrow> gerr + websocket_writer" where
  "NextWriter t =
     (if ws_type_ok t
      then Inr \<lparr>ww_t = word_of_int t, ww_closed = False, ww_writerd = False, ww_err = None, ww_out = []\<rparr>
      else Inl (ErrText (''unknow websocekt message type: ''
                  @ (if t < 0 then ''-'' @ Itoa (nat (- t)) else Itoa (nat t)))))"

text \<open>A write on the channel; \<open>cw\<close> is its error after the bytes written so far, if it fails.\<close>

definition conn_write ::
    "(bytes \<Rightarrow> gerr option) \<Rightarrow> websocket_writer \<Rightarrow> bytes \<Rightarrow> websocket_writer \<times> gerr option" where
  "conn_write cw w data =
     (case cw (ww_out w) of
        Some e \<Rightarrow> (w, Some e)
      | None \<Rightarrow> (w\<lparr>ww_out := ww_out w @ data\<rparr>, None))"

definition checked_write ::
    "(bytes \<Rightarrow> gerr option) \<Rightarrow> websocket_writer \<Rightarrow> bytes \<Rightarrow> websocket_writer \<times> gerr option" where
  "checked_write cw w data =
     (case conn_write cw w data of
        (w, Some e) \<Rightarrow> (w\<lparr>ww_err := Some e\<rparr>, Some e)
      | (w, None) \<Rightarrow> (w, None))"

function ww_chunks ::
    "(bytes \<Rightarrow> gerr option) \<Rightarrow> websocket_writer \<Rightarrow> nat \<Rightarrow> bytes \<Rightarrow> websocket_writer \<times> nat \<times> gerr option" where
  "ww_chunks cw w n b =
     (if b = [] then (w, n, None)
      else
        let sz = min (length b) 65535 in
        case checked_write cw w ([0] @ PutUint16 (of_nat sz)) of
          (w, Some e) \<Rightarrow> (w, n, Some e)
        | (w, None) \<Rightarrow>
            (case checked_write cw w (take sz b) of
               (w, Some e) \<Rightarrow> (w, n, Some e)
             | (w, None) \<Rightarrow> ww_chunks cw w (n + sz) (drop sz b)))"
  by pat_completeness auto
termination by (relation "measure (\<lambda>(cw, w, n, b). length b)") auto

declare ww_chunks.simps [simp del]

definition ww_Write ::
    "(bytes \<Rightarrow> gerr option) \<Rightarrow> websocket_writer \<Rightarrow> bytes \<Rightarrow> websocket_writer \<times> nat \<times> gerr option" where
  "ww_Write cw w b =
     (case ww_err w of
        Some e \<Rightarrow> (w, 0, Some e)
      | None \<Rightarrow>
          (case (if ww_writerd w then (w, None)
                 else case checked_write cw w [ww_t w] of
                        (w, Some e) \<Rightarrow> (w, Some e)
                      | (w, None) \<Rightarrow> (w\<lparr>ww_writerd := True\<rparr>, None)) of
             (w, Some e) \<Rightarrow> (w, 0, Some e)
           | (w, None) \<Rightarrow> ww_chunks cw w 0 b))"

text \<open>\<open>Close\<close> ignores the error of its write.\<close>

definition ww_Close :: "(bytes \<Rightarrow> gerr option) \<Rightarrow> websocket_writer \<Rightarrow> websocket_writer \<times> gerr option" where
  "ww_Close cw w =
     (if ww_closed w then (w\<lparr>ww_err := Some ErrWriterClosed\<rparr>, Some ErrWriterClosed)
      else (fst (conn_write cw (w\<lparr>ww_closed := True\<rparr>) ([1] @ PutUint16 0)), None))"

text \<open>\<open>WriteMessage\<close>; \<open>WriteText\<close> and \<open>Write\<close> have a fixed type.  The result is what reached the channel.\<close>

definition WriteMessage :: "(bytes \<Rightarrow> gerr option) \<Rightarrow> int \<Rightarrow> bytes \<Rightarrow> bytes \<times> nat \<times> gerr option" where
  "WriteMessage cw t b =
     (case NextWriter t of
        Inl e \<Rightarrow> ([], 0, Some e)
      | Inr dst \<Rightarrow>
          (case ww_Write cw dst b of
             (dst, n, Some e) \<Rightarrow> (ww_out dst, n, Some e)
           | (dst, n, None) \<Rightarrow> (case ww_Close cw dst of (dst, e) \<Rightarrow> (ww_out dst, n, e))))"

definition WriteText :: "(bytes \<Rightarrow> gerr option) \<Rightarrow> string \<Rightarrow> bytes \<times> nat \<times> gerr option" where
  "WriteText cw s = WriteMessage cw 1 (StringToBytes s)"

definition WriteBinary :: "(bytes \<Rightarrow> gerr option) \<Rightarrow> bytes \<Rightarrow> bytes \<times> nat \<times> gerr option" where
  "WriteBinary cw b = WriteMessage cw 2 b"

definition WriteJSON :: "(bytes \<Rightarrow> gerr option) \<Rightarrow> ('o \<Rightarrow> gerr + bytes) \<Rightarrow> 'o \<Rightarrow> bytes \<times> gerr option" where
  "WriteJSON cw encode obj =
     (case encode obj of
        Inl e \<Rightarrow> ([], Some e)
      | Inr b \<Rightarrow> (case WriteMessage cw 1 b of (out, n, e) \<Rightarrow> (out, e)))"

section \<open>The reader\<close>

text \<open>
  \<open>wr_r\<close> is what is left of the limit of the current chunk, if there is one, and \<open>wr_b\<close> the
  three bytes in front of it.
\<close>

record websocket_reader =
  wr_in :: bytes
  wr_r :: "nat option"
  wr_b :: bytes
  wr_err :: "gerr option"

text \<open>\<open>NextReader\<close>: the type and the reader.\<close>

definition NextReader :: "bytes \<Rightarrow> (gerr + nat \<times> websocket_reader)" where
  "NextReader inp =
     (case ReadFull 4 inp of
        (_, Some e, _) \<Rightarrow> Inl e
      | (b, None, r) \<Rightarrow>
          Inr (unat (hd b),
               \<lparr>wr_in = r, wr_r = Some (unat (Uint16 (drop 2 b))), wr_b = drop 1 b, wr_err = None\<rparr>))"

text \<open>
  A read of at most \<open>k\<close> bytes through \<open>io.LimitReader\<close> when \<open>Suc m\<close> bytes are ready on the channel; the
  channel ends with \<open>EOF\<close>.
\<close>

definition limit_read :: "nat \<Rightarrow> bytes \<Rightarrow> nat \<Rightarrow> nat \<Rightarrow> bytes \<times> gerr option" where
  "limit_read N inp k m =
     (if N = 0 \<or> inp = [] then ([], Some EOF) else (take (min (min k N) (Suc m)) inp, None))"

function wr_fill :: "websocket_reader \<Rightarrow> websocket_reader \<times> gerr option" where
  "wr_fill r =
     (if wr_r r \<noteq> None then (r, None)
      else
        case ReadFull 3 (wr_in r) of
          (_, Some e, s) \<Rightarrow> (r\<lparr>wr_in := s, wr_err := Some e\<rparr>, Some e)
        | (b, None, s) \<Rightarrow>
            let sz = unat (Uint16 (drop 1 b)) in
            if sz \<noteq> 0 then (r\<lparr>wr_in := s, wr_b := b, wr_r := Some sz\<rparr>, None)
            else if hd b \<noteq> 0 then (r\<lparr>wr_in := s, wr_b := b, wr_err := Some EOF\<rparr>, Some EOF)
            else wr_fill (r\<lparr>wr_in := s, wr_b := b\<rparr>))"
  by pat_completeness auto
termination
  by (relation "measure (\<lambda>r. length (wr_in r))") (auto dest!: ReadFull_SomeD [OF sym])

declare wr_fill.simps [simp del]

definition wr_read_chunk :: "websocket_reader \<Rightarrow> nat \<Rightarrow> nat \<Rightarrow> websocket_reader \<times> bytes \<times> gerr option" where
  "wr_read_chunk r k m =
     (case limit_read (the (wr_r r)) (wr_in r) k m of
        (d, None) \<Rightarrow>
          (r\<lparr>wr_in := drop (length d) (wr_in r), wr_r := Some (the (wr_r r) - length d)\<rparr>, d, None)
      | (d, Some e) \<Rightarrow>
          if e \<noteq> EOF \<or> hd (wr_b r) \<noteq> 0 then (r\<lparr>wr_err := Some e\<rparr>, d, Some e)
          else (r\<lparr>wr_r := None\<rparr>, d, None))"

text \<open>A reader that has failed or has come to its end returns nothing, without an error.\<close>

definition wr_Read :: "websocket_reader \<Rightarrow> nat \<Rightarrow> nat \<Rightarrow> websocket_reader \<times> bytes \<times> gerr option" where
  "wr_Read r k m =
     (if wr_err r \<noteq> None then (r, [], None)
      else
        case wr_fill r of
          (r, Some e) \<Rightarrow> (r, [], Some e)
        | (r, None) \<Rightarrow> wr_read_chunk r k m)"

text \<open>
  \<open>io.ReadAll\<close>: it reads until an error, always with room for a byte; \<open>sched\<close> gives for each read
  the room beyond the first byte and what is ready beyond the first byte.
\<close>

partial_function (option) wr_ReadAll ::
    "(nat \<Rightarrow> nat \<times> nat) \<Rightarrow> nat \<Rightarrow> websocket_reader \<Rightarrow> (websocket_reader \<times> bytes \<times> gerr option) option" where
  "wr_ReadAll sched i r =
     (case wr_Read r (Suc (fst (sched i))) (snd (sched i)) of
        (r, d, Some e) \<Rightarrow> Some (r, d, if e = EOF then None else Some e)
      | (r, d, None) \<Rightarrow>
          Option.bind (wr_ReadAll sched (Suc i) r) (\<lambda>(r, d', e). Some (r, d @ d', e)))"

text \<open>\<open>ReadMessage\<close>: the type, the data and the error, with what is left on the channel.\<close>

definition ReadMessage ::
    "(nat \<Rightarrow> nat \<times> nat) \<Rightarrow> bytes \<Rightarrow> (gerr + nat \<times> bytes \<times> gerr option \<times> bytes) option" where
  "ReadMessage sched inp =
     (case NextReader inp of
        Inl e \<Rightarrow> Some (Inl e)
      | Inr (t, r) \<Rightarrow>
          Option.bind (wr_ReadAll sched 0 r) (\<lambda>(r, d, e). Some (Inr (t, d, e, wr_in r))))"

section \<open>Frames\<close>

text \<open>One chunk on the wire, and the chunks that make up the rest of a message.\<close>

definition ws_frame :: "bool \<Rightarrow> bytes \<Rightarrow> bytes" where
  "ws_frame fin d = [if fin then 1 else 0] @ PutUint16 (of_nat (length d)) @ d"

fun ws_tail :: "(bool \<times> bytes) list \<Rightarrow> bool" where
  "ws_tail [] = False"
| "ws_tail [(fin, d)] = (fin \<and> length d \<le> 65535)"
| "ws_tail ((fin, d) # f # fs) = (\<not> fin \<and> length d \<le> 65535 \<and> ws_tail (f # fs))"

definition ws_bytes :: "(bool \<times> bytes) list \<Rightarrow> bytes" where
  "ws_bytes fs = concat (map (\<lambda>(fin, d). ws_frame fin d) fs)"

definition ws_data :: "(bool \<times> bytes) list \<Rightarrow> bytes" where
  "ws_data fs = concat (map snd fs)"

lemma ws_bytes_simps [simp]:
  "ws_bytes [] = []" "ws_bytes ((fin, d) # fs) = ws_frame fin d @ ws_bytes fs"
  "ws_data [] = []" "ws_data ((fin, d) # fs) = d @ ws_data fs"
  "ws_bytes (fs @ gs) = ws_bytes fs @ ws_bytes gs" "ws_data (fs @ gs) = ws_data fs @ ws_data gs"
  by (simp_all add: ws_bytes_def ws_data_def)

lemma unat_u16: "n \<le> 65535 \<Longrightarrow> unat (of_nat n :: 16 word) = n"
  by (rule unat_of_nat_le) simp

lemma ws_frame_read:
  assumes "length d \<le> 65535"
  obtains b where "ReadFull 3 (ws_frame fin d @ s) = (b, None, d @ s)"
    "(hd b \<noteq> 0) = fin" "unat (Uint16 (drop 1 b)) = length d"
proof
  let ?b = "[if fin then 1 else 0] @ PutUint16 (of_nat (length d))"
  show "ReadFull 3 (ws_frame fin d @ s) = (?b, None, d @ s)"
    using ReadFull_append [of ?b 3 "d @ s"] by (simp add: ws_frame_def)
  show "(hd ?b \<noteq> 0) = fin" by simp
  show "unat (Uint16 (drop 1 ?b)) = length d" using assms by (simp add: unat_u16)
qed

section \<open>What the writer writes\<close>

lemma ww_chunks_frames:
  "\<exists>fs. (\<forall>f \<in> set fs. \<not> fst f \<and> length (snd f) \<le> 65535) \<and> ws_data fs = b
     \<and> ww_chunks (\<lambda>_. None) w n b = (w\<lparr>ww_out := ww_out w @ ws_bytes fs\<rparr>, n + length b, None)"
proof (induction b arbitrary: w n rule: length_induct)
  case (1 b)
  show ?case
  proof (cases "b = []")
    case True
    then show ?thesis by (intro exI [of _ "[]"]) (simp add: ww_chunks.simps)
  next
    case False
    let ?c = "take 65535 b"
    let ?w = "w\<lparr>ww_out := (ww_out w @ [0] @ PutUint16 (of_nat (min (length b) 65535))) @ ?c\<rparr>"
    have c: "checked_write (\<lambda>_. None) v x = (v\<lparr>ww_out := ww_out v @ x\<rparr>, None)" for v x
      by (simp add: checked_write_def conn_write_def)
    have t: "take (min (length b) 65535) b = ?c" "drop (min (length b) 65535) b = drop 65535 b"
      by (auto simp: min_def)
    have "length (drop 65535 b) < length b" using False by (cases b) auto
    then obtain fs where fs: "\<forall>f \<in> set fs. \<not> fst f \<and> length (snd f) \<le> 65535" "ws_data fs = drop 65535 b"
      "ww_chunks (\<lambda>_. None) ?w (n + min (length b) 65535) (drop 65535 b)
        = (?w\<lparr>ww_out := ww_out ?w @ ws_bytes fs\<rparr>, n + min (length b) 65535 + length (drop 65535 b), None)"
      using 1 by blast
    have "ww_chunks (\<lambda>_. None) w n b = ww_chunks (\<lambda>_. None) ?w (n + min (length b) 65535) (drop 65535 b)"
      using False by (subst ww_chunks.simps) (simp add: c Let_def t)
    also have "\<dots> = (w\<lparr>ww_out := ww_out w @ ws_bytes ((False, ?c) # fs)\<rparr>, n + length b, None)"
      unfolding fs(3) by (auto simp: ws_frame_def min_def)
    finally show ?thesis using fs(1,2) by (intro exI [of _ "(False, ?c) # fs"]) simp
  qed
qed

fun ww_writes :: "websocket_writer \<Rightarrow> bytes list \<Rightarrow> websocket_writer" where
  "ww_writes w [] = w"
| "ww_writes w (b # bs) = ww_writes (fst (ww_Write (\<lambda>_. None) w b)) bs"

lemma ww_Write_frames:
  assumes "ww_err w = None"
  shows "\<exists>fs w'. ww_Write (\<lambda>_. None) w b = (w', length b, None) \<and> ww_err w' = None \<and> ww_writerd w'
    \<and> ww_t w' = ww_t w \<and> ww_closed w' = ww_closed w
    \<and> (\<forall>f \<in> set fs. \<not> fst f \<and> length (snd f) \<le> 65535) \<and> ws_data fs = b
    \<and> ww_out w' = ww_out w @ (if ww_writerd w then [] else [ww_t w]) @ ws_bytes fs"
proof (cases "ww_writerd w")
  case True
  then show ?thesis using assms ww_chunks_frames [of b w 0] by (fastforce simp: ww_Write_def)
next
  case False
  let ?w = "w\<lparr>ww_out := ww_out w @ [ww_t w], ww_writerd := True\<rparr>"
  have "ww_Write (\<lambda>_. None) w b = ww_chunks (\<lambda>_. None) ?w 0 b"
    using assms False by (simp add: ww_Write_def checked_write_def conn_write_def)
  then show ?thesis using assms False ww_chunks_frames [of b ?w 0] by fastforce
qed

lemma ww_writes_frames:
  assumes "ww_err w = None"
  shows "\<exists>fs. (\<forall>f \<in> set fs. \<not> fst f \<and> length (snd f) \<le> 65535) \<and> ws_data fs = concat bs
    \<and> ww_err (ww_writes w bs) = None \<and> ww_closed (ww_writes w bs) = ww_closed w
    \<and> ww_out (ww_writes w bs)
      = ww_out w @ (if ww_writerd w \<or> bs = [] then [] else [ww_t w]) @ ws_bytes fs"
  using assms
proof (induction bs arbitrary: w)
  case Nil
  then show ?case by (intro exI [of _ "[]"]) simp
next
  case (Cons b bs)
  obtain fs w' where w': "ww_Write (\<lambda>_. None) w b = (w', length b, None)" "ww_err w' = None" "ww_writerd w'"
    "ww_closed w' = ww_closed w" "\<forall>f \<in> set fs. \<not> fst f \<and> length (snd f) \<le> 65535" "ws_data fs = b"
    "ww_out w' = ww_out w @ (if ww_writerd w then [] else [ww_t w]) @ ws_bytes fs"
    using ww_Write_frames [OF Cons.prems, of b] by blast
  obtain gs where gs: "\<forall>f \<in> set gs. \<not> fst f \<and> length (snd f) \<le> 65535" "ws_data gs = concat bs"
    "ww_err (ww_writes w' bs) = None" "ww_closed (ww_writes w' bs) = ww_closed w'"
    "ww_out (ww_writes w' bs) = ww_out w' @ ws_bytes gs"
    using Cons.IH [OF w'(2)] w'(3) by auto
  show ?case
    using w' gs by (intro exI [of _ "fs @ gs"]) auto
qed

lemma ws_tail_close:
  "\<forall>f \<in> set fs. \<not> fst f \<and> length (snd f) \<le> 65535 \<Longrightarrow> ws_tail (fs @ [(True, [])])"
proof (induction fs)
  case (Cons f fs)
  then show ?case by (cases "fs @ [(True, [])]"; cases f) auto
qed simp

section \<open>Reading a message\<close>

definition wr_rep :: "websocket_reader \<Rightarrow> bytes \<Rightarrow> bytes \<Rightarrow> bool" where
  "wr_rep r d s \<longleftrightarrow> wr_err r = None \<and>
     (case wr_r r of
        None \<Rightarrow> \<exists>fs. wr_in r = ws_bytes fs @ s \<and> ws_tail fs \<and> d = ws_data fs
      | Some N \<Rightarrow> \<exists>c fs. wr_in r = c @ ws_bytes fs @ s \<and> length c = N \<and> d = c @ ws_data fs
          \<and> (if hd (wr_b r) \<noteq> 0 then fs = [] else ws_tail fs))"

definition wr_left :: "websocket_reader \<Rightarrow> nat" where
  "wr_left r = length (wr_in r) + (case wr_r r of None \<Rightarrow> 0 | Some _ \<Rightarrow> 1)"

lemma ws_tail_ConsE:
  assumes "ws_tail ((fin, d) # fs)"
  obtains "length d \<le> 65535" "if fin then fs = [] else ws_tail fs"
  using assms by (cases fs) auto

lemma wr_fill_rep:
  assumes "wr_err r = None" "wr_r r = None" "wr_in r = ws_bytes fs @ s" "ws_tail fs"
  obtains r' where "wr_fill r = (r', None)" "wr_rep r' (ws_data fs) s" "wr_r r' \<noteq> None" "wr_left r' \<le> wr_left r"
  | r' where "wr_fill r = (r', Some EOF)" "ws_data fs = []" "wr_in r' = s"
  using assms
proof (induction fs arbitrary: r thesis)
  case (Cons f fs)
  obtain fin d where f: "f = (fin, d)" by (cases f)
  obtain tl: "length d \<le> 65535" "if fin then fs = [] else ws_tail fs"
    using Cons.prems(6) ws_tail_ConsE f by blast
  obtain b where b: "ReadFull 3 (ws_frame fin d @ ws_bytes fs @ s) = (b, None, d @ ws_bytes fs @ s)"
    "(hd b \<noteq> 0) = fin" "unat (Uint16 (drop 1 b)) = length d"
    using ws_frame_read [OF tl(1)] by metis
  have len: "length (wr_in r) = 3 + length (d @ ws_bytes fs @ s)"
    using Cons.prems(5) f by (simp add: ws_frame_def)
  let ?r = "r\<lparr>wr_in := d @ ws_bytes fs @ s, wr_b := b\<rparr>"
  show ?case
  proof (cases "d = []")
    case False
    then have "wr_fill r = (?r\<lparr>wr_r := Some (length d)\<rparr>, None)"
      using Cons.prems(4,5) f b by (subst wr_fill.simps) (simp add: Let_def)
    moreover have "wr_rep (?r\<lparr>wr_r := Some (length d)\<rparr>) (ws_data (f # fs)) s"
      using Cons.prems(3) f b(2) tl(2) by (auto simp: wr_rep_def split: if_splits)
    ultimately show ?thesis using Cons.prems(1,4) len by (simp add: wr_left_def)
  next
    case d: True
    show ?thesis
    proof (cases fin)
      case True
      then have "wr_fill r = (?r\<lparr>wr_err := Some EOF\<rparr>, Some EOF)"
        using Cons.prems(4,5) f b d by (subst wr_fill.simps) (simp add: Let_def)
      then show ?thesis using Cons.prems(2) tl(2) True f d by simp
    next
      case False
      have e: "wr_fill r = wr_fill ?r"
        using Cons.prems(4,5) f b d False by (subst wr_fill.simps) (simp add: Let_def)
      have l: "wr_left ?r \<le> wr_left r" using len Cons.prems(4) d by (simp add: wr_left_def)
      have t: "ws_tail fs" using tl(2) False by simp
      show ?thesis
      proof (rule Cons.IH [of ?r])
        fix r' assume "wr_fill ?r = (r', None)" "wr_rep r' (ws_data fs) s" "wr_r r' \<noteq> None" "wr_left r' \<le> wr_left ?r"
        then show thesis using Cons.prems(1) e l f d by auto
      next
        fix r' assume "wr_fill ?r = (r', Some EOF)" "ws_data fs = []" "wr_in r' = s"
        then show thesis using Cons.prems(2) e f d by auto
      qed (use Cons.prems t d in simp_all)
    qed
  qed
qed simp

lemma wr_repI:
  "wr_err r = None \<Longrightarrow> wr_r r = Some (length c) \<Longrightarrow> wr_in r = c @ ws_bytes fs @ s \<Longrightarrow>
    (if hd (wr_b r) \<noteq> 0 then fs = [] else ws_tail fs) \<Longrightarrow> wr_rep r (c @ ws_data fs) s"
  unfolding wr_rep_def by (simp only: option.case) blast

lemma wr_read_chunk_rep:
  assumes "wr_rep r d s" "wr_r r = Some N"
  obtains r' out d' where "wr_read_chunk r (Suc k) m = (r', out, None)" "d = out @ d'" "wr_rep r' d' s"
      "wr_left r' < wr_left r"
    | r' where "wr_read_chunk r (Suc k) m = (r', [], Some EOF)" "d = []" "wr_in r' = s"
proof -
  obtain c fs where c: "wr_err r = None" "wr_in r = c @ ws_bytes fs @ s" "length c = N" "d = c @ ws_data fs"
    "if hd (wr_b r) \<noteq> 0 then fs = [] else ws_tail fs"
    using assms by (auto simp: wr_rep_def)
  show thesis
  proof (cases "N = 0")
    case N: True
    show thesis
    proof (cases "hd (wr_b r) \<noteq> 0")
      case True
      then show thesis using that(2) [of "r\<lparr>wr_err := Some EOF\<rparr>"] N c assms(2)
        by (simp add: wr_read_chunk_def limit_read_def)
    next
      case False
      have "wr_rep (r\<lparr>wr_r := None\<rparr>) d s" using False N c by (auto simp: wr_rep_def)
      moreover have "wr_left (r\<lparr>wr_r := None\<rparr>) < wr_left r" using assms(2) by (simp add: wr_left_def)
      ultimately show thesis using that(1) [of "r\<lparr>wr_r := None\<rparr>" "[]" d] False N assms(2)
        by (simp add: wr_read_chunk_def limit_read_def)
    qed
  next
    case False
    define n where "n = min (min (Suc k) N) (Suc m)"
    let ?r = "r\<lparr>wr_in := drop n (wr_in r), wr_r := Some (N - n)\<rparr>"
    have n: "0 < n" "n \<le> length c" using c(3) False by (auto simp: n_def)
    have ne: "wr_in r \<noteq> []" using c(2) n by auto
    have "wr_read_chunk r (Suc k) m = (?r, take n c, None)"
    proof -
      have "limit_read N (wr_in r) (Suc k) m = (take n c, None)"
        using False ne n c(2) by (auto simp: limit_read_def simp flip: n_def)
      then show ?thesis using assms(2) n c(3) by (simp add: wr_read_chunk_def min_def)
    qed
    moreover have "wr_rep ?r (drop n c @ ws_data fs) s"
      using n c by (intro wr_repI) simp_all
    moreover have "wr_left ?r < wr_left r" using n ne assms(2) by (simp add: wr_left_def)
    moreover have "d = take n c @ drop n c @ ws_data fs" using c(4) by simp
    ultimately show thesis using that(1) by blast
  qed
qed

lemma wr_Read_rep:
  assumes "wr_rep r d s"
  obtains r' out d' where "wr_Read r (Suc k) m = (r', out, None)" "d = out @ d'" "wr_rep r' d' s"
      "wr_left r' < wr_left r"
    | r' where "wr_Read r (Suc k) m = (r', [], Some EOF)" "d = []" "wr_in r' = s"
proof (cases "wr_r r")
  case (Some N)
  have "wr_Read r (Suc k) m = wr_read_chunk r (Suc k) m"
    using Some assms by (simp add: wr_Read_def wr_fill.simps wr_rep_def)
  then show thesis using wr_read_chunk_rep [OF assms Some, of k m] that by metis
next
  case None
  then obtain fs where fs: "wr_err r = None" "wr_in r = ws_bytes fs @ s" "ws_tail fs" "d = ws_data fs"
    using assms by (auto simp: wr_rep_def)
  show thesis
  proof (rule wr_fill_rep [OF fs(1) None fs(2,3)])
    fix r' assume r': "wr_fill r = (r', None)" "wr_rep r' (ws_data fs) s" "wr_r r' \<noteq> None" "wr_left r' \<le> wr_left r"
    obtain N where N: "wr_r r' = Some N" using r'(3) by auto
    have e: "wr_Read r (Suc k) m = wr_read_chunk r' (Suc k) m" using r'(1) fs(1) by (simp add: wr_Read_def)
    show thesis
      by (rule wr_read_chunk_rep [OF r'(2) N, of k m]) (use that e r'(4) fs(4) in auto)
  next
    fix r' assume "wr_fill r = (r', Some EOF)" "ws_data fs = []" "wr_in r' = s"
    then show thesis using that(2) fs by (simp add: wr_Read_def)
  qed
qed

lemma wr_ReadAll_rep:
  assumes "wr_rep r d s"
  shows "\<exists>r'. wr_ReadAll sched i r = Some (r', d, None) \<and> wr_in r' = s"
  using assms
proof (induction "wr_left r" arbitrary: r d i rule: less_induct)
  case less
  show ?case
  proof (rule wr_Read_rep [OF less.prems, of "fst (sched i)" "snd (sched i)"])
    fix r' out d'
    assume r: "wr_Read r (Suc (fst (sched i))) (snd (sched i)) = (r', out, None)"
      and d: "d = out @ d'" "wr_rep r' d' s" "wr_left r' < wr_left r"
    obtain r'' where "wr_ReadAll sched (Suc i) r' = Some (r'', d', None)" "wr_in r'' = s"
      using less.hyps [OF d(3,2)] by blast
    then show ?thesis using r d(1) by (subst wr_ReadAll.simps) simp
  next
    fix r' assume "wr_Read r (Suc (fst (sched i))) (snd (sched i)) = (r', [], Some EOF)" "d = []" "wr_in r' = s"
    then show ?thesis by (subst wr_ReadAll.simps) simp
  qed
qed

text \<open>Any message on the wire is read completely, and nothing behind it.\<close>

lemma ReadMessage_frames:
  assumes "ws_tail ((fin, d) # fs)"
  shows "ReadMessage sched (t # ws_bytes ((fin, d) # fs) @ s) = Some (Inr (unat t, d @ ws_data fs, None, s))"
proof -
  obtain tl: "length d \<le> 65535" "if fin then fs = [] else ws_tail fs"
    using assms ws_tail_ConsE by blast
  let ?h = "[t, if fin then 1 else 0] @ PutUint16 (of_nat (length d))"
  let ?r = "\<lparr>wr_in = d @ ws_bytes fs @ s, wr_r = Some (length d), wr_b = drop 1 ?h, wr_err = None\<rparr>"
  have "ReadFull 4 (?h @ d @ ws_bytes fs @ s) = (?h, None, d @ ws_bytes fs @ s)"
    by (rule ReadFull_append) simp
  then have "NextReader (t # ws_bytes ((fin, d) # fs) @ s) = Inr (unat t, ?r)"
    using tl(1) by (simp add: NextReader_def ws_frame_def unat_u16)
  moreover have "wr_rep ?r (d @ ws_data fs) s"
    using tl(2) by (intro wr_repI) auto
  then obtain r' where "wr_ReadAll sched 0 ?r = Some (r', d @ ws_data fs, None)" "wr_in r' = s"
    using wr_ReadAll_rep by blast
  ultimately show ?thesis by (simp add: ReadMessage_def)
qed

text \<open>The bytes of a message that the client writes in the pieces \<open>bs\<close>.\<close>

definition ws_sent :: "int \<Rightarrow> bytes list \<Rightarrow> bytes" where
  "ws_sent t bs =
     (case NextWriter t of
        Inl e \<Rightarrow> []
      | Inr w \<Rightarrow> ww_out (fst (ww_Close (\<lambda>_. None) (ww_writes w bs))))"

lemma ws_sent_frames:
  assumes "ws_type_ok t" "bs \<noteq> []"
  obtains fs where "ws_tail fs" "ws_data fs = concat bs" "ws_sent t bs = word_of_int t # ws_bytes fs"
    "unat (word_of_int t :: byte) = nat t"
proof -
  let ?w = "\<lparr>ww_t = word_of_int t, ww_closed = False, ww_writerd = False, ww_err = None, ww_out = []\<rparr>"
  have n: "NextWriter t = Inr ?w" using assms(1) by (simp add: NextWriter_def)
  obtain fs where fs: "\<forall>f \<in> set fs. \<not> fst f \<and> length (snd f) \<le> 65535" "ws_data fs = concat bs"
    "ww_closed (ww_writes ?w bs) = False" "ww_out (ww_writes ?w bs) = word_of_int t # ws_bytes fs"
    using ww_writes_frames [of ?w bs] assms(2) by auto
  have "ws_sent t bs = word_of_int t # ws_bytes (fs @ [(True, [])])"
    using fs n by (simp add: ws_sent_def ww_Close_def conn_write_def ws_frame_def)
  moreover have "unat (word_of_int t :: byte) = nat t"
    using assms(1) by (auto simp: ws_type_ok_def)
  ultimately show thesis using that ws_tail_close [OF fs(1)] fs(2) by simp
qed

text \<open>A message as it is sent, and what \<open>ReadMessage\<close> finds at the head of a stream.\<close>

definition ws_ok :: "int \<times> bytes list \<Rightarrow> bool" where
  "ws_ok m \<longleftrightarrow> ws_type_ok (fst m) \<and> snd m \<noteq> []"

definition ws_meaning :: "int \<times> bytes list \<Rightarrow> nat \<times> bytes" where
  "ws_meaning m = (nat (fst m), concat (snd m))"

abbreviation ws_enc :: "int \<times> bytes list \<Rightarrow> bytes" where
  "ws_enc m \<equiv> ws_sent (fst m) (snd m)"

definition ws_dec :: "(nat \<Rightarrow> nat \<times> nat) \<Rightarrow> bytes \<Rightarrow> ((nat \<times> bytes) \<times> bytes) option" where
  "ws_dec sched inp =
     (case ReadMessage sched inp of Some (Inr (t, d, None, r)) \<Rightarrow> Some ((t, d), r) | _ \<Rightarrow> None)"

lemma ReadMessage_sent:
  assumes "ws_ok m"
  shows "ReadMessage sched (ws_enc m @ s) = Some (Inr (nat (fst m), concat (snd m), None, s))"
proof -
  obtain fs where fs: "ws_tail fs" "ws_data fs = concat (snd m)"
    "ws_enc m = word_of_int (fst m) # ws_bytes fs" "unat (word_of_int (fst m) :: byte) = nat (fst m)"
    using assms ws_sent_frames [of "fst m" "snd m"] by (auto simp: ws_ok_def)
  then obtain fin d gs where g: "fs = (fin, d) # gs" by (cases fs) auto
  show ?thesis using ReadMessage_frames [OF fs(1) [unfolded g], of sched "word_of_int (fst m)" s] fs g by simp
qed

interpretation wsm: stream_codec ws_ok ws_enc "ws_dec sched" ws_meaning for sched
  by unfold_locales (simp add: ws_dec_def ReadMessage_sent ws_meaning_def)

section \<open>Messages from one end to the other\<close>

text \<open>
  C25: messages written in any number of pieces, at least one each, are read back one by one with their
  types and all their data, whatever sizes the reads have; each read ends, and what follows the
  messages is left.
\<close>

theorem ws_messages_roundtrip:
  assumes "\<forall>(t, bs) \<in> set msgs. ws_type_ok t \<and> bs \<noteq> []"
  shows "dec_all (ws_dec sched) (length msgs) (concat (map (\<lambda>(t, bs). ws_sent t bs) msgs) @ rest)
    = Some (map (\<lambda>(t, bs). (nat t, concat bs)) msgs, rest)"
proof -
  have "\<forall>m \<in> set msgs. ws_ok m" using assms by (auto simp: ws_ok_def)
  from wsm.dec_enc_all [OF this] show ?thesis by (simp add: ws_meaning_def case_prod_unfold)
qed

theorem ws_messages_roundtrip_witness:
  "dec_all (ws_dec (\<lambda>_. (0, 2))) 2 (ws_sent 2 [[7, 8], [], [9]] @ ws_sent 1 [[]] @ [42])
   = Some ([(2, [7, 8, 9]), (1, [])], [42])"
  using ws_messages_roundtrip [of "[(2, [[7, 8], [], [9]]), (1, [[]])]" "\<lambda>_. (0, 2)" "[42]"]
  by (simp add: ws_type_ok_def numeral_2_eq_2 del: dec_all.simps)

lemma WriteMessage_writes:
  "NextWriter t = Inr w \<Longrightarrow>
    fst (WriteMessage (\<lambda>_. None) t b) = ww_out (fst (ww_Close (\<lambda>_. None) (ww_writes w [b])))"
proof -
  assume n: "NextWriter t = Inr w"
  then have "ww_err w = None" by (auto simp: NextWriter_def split: if_splits)
  from ww_Write_frames [OF this, of b] n show ?thesis
    by (auto simp: WriteMessage_def split: prod.splits)
qed

text \<open>
  A writer that is closed before anything is written sends only the closing frame, without the
  type: the peer takes it for the head of a text message that is as long as the type
  byte of the next message says.
\<close>

theorem ws_empty_close_desyncs:
  assumes "NextWriter t = Inr w"
  shows "ww_out (fst (ww_Close (\<lambda>_. None) w)) = [1, 0, 0]
    \<and> NextReader (ww_out (fst (ww_Close (\<lambda>_. None) w)) @ x # rest)
      = Inr (1, \<lparr>wr_in = rest, wr_r = Some (unat x), wr_b = [0, 0, x], wr_err = None\<rparr>)"
proof -
  have out: "ww_out (fst (ww_Close (\<lambda>_. None) w)) = [1, 0, 0]"
    using assms by (auto simp: NextWriter_def ww_Close_def conn_write_def PutUint16_bytes split: if_splits)
  have "ReadFull 4 ([1, 0, 0] @ x # rest) = ([1, 0, 0, x], None, rest)"
    using ReadFull_append [of "[1, 0, 0, x]" 4 rest] by simp
  moreover have "unat x < 65536" by (rule less_trans [OF unat_byte_less]) simp
  then have "unat (Uint16 [0, x]) = be_dec [0, x]"
    unfolding Uint16_def by (subst unat_of_nat_le) (simp_all add: be_dec_def)
  then have "unat (Uint16 [0, x]) = unat x" by (simp add: be_dec_def)
  ultimately show ?thesis using out by (simp add: NextReader_def)
qed

theorem ws_empty_close_desyncs_witness:
  "NextReader (ww_out (fst (ww_Close (\<lambda>_. None)
      \<lparr>ww_t = 2, ww_closed = False, ww_writerd = False, ww_err = None, ww_out = []\<rparr>)) @ 2 # [0, 0, 1])
    = Inr (1, \<lparr>wr_in = [0, 0, 1], wr_r = Some 2, wr_b = [0, 0, 2], wr_err = None\<rparr>)"
proof -
  let ?w = "\<lparr>ww_t = 2, ww_closed = False, ww_writerd = False, ww_err = None, ww_out = []\<rparr>"
  have "NextWriter 2 = Inr ?w" by (simp add: NextWriter_def ws_type_ok_def)
  moreover have "unat (2 :: byte) = 2" by simp
  ultimately show ?thesis using conjunct2 [OF ws_empty_close_desyncs [of 2 ?w 2 "[0, 0, 1]"]] by metis
qed

lemma wr_ReadAll_cut:
  assumes "wr_err r = None" "wr_r r = Some N" "hd (wr_b r) = 0" "length (wr_in r) \<le> N"
  shows "\<exists>r'. wr_ReadAll sched i r = Some (r', wr_in r, None) \<and> wr_in r' = []"
  using assms
proof (induction "length (wr_in r)" arbitrary: r N i rule: less_induct)
  case less
  show ?case
  proof (cases "wr_in r = []")
    case True
    let ?r = "r\<lparr>wr_r := None\<rparr>"
    have 1: "wr_Read r (Suc k) m = (?r, [], None)" for k m
      using less.prems True by (simp add: wr_Read_def wr_fill.simps wr_read_chunk_def limit_read_def)
    have 2: "wr_Read ?r (Suc k) m = (?r\<lparr>wr_err := Some EOF\<rparr>, [], Some EOF)" for k m
      using less.prems True by (simp add: wr_Read_def wr_fill.simps ReadFull_def)
    have "wr_ReadAll sched (Suc i) ?r = Some (?r\<lparr>wr_err := Some EOF\<rparr>, [], None)"
      by (subst wr_ReadAll.simps) (simp add: 2)
    then show ?thesis using True by (subst wr_ReadAll.simps) (simp add: 1)
  next
    case False
    define n where "n = min (min (Suc (fst (sched i))) N) (Suc (snd (sched i)))"
    let ?r = "r\<lparr>wr_in := drop n (wr_in r), wr_r := Some (N - min (length (wr_in r)) n)\<rparr>"
    have N: "N \<noteq> 0" using False less.prems(4) by (cases "wr_in r") auto
    have n: "0 < n" using N by (simp add: n_def)
    have "limit_read N (wr_in r) (Suc (fst (sched i))) (snd (sched i)) = (take n (wr_in r), None)"
      using False N by (auto simp: limit_read_def simp flip: n_def)
    then have 1: "wr_Read r (Suc (fst (sched i))) (snd (sched i)) = (?r, take n (wr_in r), None)"
      using less.prems by (cases "n \<le> length (wr_in r)")
        (simp_all add: wr_Read_def wr_fill.simps wr_read_chunk_def min_def)
    have "\<exists>r'. wr_ReadAll sched (Suc i) ?r = Some (r', wr_in ?r, None) \<and> wr_in r' = []"
      using n False less.prems by (intro less.hyps [of ?r "N - min (length (wr_in r)) n"]) auto
    then obtain r' where "wr_ReadAll sched (Suc i) ?r = Some (r', drop n (wr_in r), None)" "wr_in r' = []"
      by auto
    then show ?thesis using 1 by (subst wr_ReadAll.simps) simp
  qed
qed

text \<open>
  A message that is cut off, after or inside a chunk that is not its last, is read
  without an error as if it were complete.
\<close>

theorem ws_truncation_unnoticed:
  assumes "length d \<le> n" "n \<le> 65535"
  shows "ReadMessage sched ([t, 0] @ PutUint16 (of_nat n) @ d) = Some (Inr (unat t, d, None, []))"
proof -
  let ?h = "[t, 0] @ PutUint16 (of_nat n)"
  let ?r = "\<lparr>wr_in = d, wr_r = Some n, wr_b = drop 1 ?h, wr_err = None\<rparr>"
  have "ReadFull 4 (?h @ d) = (?h, None, d)" by (rule ReadFull_append) simp
  then have "NextReader (?h @ d) = Inr (unat t, ?r)"
    using assms(2) by (simp add: NextReader_def unat_u16)
  moreover obtain r' where "wr_ReadAll sched 0 ?r = Some (r', d, None)" "wr_in r' = []"
    using wr_ReadAll_cut [of ?r n sched 0] assms(1) by auto
  ultimately show ?thesis by (simp add: ReadMessage_def)
qed

theorem ws_truncation_unnoticed_witness:
  "ReadMessage (\<lambda>_. (511, 0)) ([1, 0] @ PutUint16 (of_nat 1000) @ [72, 105]) = Some (Inr (1, [72, 105], None, []))"
  using ws_truncation_unnoticed [of "[72, 105]" 1000 "\<lambda>_. (511, 0)" 1] by simp

end
