(* ===== verification/WebsocketRelay.thy ===== *)
theory WebsocketRelay
  imports WebsocketFrames Relay
begin

text \<open>
  The two relays of a web socket tunnel in \<open>server_handler.go\<close>: \<open>readWS\<close> turns a message of the target
  into chunks on the channel, \<open>writeWS\<close> does the opposite, and \<open>websocket\<close> repeats them until one
  fails.  The web socket library is met through its calls only: the outcomes of \<open>NextReader\<close>, of the
  reads of a message, of \<open>NextWriter\<close> and of the writes are arguments.
\<close>

section \<open>From the target to the channel\<close>

text \<open>
  A message of the target: its type and what the reads of it return.  \<open>cw\<close> is the error of a write on
  the channel after what was written so far.  The result is what was written, whether the
  channel failed, and the error.
\<close>

definition chan_write :: "(bytes \<Rightarrow> gerr option) \<Rightarrow> bytes \<Rightarrow> bytes \<Rightarrow> bytes \<times> gerr option" where
  "chan_write cw out data =
     (case cw out of Some e \<Rightarrow> (out, Some e) | None \<Rightarrow> (out @ data, None))"

fun readWS_rest ::
    "(bytes \<Rightarrow> gerr option) \<Rightarrow> bytes \<Rightarrow> (bytes \<times> gerr option) list \<Rightarrow> bytes \<times> bool \<times> gerr option" where
  "readWS_rest cw out [] = (out, False, None)"
| "readWS_rest cw out ((d, Some e) # rs) =
     (if e = EOF then
        (case chan_write cw out ([1] @ PutUint16 (of_nat (length d)) @ d) of
           (out, Some e) \<Rightarrow> (out, True, Some e)
         | (out, None) \<Rightarrow> (out, False, None))
      else (out, False, Some e))"
| "readWS_rest cw out ((d, None) # rs) =
     (case chan_write cw out ([0] @ PutUint16 (of_nat (length d)) @ d) of
        (out, Some e) \<Rightarrow> (out, True, Some e)
      | (out, None) \<Rightarrow> readWS_rest cw out rs)"

definition readWS ::
    "(bytes \<Rightarrow> gerr option) \<Rightarrow> gerr + byte \<times> (bytes \<times> gerr option) list \<Rightarrow> bytes \<times> bool \<times> gerr option" where
  "readWS cw msg =
     (case msg of
        Inl e \<Rightarrow> ([], False, Some e)
      | Inr (t, []) \<Rightarrow> ([], False, None)
      | Inr (t, (d, Some e) # rs) \<Rightarrow> ([], False, if e = EOF then None else Some e)
      | Inr (t, (d, None) # rs) \<Rightarrow>
          (case chan_write cw [] ([t, 0] @ PutUint16 (of_nat (length d)) @ d) of
             (out, Some e) \<Rightarrow> (out, True, Some e)
           | (out, None) \<Rightarrow> readWS_rest cw out rs))"

section \<open>From the channel to the target\<close>

text \<open>
  What the target's writer says: the error of \<open>NextWriter\<close>, of a write after the data written so far,
  and of \<open>Close\<close>.  \<open>io.Copy\<close> of a limited reader takes the end of the channel for the end of the
  data.  The result is the message written, what is left on the channel, whether the
  channel failed, and the error.
\<close>

record ws_target =
  wt_next :: "gerr option"
  wt_write :: "bytes \<Rightarrow> gerr option"
  wt_close :: "gerr option"

definition copy_chunk :: "ws_target \<Rightarrow> bytes \<Rightarrow> nat \<Rightarrow> bytes \<Rightarrow> bytes \<times> bytes \<times> gerr option" where
  "copy_chunk tg out l inp =
     (if l = 0 \<or> inp = [] then (out, inp, None)
      else case wt_write tg out of
             Some e \<Rightarrow> (out, drop l inp, Some e)
           | None \<Rightarrow> (out @ take l inp, drop l inp, None))"

function writeWS_rest ::
    "ws_target \<Rightarrow> bool \<Rightarrow> bytes \<Rightarrow> bytes \<Rightarrow> bytes \<times> bytes \<times> bool \<times> gerr option" where
  "writeWS_rest tg fin out inp =
     (if fin then (out, inp, False, wt_close tg)
      else
        case ReadFull 3 inp of
          (_, Some e, r) \<Rightarrow> (out, r, True, Some e)
        | (b, None, r) \<Rightarrow>
            (case copy_chunk tg out (unat (Uint16 (drop 1 b))) r of
               (out, r', Some e) \<Rightarrow> (out, r', False, Some e)
             | (out, r', None) \<Rightarrow> writeWS_rest tg (hd b = 1) out r'))"
  by pat_completeness auto
termination
  by (relation "measure (\<lambda>(tg, fin, out, inp). length inp)")
    (auto dest!: ReadFull_SomeD [OF sym] simp: copy_chunk_def split: if_splits option.splits)

declare writeWS_rest.simps [simp del]

definition writeWS :: "ws_target \<Rightarrow> bytes \<Rightarrow> (nat \<times> bytes) option \<times> bytes \<times> bool \<times> gerr option" where
  "writeWS tg inp =
     (case ReadFull 4 inp of
        (_, Some e, r) \<Rightarrow> (None, r, True, Some e)
      | (b, None, r) \<Rightarrow>
          (case wt_next tg of
             Some e \<Rightarrow> (None, r, False, Some e)
           | None \<Rightarrow>
               (case copy_chunk tg [] (unat (Uint16 (drop 2 b))) r of
                  (out, r', Some e) \<Rightarrow> (Some (unat (hd b), out), r', False, Some e)
                | (out, r', None) \<Rightarrow>
                    (case writeWS_rest tg (b ! 1 = 1) out r' of
                       (out, r'', c, e) \<Rightarrow> (Some (unat (hd b), out), r'', c, e)))))"

section \<open>The loops\<close>

text \<open>
  Each direction runs until its first error.  Then the side that failed is told by \<open>closed\<close>: the
  other one is closed after three seconds, the channel in the second case only if its
  context is still live.
\<close>

datatype ws_closing = ChannelThenTarget | TargetThenChannel | TargetOnly

definition ws_closing_order :: "bool \<Rightarrow> bool \<Rightarrow> ws_closing" where
  "ws_closing_order closed live =
     (if closed then ChannelThenTarget else if live then TargetThenChannel else TargetOnly)"

fun readWS_loop ::
    "(bytes \<Rightarrow> gerr option) \<Rightarrow> (gerr + byte \<times> (bytes \<times> gerr option) list) list \<Rightarrow> bytes \<times> (bool \<times> gerr) option" where
  "readWS_loop cw [] = ([], None)"
| "readWS_loop cw (m # ms) =
     (case readWS cw m of
        (out, closed, Some e) \<Rightarrow> (out, Some (closed, e))
      | (out, closed, None) \<Rightarrow> (case readWS_loop (\<lambda>x. cw (out @ x)) ms of (out', r) \<Rightarrow> (out @ out', r)))"

fun writeWS_loop :: "ws_target list \<Rightarrow> bytes \<Rightarrow> (nat \<times> bytes) list \<times> bytes \<times> (bool \<times> gerr) option" where
  "writeWS_loop [] inp = ([], inp, None)"
| "writeWS_loop (tg # tgs) inp =
     (case writeWS tg inp of
        (m, r, closed, Some e) \<Rightarrow> (case m of None \<Rightarrow> [] | Some m \<Rightarrow> [m], r, Some (closed, e))
      | (m, r, closed, None) \<Rightarrow>
          (case writeWS_loop tgs r of (ms, r', e) \<Rightarrow> ((case m of None \<Rightarrow> [] | Some m \<Rightarrow> [m]) @ ms, r', e)))"

section \<open>Relaying to the target\<close>

definition good_target :: ws_target where
  "good_target = \<lparr>wt_next = None, wt_write = (\<lambda>_. None), wt_close = None\<rparr>"

lemma ws_frame_ReadFull:
  "ReadFull 3 (ws_frame fin d @ s) = ([if fin then 1 else 0] @ PutUint16 (of_nat (length d)), None, d @ s)"
  using ReadFull_append [of "[if fin then 1 else 0] @ PutUint16 (of_nat (length d))" 3 "d @ s"]
  by (simp add: ws_frame_def)

lemma copy_good: "length d = n \<Longrightarrow> copy_chunk good_target out n (d @ s) = (out @ d, s, None)"
  by (auto simp: copy_chunk_def good_target_def)

lemma writeWS_rest_frames:
  "ws_tail fs \<Longrightarrow> writeWS_rest good_target False out (ws_bytes fs @ s) = (out @ ws_data fs, s, False, None)"
proof (induction fs arbitrary: out)
  case (Cons f fs)
  obtain fin d where f: "f = (fin, d)" by (cases f)
  obtain tl: "length d \<le> 65535" "if fin then fs = [] else ws_tail fs"
    using Cons.prems ws_tail_ConsE f by blast
  have "writeWS_rest good_target False out (ws_bytes (f # fs) @ s)
      = writeWS_rest good_target fin (out @ d) (ws_bytes fs @ s)"
    by (subst writeWS_rest.simps) (simp add: f ws_frame_ReadFull unat_u16 [OF tl(1)] copy_good)
  also have "\<dots> = (out @ ws_data (f # fs), s, False, None)"
  proof (cases fin)
    case True
    then show ?thesis using tl(2) f by (subst writeWS_rest.simps) (simp add: good_target_def)
  next
    case False
    then show ?thesis using tl(2) f Cons.IH [of "out @ d"] by simp
  qed
  finally show ?case .
qed simp

lemma writeWS_frames:
  assumes "ws_tail fs"
  shows "writeWS good_target (t # ws_bytes fs @ s) = (Some (unat t, ws_data fs), s, False, None)"
proof (cases fs)
  case Nil
  then show ?thesis using assms by simp
next
  case (Cons f gs)
  obtain fin d where f: "f = (fin, d)" by (cases f)
  obtain tl: "length d \<le> 65535" "if fin then gs = [] else ws_tail gs"
    using assms Cons ws_tail_ConsE f by blast
  let ?h = "[t, if fin then 1 else 0] @ PutUint16 (of_nat (length d))"
  have rd: "ReadFull 4 (t # ws_bytes fs @ s) = (?h, None, d @ ws_bytes gs @ s)"
    using ReadFull_append [of ?h 4 "d @ ws_bytes gs @ s"] Cons f by (simp add: ws_frame_def)
  have "writeWS_rest good_target fin d (ws_bytes gs @ s) = (ws_data fs, s, False, None)"
  proof (cases fin)
    case True
    then show ?thesis using tl(2) f Cons by (subst writeWS_rest.simps) (simp add: good_target_def)
  next
    case False
    then show ?thesis using tl(2) f Cons writeWS_rest_frames by simp
  qed
  moreover have "wt_next good_target = None" by (simp add: good_target_def)
  ultimately show ?thesis
    using rd by (cases fin) (simp_all add: writeWS_def unat_u16 [OF tl(1)] copy_good)
qed

text \<open>The server's end reads the same format; its loop is the reading of several messages.\<close>

definition writeWS_dec :: "bytes \<Rightarrow> ((nat \<times> bytes) \<times> bytes) option" where
  "writeWS_dec inp =
     (case writeWS good_target inp of (Some m, r, False, None) \<Rightarrow> Some (m, r) | _ \<Rightarrow> None)"

interpretation wsr: stream_codec ws_ok ws_enc writeWS_dec ws_meaning
proof
  fix m s assume "ws_ok m"
  then obtain fs where "ws_tail fs" "ws_data fs = concat (snd m)"
    "ws_enc m = word_of_int (fst m) # ws_bytes fs" "unat (word_of_int (fst m) :: byte) = nat (fst m)"
    using ws_sent_frames [of "fst m" "snd m"] by (auto simp: ws_ok_def)
  then show "writeWS_dec (ws_enc m @ s) = Some (ws_meaning m, s)"
    by (simp add: writeWS_dec_def writeWS_frames ws_meaning_def)
qed

lemma writeWS_loop_dec:
  "dec_all writeWS_dec n inp = Some (ms, r) \<Longrightarrow> writeWS_loop (replicate n good_target) inp = (ms, r, None)"
proof (induction n arbitrary: inp ms)
  case (Suc n)
  then show ?case
    by (auto simp: writeWS_dec_def split: option.splits prod.splits bool.splits)
qed simp

lemma writeWS_loop_sent:
  assumes "\<forall>m \<in> set msgs. ws_ok m"
  shows "writeWS_loop (replicate (length msgs) good_target) (concat (map ws_enc msgs) @ rest)
    = (map ws_meaning msgs, rest, None)"
  using writeWS_loop_dec [OF wsr.dec_enc_all [OF assms]] .

text \<open>
  C26: the messages that a client writes, in any pieces, reach the target of its web socket one by
  one, in order, each with its type and all its data, and the relay does not fail.
\<close>

theorem ws_relay_to_target:
  assumes "\<forall>(t, bs) \<in> set msgs. ws_type_ok t \<and> bs \<noteq> []"
  shows "writeWS_loop (replicate (length msgs) good_target) (concat (map (\<lambda>(t, bs). ws_sent t bs) msgs) @ rest)
    = (map (\<lambda>(t, bs). (nat t, concat bs)) msgs, rest, None)"
proof -
  have "\<forall>m \<in> set msgs. ws_ok m" using assms by (auto simp: ws_ok_def)
  from writeWS_loop_sent [OF this] show ?thesis by (simp add: ws_meaning_def case_prod_unfold)
qed

theorem ws_relay_to_target_witness:
  "writeWS_loop [good_target, good_target] (ws_sent 1 [[72], [105]] @ ws_sent 9 [[]] @ [4])
    = ([(1, [72, 105]), (9, [])], [4], None)"
  using ws_relay_to_target [of "[(1, [[72], [105]]), (9, [[]])]" "[4]"]
  by (simp add: ws_type_ok_def)

section \<open>Relaying from the target\<close>

text \<open>A message of the target whose reads return \<open>ds\<close> and then \<open>last\<close> with the end.\<close>

definition ws_read_of :: "byte \<times> bytes list \<times> bytes \<Rightarrow> byte \<times> (bytes \<times> gerr option) list" where
  "ws_read_of m = (case m of (t, ds, d) \<Rightarrow> (t, map (\<lambda>d. (d, None)) ds @ [(d, Some EOF)]))"

lemma readWS_rest_frames:
  "readWS_rest (\<lambda>_. None) out (map (\<lambda>d. (d, None)) ds @ [(d, Some EOF)])
    = (out @ ws_bytes (map (Pair False) ds @ [(True, d)]), False, None)"
  by (induction ds arbitrary: out) (simp_all add: chan_write_def ws_frame_def)

lemma readWS_frames:
  "readWS (\<lambda>_. None) (Inr (ws_read_of (t, d0 # ds, d)))
    = (t # ws_bytes (map (Pair False) (d0 # ds) @ [(True, d)]), False, None)"
  using readWS_rest_frames [of "t # ws_frame False d0" ds d]
  by (simp add: ws_read_of_def readWS_def chan_write_def ws_frame_def)

lemma ws_tail_reads:
  "\<forall>x \<in> set (d # ds). length x \<le> 65535 \<Longrightarrow> ws_tail (map (Pair False) ds @ [(True, d)])"
proof (induction ds)
  case (Cons a ds)
  then show ?case by (cases "map (Pair False) ds @ [(True, d)]") auto
qed simp

text \<open>
  C27: the messages of the target arrive at the client in order with their types and data, except that
  a message whose first read already ends is dropped, an empty one in particular.
\<close>

theorem ws_relay_from_target:
  assumes "\<forall>(t, ds, d) \<in> set msgs. \<forall>x \<in> set (d # ds). length x \<le> 65535"
  shows "\<exists>out. readWS_loop (\<lambda>_. None) (map (\<lambda>m. Inr (ws_read_of m)) msgs) = (out, None)
    \<and> dec_all (ws_dec sched) (length (filter (\<lambda>(t, ds, d). ds \<noteq> []) msgs)) (out @ rest)
      = Some (map (\<lambda>(t, ds, d). (unat t, concat ds @ d)) (filter (\<lambda>(t, ds, d). ds \<noteq> []) msgs), rest)"
  using assms
proof (induction msgs)
  case (Cons m msgs)
  obtain t ds d where m: "m = (t, ds, d)" by (cases m)
  obtain out where out: "readWS_loop (\<lambda>_. None) (map (\<lambda>m. Inr (ws_read_of m)) msgs) = (out, None)"
    "dec_all (ws_dec sched) (length (filter (\<lambda>(t, ds, d). ds \<noteq> []) msgs)) (out @ rest)
      = Some (map (\<lambda>(t, ds, d). (unat t, concat ds @ d)) (filter (\<lambda>(t, ds, d). ds \<noteq> []) msgs), rest)"
    using Cons by auto
  show ?case
  proof (cases ds)
    case Nil
    then have "readWS (\<lambda>_. None) (Inr (ws_read_of m)) = ([], False, None)"
      by (simp add: m ws_read_of_def readWS_def)
    then show ?thesis using out m Nil by simp
  next
    case ds: (Cons d0 ds')
    let ?fs = "map (Pair False) ds' @ [(True, d)]"
    have rd: "readWS (\<lambda>_. None) (Inr (ws_read_of m)) = (t # ws_bytes ((False, d0) # ?fs), False, None)"
      unfolding m ds readWS_frames by simp
    have tl: "ws_tail ((False, d0) # ?fs)"
      using Cons.prems m ds ws_tail_reads [of d ds] by simp
    have dat: "d0 @ ws_data ?fs = concat ds @ d"
      by (simp add: ds ws_data_def comp_def)
    have msg: "ws_dec sched (t # ws_bytes ((False, d0) # ?fs) @ out @ rest)
        = Some ((unat t, concat ds @ d), out @ rest)"
      using ReadMessage_frames [OF tl, of sched t "out @ rest"] dat by (simp add: ws_dec_def)
    then show ?thesis using out m ds rd
      by (intro exI [of _ "(t # ws_bytes ((False, d0) # ?fs)) @ out"]) simp
  qed
qed simp

theorem ws_relay_from_target_witness:
  "\<exists>out. readWS_loop (\<lambda>_. None) (map (\<lambda>m. Inr (ws_read_of m)) [(1, [[72], [105]], []), (2, [], []), (2, [[7]], [])])
      = (out, None)
    \<and> dec_all (ws_dec (\<lambda>_. (511, 0))) (Suc (Suc 0)) (out @ [4]) = Some ([(1, [72, 105]), (2, [7])], [4])"
  using ws_relay_from_target [of "[(1, [[72], [105]], []), (2, [], []), (2, [[7]], [])]" "\<lambda>_. (511, 0)" "[4]"]
  by (simp del: readWS_loop.simps dec_all.simps)

end
