(* ===== verification/Echo.thy ===== *)
theory Echo
  imports WebsocketRelay
begin

text \<open>
  \<open>cmd/httpadapter/echo.go\<close>: the echo server, which answers requests with what they are, web sockets with their own
  messages and tunnels with their own bytes.  The web socket and HTTP libraries are met through the outcomes
  of the calls.
\<close>

section \<open>Tunnels\<close>

text \<open>
  The goroutine at the other end of the pipe that the dialer returns: what its reads into 1024 bytes return and
  the errors of its writes.  The result is what it writes and whether it has closed its end.
\<close>

fun echo_tcp :: "copy_turn list \<Rightarrow> bytes \<times> bool" where
  "echo_tcp [] = ([], False)"
| "echo_tcp (t # ts) =
     (if cp_read t \<noteq> None then ([], True)
      else if cp_write t \<noteq> None then ([], True)
      else case echo_tcp ts of (out, closed) \<Rightarrow> (cp_data t @ out, closed))"

lemma echo_tcp_Copy: "echo_tcp ts = (fst (Copy ts), snd (Copy ts) \<noteq> None)"
  by (induction ts) (auto split: option.split prod.splits)

section \<open>Web sockets\<close>

text \<open>
  \<open>io.Copy\<close> from a message, of which the reads are given, to a message that is written: data that comes with
  an error is written first; the end is no error.
\<close>

fun io_Copy :: "(bytes \<Rightarrow> gerr option) \<Rightarrow> bytes \<Rightarrow> (bytes \<times> gerr option) list \<Rightarrow> bytes \<times> gerr option" where
  "io_Copy wr out [] = (out, None)"
| "io_Copy wr out ((d, e) # rs) =
     (case (if d = [] then None else wr out) of
        Some err \<Rightarrow> (out, Some err)
      | None \<Rightarrow>
          (case e of
             None \<Rightarrow> io_Copy wr (out @ d) rs
           | Some err \<Rightarrow> (out @ d, if err = EOF then None else Some err)))"

text \<open>
  The loop: a message, or the error of \<open>NextReader\<close>, and what the writer of its echo says.  The result lists
  the echoes that were closed and whether the loop has ended.
\<close>

fun echo_ws :: "((gerr + byte \<times> (bytes \<times> gerr option) list) \<times> ws_target) list \<Rightarrow> (byte \<times> bytes) list \<times> bool" where
  "echo_ws [] = ([], False)"
| "echo_ws ((Inl e, tg) # ms) = ([], True)"
| "echo_ws ((Inr (t, rs), tg) # ms) =
     (if wt_next tg \<noteq> None then ([], True)
      else
        case io_Copy (wt_write tg) [] rs of
          (out, Some e) \<Rightarrow> ([], True)
        | (out, None) \<Rightarrow>
            if wt_close tg \<noteq> None then ([], True)
            else case echo_ws ms of (echoes, ended) \<Rightarrow> ((t, out) # echoes, ended))"

text \<open>The reads of a message: pieces, and the end with the last piece or after it.\<close>

definition whole_message :: "(bytes \<times> gerr option) list \<Rightarrow> bool" where
  "whole_message rs \<longleftrightarrow> rs \<noteq> [] \<and> (\<forall>r \<in> set (butlast rs). snd r = None) \<and> snd (last rs) = Some EOF"

lemma io_Copy_whole:
  "whole_message rs \<Longrightarrow> (\<And>out. wr out = None) \<Longrightarrow> io_Copy wr out rs = (out @ concat (map fst rs), None)"
  by (induction wr out rs rule: io_Copy.induct) (auto simp: whole_message_def split: if_splits option.splits)

text \<open>Every message comes back, with its type and all its data, however its reads cut it.\<close>

theorem echo_ws_echoes:
  "\<forall>(t, rs) \<in> set ms. whole_message rs \<Longrightarrow>
     fst (echo_ws (map (\<lambda>(t, rs). (Inr (t, rs), good_target)) ms @ rest))
       = map (\<lambda>(t, rs). (t, concat (map fst rs))) ms @ fst (echo_ws rest)"
  by (induction ms) (auto simp: good_target_def io_Copy_whole split: prod.split)

section \<open>Other requests\<close>

text \<open>The status and, if the body can be read, the URL, the headers and the body; their JSON is foreign.\<close>

definition echo_http :: "'url \<Rightarrow> 'header \<Rightarrow> gerr + bytes \<Rightarrow> nat \<times> ('url \<times> 'header \<times> bytes) option" where
  "echo_http url header body =
     (case body of
        Inl e \<Rightarrow> (500, None)
      | Inr b \<Rightarrow> (200, Some (url, header, b)))"

end
