(* ===== verification/CommandRun.thy ===== *)
theory CommandRun
  imports ServerRun ClientCommand Echo
begin

text \<open>
  Runs of the other commands of \<open>cmd/httpadapter\<close>: \<open>tunnel\<close>, \<open>client\<close>, \<open>echo\<close> and the root, with their flags.  What a
  run prints is a list of lines; \<open>log.Fatalln\<close> is \<open>Panic\<close>.  The gin library finds a page or none for a path.
\<close>

section \<open>The pages that a command serves\<close>

datatype web_answer = WebPage web_page | WebNoRoute | WebPprof web_handler | WebMoved string | WebMissing

text \<open>\<open>gin\<close> looks up the method and the path in the routes for GET; without a route it asks its own handler.\<close>

definition web_route ::
    "((string \<times> web_page) list \<Rightarrow> string \<Rightarrow> string \<Rightarrow> web_page option) \<Rightarrow> document_pages \<Rightarrow> string \<Rightarrow> string \<Rightarrow> web_answer" where
  "web_route gin d method path =
     (case ServeMux_Handler registerWeb path of
        MuxServe WebEngine \<Rightarrow>
          (case gin (Document_Register d) method path of
             Some page \<Rightarrow> WebPage page
           | None \<Rightarrow> WebNoRoute)
      | MuxServe h \<Rightarrow> WebPprof h
      | MuxRedirect p \<Rightarrow> WebMoved p
      | MuxNotFound \<Rightarrow> WebMissing)"

section \<open>The tunnel command\<close>

text \<open>
  The debug listener is opened after the tunnels; \<open>wait\<close> counts the goroutines that the command waits for, and
  each tunnel's copies take buffers of this size.
\<close>

record tunnel_run =
  tr_tunnels :: tunnels
  tr_servers :: "tunnel_server list"
  tr_debug :: "string option"
  tr_wait :: nat
  tr_buffer :: nat

definition tunnel_run ::
    "(string \<Rightarrow> gerr + tunnel_cnf list) \<Rightarrow> (string \<Rightarrow> string) \<Rightarrow> (bool \<Rightarrow> nat) \<Rightarrow> (string \<Rightarrow> gerr option)
       \<Rightarrow> string \<Rightarrow> string \<Rightarrow> tunnel_run outcome" where
  "tunnel_run load json dial listen cnfpath debug =
     (case load cnfpath of
        Inl e \<Rightarrow> Panic
      | Inr cnfs \<Rightarrow>
          bind_outcome (tunnel_cmd json dial listen cnfs) (\<lambda>(t, srvs).
            let run = \<lparr>tr_tunnels = t, tr_servers = srvs, tr_debug = None, tr_wait = 0, tr_buffer = 1024 * 32\<rparr> in
            bind_outcome
              (if debug \<noteq> [] then
                 (case listen debug of
                    Some e \<Rightarrow> Panic
                  | None \<Rightarrow> Done (run\<lparr>tr_debug := Some debug, tr_wait := tr_wait run + 1\<rparr>))
               else Done run)
              (\<lambda>run. Done (run\<lparr>tr_wait := tr_wait run + length srvs\<rparr>))))"

definition tunnel_flags :: "string \<Rightarrow> cmd_flag list" where
  "tunnel_flags base =
     [\<lparr>fl_name = ''cnf'', fl_short = ''c'', fl_default = FlagString (path_Join [base, ''etc'', ''tunnel.jsonnet''])\<rparr>,
      \<lparr>fl_name = ''debug'', fl_short = ''d'', fl_default = FlagString []\<rparr>]"

section \<open>The client command\<close>

datatype client_out = OutStatus int | OutHeader header | OutBody bytes | OutLine

text \<open>
  What is printed of the answer of a request, and how the command ends; \<open>wr\<close> is the error of a write to the
  output, and \<open>reads\<close> are the reads of the body.
\<close>

definition client_unary_run ::
    "(bytes \<Rightarrow> gerr option) \<Rightarrow> gerr + message_response \<Rightarrow> (bytes \<times> gerr option) list \<Rightarrow> client_out list \<times> unit outcome" where
  "client_unary_run wr r reads =
     (case r of
        Inl e \<Rightarrow> ([], Panic)
      | Inr resp \<Rightarrow>
          let out = [OutStatus (mr_Status resp), OutHeader (mr_Header resp)] in
          if mr_BodyLen resp > 0 then
            (case io_Copy wr [] reads of
               (b, Some e) \<Rightarrow> (out @ [OutBody b], Panic)
             | (b, None) \<Rightarrow> (out @ [OutBody b, OutLine], Done ()))
          else (out, Done ()))"

text \<open>
  The goroutine of a web socket that sends the input: the messages written, until the end of the input or a write
  that fails ends the program.
\<close>

lemma getInput_shorter: "getInput ls = Done (t, b, rest) \<Longrightarrow> length rest < length ls"
  by (induction ls) (fastforce simp: Let_def split: if_splits option.splits)+

function client_ws_send :: "(nat \<times> bytes \<Rightarrow> gerr option) \<Rightarrow> string list \<Rightarrow> (nat \<times> bytes) list" where
  "client_ws_send wr ls =
     (case getInput ls of
        Panic \<Rightarrow> []
      | Done (text_line, b, rest) \<Rightarrow>
          (case wr (client_ws_message (text_line, b)) of
             Some e \<Rightarrow> []
           | None \<Rightarrow> client_ws_message (text_line, b) # client_ws_send wr rest))"
  by pat_completeness auto
termination by (relation "measure (\<lambda>(wr, ls). length ls)") (auto dest: getInput_shorter)

declare client_ws_send.simps [simp del]

text \<open>The loop that prints what arrives, until a read fails, which ends the program.\<close>

fun client_ws_recv :: "(gerr + nat \<times> bytes) list \<Rightarrow> (nat \<times> bytes) list \<times> unit outcome" where
  "client_ws_recv [] = ([], Done ())"
| "client_ws_recv (Inl e # rs) = ([], Panic)"
| "client_ws_recv (Inr m # rs) = (case client_ws_recv rs of (ms, how) \<Rightarrow> (m # ms, how))"

definition client_flags :: "cmd_flag list" where
  "client_flags =
     [\<lparr>fl_name = ''data'', fl_short = ''d'', fl_default = FlagString []\<rparr>,
      \<lparr>fl_name = ''url'', fl_short = ''u'', fl_default = FlagString []\<rparr>,
      \<lparr>fl_name = ''method'', fl_short = ''M'', fl_default = FlagString ''GET''\<rparr>,
      \<lparr>fl_name = ''header'', fl_short = ''H'', fl_default = FlagStrings []\<rparr>,
      \<lparr>fl_name = ''server'', fl_short = ''s'', fl_default = FlagString []\<rparr>,
      \<lparr>fl_name = ''tls'', fl_short = [], fl_default = FlagBool False\<rparr>,
      \<lparr>fl_name = ''insecure'', fl_short = ''k'', fl_default = FlagBool False\<rparr>]"

section \<open>The echo command\<close>

text \<open>\<open>dialer\<close> and \<open>web\<close> name the dialer with the pipe and the handler that the command makes.\<close>

definition echo_options :: "nat \<Rightarrow> nat \<Rightarrow> server_option list" where
  "echo_options dialer web = [ServerTCPDialer (Some dialer)] @ [ServerHTTP (Some web)]"

definition echo_cmd :: "(string \<Rightarrow> gerr option) \<Rightarrow> nat \<Rightarrow> nat \<Rightarrow> string \<Rightarrow> server_options outcome" where
  "echo_cmd listen dialer web addr =
     (case listen addr of
        Some e \<Rightarrow> Panic
      | None \<Rightarrow> Done (NewServer_opts (echo_options dialer web)))"

definition echo_flags :: "cmd_flag list" where
  "echo_flags = [\<lparr>fl_name = ''addr'', fl_short = ''a'', fl_default = FlagString '':9000''\<rparr>]"

text \<open>The upgrader: its buffers, and that it takes web sockets of every origin.\<close>

record 'req upgrader =
  ug_ReadBufferSize :: int
  ug_WriteBufferSize :: int
  ug_CheckOrigin :: "'req \<Rightarrow> bool"

definition echo_upgrader :: "'req upgrader" where
  "echo_upgrader = \<lparr>ug_ReadBufferSize = 1024, ug_WriteBufferSize = 1024, ug_CheckOrigin = (\<lambda>r. True)\<rparr>"

text \<open>A request of the echo server: whether it asks for a web socket, its URL, headers and the reading of its body.\<close>

record ('url, 'header) echo_request =
  eq_websocket :: bool
  eq_URL :: 'url
  eq_Header :: 'header
  eq_Body :: "gerr + bytes"

datatype ('url, 'header) echo_answer =
    EchoText nat gerr
  | EchoSession "(byte \<times> bytes) list" bool
  | EchoJSON nat 'url 'header bytes

text \<open>
  The handler for paths without a route; \<open>upgrade\<close> is the library's, \<open>ms\<close> are the messages of the web socket and
  what the writers of the echoes say.
\<close>

definition echo_NoRoute ::
    "(('url, 'header) echo_request upgrader \<Rightarrow> ('url, 'header) echo_request \<Rightarrow> gerr option)
       \<Rightarrow> ((gerr + byte \<times> (bytes \<times> gerr option) list) \<times> ws_target) list
       \<Rightarrow> ('url, 'header) echo_request \<Rightarrow> ('url, 'header) echo_answer" where
  "echo_NoRoute upgrade ms req =
     (if eq_websocket req then
        (case upgrade echo_upgrader req of
           Some e \<Rightarrow> EchoText 500 e
         | None \<Rightarrow> (case echo_ws ms of (echoes, closed) \<Rightarrow> EchoSession echoes closed))
      else
        (case eq_Body req of
           Inl e \<Rightarrow> EchoText 500 e
         | Inr b \<Rightarrow> EchoJSON 200 (eq_URL req) (eq_Header req) b))"

section \<open>The root command\<close>

definition Version :: string where
  "Version = ''v0.0.2''"

definition root_cmd :: "bool \<Rightarrow> bool \<Rightarrow> string list" where
  "root_cmd version protocol =
     (let out = (if version then [Version] else []) @ (if protocol then [ProtocolVersion] else []) in
      if out \<noteq> [] then out
      else [''an http adapter '', ''protocol '' @ ProtocolVersion, ''version '' @ Version])"

definition root_flags :: "cmd_flag list" where
  "root_flags =
     [\<lparr>fl_name = ''version'', fl_short = ''v'', fl_default = FlagBool False\<rparr>,
      \<lparr>fl_name = ''protocol'', fl_short = ''p'', fl_default = FlagBool False\<rparr>]"

text \<open>The commands that \<open>main\<close> adds to the root, each with its flags.\<close>

definition main_commands :: "string \<Rightarrow> (string \<times> cmd_flag list) list" where
  "main_commands base =
     [(''server'', server_flags base), (''tunnel'', tunnel_flags base), (''client'', client_flags), (''echo'', echo_flags)]"

section \<open>What the runs do\<close>

lemma web_route_document:
  assumes "\<And>routes path page. map_of routes path = Some page \<Longrightarrow> gin routes ''GET'' path = Some page"
  shows "web_route gin d ''GET'' ''/document/transport.md'' = WebPage (Document_transport d)"
    "web_route gin d ''GET'' ''/document'' = WebPage Document_index"
proof -
  have "ServeMux_Handler registerWeb ''/document/transport.md'' = MuxServe WebEngine"
    "ServeMux_Handler registerWeb ''/document'' = MuxServe WebEngine"
    by (rule registerWeb_engine; simp add: HasPrefix_def)+
  then show "web_route gin d ''GET'' ''/document/transport.md'' = WebPage (Document_transport d)"
    "web_route gin d ''GET'' ''/document'' = WebPage Document_index"
    using assms by (simp_all add: web_route_def Document_Register_def)
qed

text \<open>Whatever gin does, a path outside the profiler is its own affair, and the profiler's paths never reach it.\<close>

lemma web_route_engine:
  "HasPrefix path ''/'' \<Longrightarrow> \<not> HasPrefix path ''/debug/pprof''
     \<Longrightarrow> web_route gin d method path = (case gin (Document_Register d) method path of Some p \<Rightarrow> WebPage p | None \<Rightarrow> WebNoRoute)"
  by (simp add: web_route_def registerWeb_engine)

text \<open>
  A run of the tunnels waits for one goroutine per tunnel, and for one more exactly when it serves the debug pages.
\<close>

lemma tunnel_run_waits:
  assumes "tunnel_run load json dial listen cnfpath debug = Done run"
  obtains cnfs where "load cnfpath = Inr cnfs" "cnfs \<noteq> []" "tunnel_cmd json dial listen cnfs = Done (tr_tunnels run, tr_servers run)"
    "tr_wait run = length (tr_servers run) + (if debug = [] then 0 else 1)"
    "tr_debug run = (if debug = [] then None else Some debug)" "debug \<noteq> [] \<Longrightarrow> listen debug = None"
proof -
  obtain cnfs where l: "load cnfpath = Inr cnfs" using assms by (auto simp: tunnel_run_def split: sum.splits)
  then obtain t srvs where c: "tunnel_cmd json dial listen cnfs = Done (t, srvs)"
    using assms by (auto simp: tunnel_run_def bind_outcome_Done_iff)
  then have "cnfs \<noteq> []" by (auto simp: tunnel_cmd_def)
  then show ?thesis
    using that [of cnfs] assms l c
    by (auto simp: tunnel_run_def Let_def bind_outcome_Done_iff split: if_splits option.splits)
qed

text \<open>
  The body of an answer is printed exactly, and only after status and headers; without a body nothing else is.
\<close>

lemma client_unary_prints:
  assumes "whole_message reads" "mr_BodyLen resp > 0" "\<And>out. wr out = None"
  shows "client_unary_run wr (Inr resp) reads =
    ([OutStatus (mr_Status resp), OutHeader (mr_Header resp), OutBody (concat (map fst reads)), OutLine], Done ())"
  using io_Copy_whole [OF assms(1), of wr "[]"] assms(2,3) by (simp add: client_unary_run_def Let_def)

text \<open>
  The lines of an input become messages in their order: each encoding with its bytes, each text as it stands.
\<close>

lemma client_ws_sends:
  "client_ws_send (\<lambda>_. None) (map (\<lambda>bs. ''hex:'' @ hex_encode bs) bss) = map (\<lambda>bs. (2, bs)) bss"
proof (induction bss)
  case Nil
  then show ?case by (subst client_ws_send.simps) simp
next
  case (Cons bs bss)
  have "getInput (map (\<lambda>bs. ''hex:'' @ hex_encode bs) (bs # bss)) = Done (False, bs, map (\<lambda>bs. ''hex:'' @ hex_encode bs) bss)"
    using getInput_message(1) [of "[]"] by (simp del: getInput.simps)
  with Cons show ?case
    by (subst client_ws_send.simps) (simp add: client_ws_message_def del: getInput.simps)
qed

lemma client_ws_recv_map: "client_ws_recv (map Inr ms @ rest) = (ms @ fst (client_ws_recv rest), snd (client_ws_recv rest))"
  by (induction ms) (auto split: prod.split)

text \<open>The echo server differs from a server with the defaults in its dialer and its handler only.\<close>

lemma echo_server_options:
  "echo_cmd listen dialer web addr = Done opts
     \<Longrightarrow> opts = defaultServerOptions\<lparr>so_tcpDialer := DUser dialer, so_handler := Some web\<rparr> \<and> listen addr = None"
  by (auto simp: echo_cmd_def echo_options_def NewServer_opts_def ServerTCPDialer_def ServerHTTP_def split: option.splits)

text \<open>A request that asks for no web socket is answered with what it is, and with 500 only when its body cannot be read.\<close>

lemma echo_answers_request:
  "\<not> eq_websocket req \<Longrightarrow> eq_Body req = Inr b \<Longrightarrow> echo_NoRoute upgrade ms req = EchoJSON 200 (eq_URL req) (eq_Header req) b"
  "echo_NoRoute upgrade ms req = EchoText st e \<Longrightarrow> st = 500 \<and> (eq_Body req = Inl e \<or> upgrade echo_upgrader req = Some e)"
  by (auto simp: echo_NoRoute_def split: if_splits option.splits sum.splits prod.splits)

lemma root_prints_something: "root_cmd version protocol \<noteq> []"
  by (simp add: root_cmd_def Let_def)

end
