(* ===== verification/Spec2Isabelle.thy ===== *)
theory Spec2Isabelle
  imports FlowControl Handshake LinkLive ServerHandler ServeLoop ClientPool CommandRun "HOL-Library.Sublist"
begin

text \<open>
  A verification development for httpadapter, a Go library that carries HTTP, web socket and
  TCP requests over channels that are multiplexed on one TCP connection.

  The program.  A client dials a server and both exchange hello messages (\<open>core/hello.go\<close>,
  \<open>server.go\<close>).  From then on each end runs a transport: \<open>serverTransport\<close> and
  \<open>clientTransport\<close> share \<open>baseTransport\<close>, which queues frames, writes them, answers pongs and
  sends pings.  A transport reads frames of six commands and keeps a table of channels
  (\<open>channel.go\<close>).  A channel is a connection of its own: its \<open>Serve\<close> cuts writes into frames
  within the peer's window, its \<open>serveConfirm\<close> returns credit, and its receiving side is a
  \<open>PipeReader\<close> over a ring (\<open>pipe/\<close>).  The server's handler (\<open>server_handler.go\<close>) reads a request from
  a channel and forwards it; the client's calls (\<open>client_unary.go\<close>, \<open>client_tcp.go\<close>,
  \<open>client_websocket.go\<close>, \<open>websocket.go\<close>) are the other side of that.  The commands
  (\<open>cmd/httpadapter\<close>) configure servers and tunnels.

  The theories, from the bottom up.
  \<^item> Prelude: bytes, errors, panics, \<open>io.ReadFull\<close>, \<open>copy\<close>.  ByteOrder: big-endian numbers, the
    locale \<open>fixed_codec\<close> with its three widths.  Framing: the locale \<open>stream_codec\<close>, what a message
    format promises, interpreted by the hellos and by both readers of web socket messages.
  \<^item> ByteFifo: the locale \<open>byte_fifo\<close>, the contract of a bounded byte queue.  ReadWriter: the ring of
    \<open>pipe/read_writer.go\<close>, which implements it.  PipeReader: \<open>pipe/pipe_reader.go\<close> with its mutex and
    condition variable as a step relation over any number of goroutines.
  \<^item> Protocol: commands, codes, frames.  HelloMsg: \<open>core/hello.go\<close>, all four marshallers and both
    readers, slice bounds as panics.
  \<^item> Channel: \<open>channel.go\<close>, each goroutine as a step relation or a function.  FlowControl: two ends of
    one direction of a channel; the invariant is the conservation of credit.
  \<^item> BaseTransport: \<open>base_transport.go\<close>.  ChannelTable: the store of channels and the locale
    \<open>io_transport\<close> of what a channel needs of its transport, interpreted by both transports.
    ServerTransport, ClientTransport: their read loops turn by turn, with the other goroutines as
    steps.  ServerOptions: all options.  Dialers: the hooks, dialers and backend that they name.  Server: accept loop and handshake.  ServeLoop: \<open>Serve\<close> with the
    goroutines it waits for.  Handshake: both ends of it
    together.  Multiplex: the frames of all channels on one connection, from the writer of one end to
    the read loop of the other, against an abstract multiplexer.  ClientPool: \<open>client.go\<close>.
  \<^item> Link: both transports with both writers on one connection that may break at any time, as one step
    relation over the turns and goroutines of the two.  LinkServer, LinkClient: what each of these moves
    does to the frames on their way and to the replies that are owed.  LinkSafety: the invariant of the
    system.  LinkCalls: what it means for \<open>Create\<close>.  LinkSession: what a connection at rest can do, a whole
    exchange from \<open>Create\<close> to the end of the handler.  LinkFrames, LinkLive: what a read loop does with one
    frame, and that every sound connection can come to rest, by a measure over the frames on their way.
  \<^item> Relay: \<open>pipe/io.go\<close>, \<open>internal/pipe/io.go\<close>, \<open>http.go\<close>.  Metadata: \<open>core/message.go\<close>.  Forward:
    requests and answers on both sides.  ServerHandler: the handler of a channel as a whole, and calls
    from the client to it and back.  WebsocketFrames: \<open>websocket.go\<close>.  WebsocketRelay: \<open>readWS\<close> and
    \<open>writeWS\<close>.
  \<^item> \<open>cmd/httpadapter\<close>.  Rewriter: patterns and URL rules.  Commands: what the configurations build.
    ClientCommand: the input and the sessions of the client, the accept loop of a tunnel.  Echo: the answers
    of the echo server.  WebRoutes: the routes of the standard multiplexer and the document pages.
    ServerRun: a run of \<open>server\<close> up to \<open>Serve\<close>, with its paths, files, listener and HTTP clients.  CommandRun:
    runs of the other commands, with the flags of all.

  How state corresponds.  A struct is a record with the fields the code uses; a goroutine is a
  program counter with its local variables; channels of Go are lists with their capacity, and a
  \<open>select\<close> is the list of its possible outcomes.  A channel is a pointer, so transports refer to
  channels by address in a store.  Panics are the value \<open>Panic\<close> or the program counter
  \<open>CPanic\<close>.  Words keep their width: 64 bits for ids and credit, 32 for windows, 16 for sizes.

  What the lemmas show.  Handshake messages and web socket messages are read back as they were
  written; the ring is a bounded queue; the pipe loses no wakeup; a channel is a reliable byte stream
  whose credit is conserved and which does not deadlock, except for the false overflow of \<open>Confirm\<close>;
  writer and read loop multiplex, so that a channel gets its own data, in order, out of any interleaving
  of frames; the table of a transport stays well formed in every run, a server's within its limit; calls of
  \<open>Create\<close> get channels of their own, and each of these channels has exactly one counterpart on the server,
  in every run of the two ends together, where the read loops stay in step with the writers and the client
  panics only after a context has ended; a call can wait for ever when the close frame of its channel
  overtakes the reply; \<open>Serve\<close> returns only after \<open>Close\<close>; requests, answers and error texts cross a channel, so that a unary
  call and a tunnel behave from end to end as if the target were asked directly; hooks and rules decide
  which URLs are reached, by one exchange without redirects; the commands pass their settings on, with the
  exceptions that the lemmas name.  The last section puts channel and web socket, and client pool and
  transport, together.

  Bounds.  The loops of the code that may run for ever are \<open>partial_function (option)\<close> with a proof
  that they return (\<open>ReadWriter.Read\<close>, \<open>io.ReadAll\<close> on a web socket message) or step relations; there
  is no fuel.  Windows are below \<open>2 ^ 32\<close>, as the handshake makes them.

  Not modelled, and why.  JSON, jsonnet, markdown, URL parsing, regular expressions, HTTP, TLS, certificates, the
  lookup of gin and web sockets themselves are foreign: they are parameters or outcomes of calls.  Flags are
  their names and defaults; cobra parses them.  The interfaces of \<open>conn.go\<close> and \<open>web/web.go\<close>, the logger and
  the embedded files of \<open>document/embed.go\<close> have no behaviour of their own, and log lines are left out.  Timers
  appear as choices; the three seconds of \<open>Copy\<close> only as the order of the closes.
\<close>

section \<open>Properties that span components\<close>

text \<open>
  C4: a web socket over a channel, end to end: at any time the relay has got a prefix of what the client
  wrote, and from every reachable state in which the client wrote whole messages some schedule of
  the channel makes the relay hand exactly these to the target, unless \<open>Confirm\<close> falsely
  reports an overflow.
\<close>

theorem websocket_end_to_end:
  assumes "flow_reachable W V cid s" "\<not> f_overflow s" "0 < W" "W < 2 ^ 32"
    and "\<forall>(t, bs) \<in> set msgs. ws_type_ok t \<and> bs \<noteq> []"
    and "f_written s = concat (map (\<lambda>(t, bs). ws_sent t bs) msgs)"
  shows "prefix (f_delivered s) (f_written s)
    \<and> (\<exists>u. flow_step\<^sup>*\<^sup>* s u
      \<and> (f_overflow u \<or> writeWS_loop (replicate (length msgs) good_target) (f_delivered u)
          = (map (\<lambda>(t, bs). (nat t, concat bs)) msgs, [], None)))"
proof -
  have inv: "flow_inv W s" by (rule flow_reachable_inv [OF assms(1,4)])
  then have pre: "prefix (f_delivered s) (f_written s)" by (auto simp: flow_inv_def prefix_def)
  obtain u where u: "flow_step\<^sup>*\<^sup>* s u" "f_written u = f_written s" "f_overflow u \<or> f_delivered u = f_written u"
    using flow_drain [OF assms(3,4) inv assms(2)] by blast
  have "\<forall>m \<in> set msgs. ws_ok m" using assms(5) by (auto simp: ws_ok_def)
  from writeWS_loop_sent [OF this, of "[]"]
  have "writeWS_loop (replicate (length msgs) good_target) (f_written s)
      = (map (\<lambda>(t, bs). (nat t, concat bs)) msgs, [], None)"
    unfolding assms(6) by (simp add: ws_meaning_def case_prod_unfold)
  then show ?thesis using pre u by auto
qed

text \<open>A client that writes one message into a fresh channel.\<close>

lemma ws_sent_hi: "ws_sent 1 [[72, 105]] = [1, 0, 0, 2, 72, 105, 1, 0, 0]"
  by (simp add: ws_sent_def NextWriter_def ws_type_ok_def ww_Write_def ww_chunks.simps checked_write_def
      conn_write_def ww_Close_def PutUint16_bytes Let_def)

definition hi_flow :: flow where
  "hi_flow = (flow_start 8 8 3)\<lparr>f_snd := newIOChannel 3 8 8,
     f_sv := serve_start\<lparr>sv_b := ws_sent 1 [[72, 105]], sv_pc := InSend\<rparr>,
     f_written := [] @ ws_sent 1 [[72, 105]]\<rparr>"

lemma hi_flow_reachable: "flow_reachable 8 8 3 hi_flow"
proof (rule flr_step [OF flr_start])
  have "serve_step False (newIOChannel 3 8 8, serve_start) (Some (ws_sent 1 [[72, 105]])) None
      (newIOChannel 3 8 8, serve_start\<lparr>sv_b := ws_sent 1 [[72, 105]], sv_pc := InSend\<rparr>)"
    by (rule s_take) (simp_all add: serve_start_def)
  then show "flow_step (flow_start 8 8 3) hi_flow"
    using fl_write [of "flow_start 8 8 3" "ws_sent 1 [[72, 105]]" "newIOChannel 3 8 8"]
    by (simp add: hi_flow_def flow_start_def)
qed

theorem websocket_end_to_end_witness:
  "flow_reachable 8 8 3 hi_flow
   \<and> (\<exists>u. flow_step\<^sup>*\<^sup>* hi_flow u
      \<and> (f_overflow u \<or> writeWS_loop [good_target] (f_delivered u) = ([(1, [72, 105])], [], None)))"
proof -
  have s: "\<not> f_overflow hi_flow" "f_written hi_flow = ws_sent 1 [[72, 105]]"
    by (simp_all add: hi_flow_def flow_start_def)
  show ?thesis
    using websocket_end_to_end [OF hi_flow_reachable s(1), of "[(1, [[72, 105]])]"] hi_flow_reachable s(2)
    by (simp add: ws_type_ok_def del: writeWS_loop.simps)
qed

text \<open>
  C23: however many calls a client makes, those whose transport is the same one get channels of their
  own: the pool never hands out a transport so often that the ids of \<open>Create\<close> repeat.
\<close>

theorem pooled_calls_distinct:
  assumes "client_reachable window rwindow inp t"
    and "length (ct_calls t) \<le> count_list (snd (serve_run rs)) (Inr k)"
    and "n < length (ct_calls t)" "ct_calls t ! n = CallRet (Inr a)"
    and "m < length (ct_calls t)" "ct_calls t ! m = CallRet (Inr a)"
  shows "m = n"
proof -
  have "count_list (snd (serve_run rs)) (Inr k) < 2 ^ 64" by (rule handed_out_bounded)
  then have "length (ct_calls t) < 2 ^ 64" using assms(2) by simp
  then show ?thesis using client_result_unique [OF assms(1) _ assms(3-6)] by blast
qed

theorem pooled_calls_distinct_witness:
  "client_reachable 8 8 (create_reply 1 0) answered \<and> length (ct_calls answered) = 1
   \<and> {m. m < length (ct_calls answered) \<and> ct_calls answered ! m = CallRet (Inr 0)} = {0}"
proof -
  have c: "length (ct_calls answered) \<le> count_list (snd (serve_run [(\<lambda>_. False, None)])) (Inr 0)"
    by (simp add: answered_def serve_run_def serve_request_def newTransport_def hand_out_def
        NewClient_pool_def Let_def)
  have a: "0 < length (ct_calls answered)" "ct_calls answered ! 0 = CallRet (Inr 0)"
    by (simp_all add: answered_def)
  show ?thesis
    using pooled_calls_distinct [OF answered_reachable c a] answered_reachable a
    by (auto simp: answered_def)
qed

end
